(* ===== verification/Base.thy ===== *)
theory Base
  imports Main
begin

text \<open>
  Vocabulary shared by every theory of the development.

  \<^item> \<open>outcome\<close> is what running a Rust function can give: \<open>Ok\<close> and \<open>Err\<close> are the two
    constructors of \<open>Result\<close>, \<open>Panic\<close> is an \<open>expect\<close> or index that fails, and \<open>NoFuel\<close> is
    not an outcome of the program: it marks a model function whose recursion bound ran out.
    \<open>and_then\<close> is the \<open>?\<close> operator (and \<open>Result::and_then\<close>).
  \<^item> A Rust \<open>str\<close> is a list of Unicode scalar values (\<open>ustr\<close>); offsets into it are UTF-8 byte
    offsets, as in the code. \<open>str_from\<close> is \<open>str::get(a..)\<close> and \<open>str_get\<close> is \<open>str::get(a..b)\<close>:
    both give \<open>None\<close> off a character boundary.
  \<^item> \<open>usize\<close> values that count bytes, tokens or stored items are \<open>nat\<close>; they are bounded by the
    size of data in memory, so the saturating additions of the source never saturate, and
    \<open>saturating_sub\<close> is subtraction on \<open>nat\<close>.
\<close>

named_theorems outcome_simps \<open>inversion of and_then and the loops built on it\<close>

section \<open>Outcomes\<close>

datatype ('e, 'a) outcome = Ok 'a | Err 'e | Panic | NoFuel

fun and_then :: "('e, 'a) outcome \<Rightarrow> ('a \<Rightarrow> ('e, 'b) outcome) \<Rightarrow> ('e, 'b) outcome" where
  "and_then (Ok x) f = f x"
| "and_then (Err e) f = Err e"
| "and_then Panic f = Panic"
| "and_then NoFuel f = NoFuel"

fun map_err :: "('e \<Rightarrow> 'f) \<Rightarrow> ('e, 'a) outcome \<Rightarrow> ('f, 'a) outcome" where
  "map_err g (Ok x) = Ok x"
| "map_err g (Err e) = Err (g e)"
| "map_err g Panic = Panic"
| "map_err g NoFuel = NoFuel"

definition ok_or :: "'a option \<Rightarrow> 'e \<Rightarrow> ('e, 'a) outcome" where
  "ok_or v e = (case v of Some x \<Rightarrow> Ok x | None \<Rightarrow> Err e)"

definition expect_some :: "'a option \<Rightarrow> ('e, 'a) outcome" where
  "expect_some v = (case v of Some x \<Rightarrow> Ok x | None \<Rightarrow> Panic)"

text \<open>\<open>returns r\<close>: the program neither panics nor (in the model) runs out of fuel.\<close>

definition returns :: "('e, 'a) outcome \<Rightarrow> bool" where
  "returns r \<longleftrightarrow> r \<noteq> Panic \<and> r \<noteq> NoFuel"

lemma and_then_cong [fundef_cong]:
  "r = r' \<Longrightarrow> (\<And>x. r' = Ok x \<Longrightarrow> f x = f' x) \<Longrightarrow> and_then r f = and_then r' f'"
  by (cases r') auto

lemma and_then_Ok_iff [outcome_simps]:
  "and_then r f = Ok y \<longleftrightarrow> (\<exists>x. r = Ok x \<and> f x = Ok y)"
  by (cases r) auto

lemma and_then_Err_iff [outcome_simps]:
  "and_then r f = Err e \<longleftrightarrow> r = Err e \<or> (\<exists>x. r = Ok x \<and> f x = Err e)"
  by (cases r) auto

lemma and_then_Panic_iff [outcome_simps]:
  "and_then r f = Panic \<longleftrightarrow> r = Panic \<or> (\<exists>x. r = Ok x \<and> f x = Panic)"
  by (cases r) auto

lemma and_then_NoFuel_iff [outcome_simps]:
  "and_then r f = NoFuel \<longleftrightarrow> r = NoFuel \<or> (\<exists>x. r = Ok x \<and> f x = NoFuel)"
  by (cases r) auto

lemma map_err_Ok_iff [outcome_simps]: "map_err g r = Ok y \<longleftrightarrow> r = Ok y"
  by (cases r) auto

lemma map_err_returns [simp]: "returns (map_err g r) \<longleftrightarrow> returns r"
  by (cases r) (auto simp: returns_def)

lemma ok_or_Ok_iff [outcome_simps]: "ok_or v e = Ok x \<longleftrightarrow> v = Some x"
  by (auto simp: ok_or_def split: option.splits)

lemma ok_or_Err_iff [outcome_simps]: "ok_or v e = Err e' \<longleftrightarrow> v = None \<and> e' = e"
  by (auto simp: ok_or_def split: option.splits)

lemma ok_or_Some [simp]: "ok_or (Some x) e = Ok x"
  by (simp add: ok_or_def)

lemma expect_some_Some [simp]: "expect_some (Some x) = Ok x"
  by (simp add: expect_some_def)

lemma expect_some_Ok_iff [outcome_simps]: "expect_some v = Ok x \<longleftrightarrow> v = Some x"
  by (auto simp: expect_some_def split: option.splits)

lemma returns_simps [simp]:
  "returns (Ok x)" "returns (Err e)" "\<not> returns Panic" "\<not> returns NoFuel"
  by (auto simp: returns_def)

lemma ok_or_returns [simp]: "returns (ok_or v e)"
  by (auto simp: ok_or_def split: option.splits)

lemma returns_and_then [intro]:
  "returns r \<Longrightarrow> (\<And>x. r = Ok x \<Longrightarrow> returns (f x)) \<Longrightarrow> returns (and_then r f)"
  by (cases r) auto

lemma returns_and_then_iff [outcome_simps]:
  "returns (and_then r f) \<longleftrightarrow> returns r \<and> (\<forall>x. r = Ok x \<longrightarrow> returns (f x))"
  by (cases r) auto

section \<open>Iterators that stop at the first error\<close>

text \<open>\<open>collect::<Result<_, _>>()\<close> over a mapped iterator.\<close>

fun try_map :: "('a \<Rightarrow> ('e, 'b) outcome) \<Rightarrow> 'a list \<Rightarrow> ('e, 'b list) outcome" where
  "try_map f [] = Ok []"
| "try_map f (x # xs) = and_then (f x) (\<lambda>y. and_then (try_map f xs) (\<lambda>ys. Ok (y # ys)))"

lemma try_map_cong [fundef_cong]:
  "xs = ys \<Longrightarrow> (\<And>x. x \<in> set ys \<Longrightarrow> f x = g x) \<Longrightarrow> try_map f xs = try_map g ys"
  by (induction xs arbitrary: ys) (auto intro!: and_then_cong)

lemma try_map_Ok_iff [outcome_simps]:
  "try_map f xs = Ok ys \<longleftrightarrow> list_all2 (\<lambda>x y. f x = Ok y) xs ys"
  by (induction xs arbitrary: ys) (auto simp: outcome_simps list_all2_Cons1)

lemma try_map_returns: "(\<And>x. x \<in> set xs \<Longrightarrow> returns (f x)) \<Longrightarrow> returns (try_map f xs)"
  by (induction xs) (auto simp: outcome_simps)

section \<open>Decimal numbers\<close>

fun dec :: "nat \<Rightarrow> string" where
  "dec n = (if n < 10 then [char_of (48 + n)] else dec (n div 10) @ [char_of (48 + n mod 10)])"

declare dec.simps [simp del]

section \<open>Text\<close>

type_synonym uchar = nat
type_synonym ustr = "uchar list"

definition ustr :: "string \<Rightarrow> ustr" where
  "ustr s = map of_char s"

definition len_utf8 :: "uchar \<Rightarrow> nat" where
  "len_utf8 c = (if c < 0x80 then 1 else if c < 0x800 then 2 else if c < 0x10000 then 3 else 4)"

definition blen :: "ustr \<Rightarrow> nat" where
  "blen s = sum_list (map len_utf8 s)"

fun str_from :: "ustr \<Rightarrow> nat \<Rightarrow> ustr option" where
  "str_from s 0 = Some s"
| "str_from [] (Suc n) = None"
| "str_from (c # cs) (Suc n) =
     (if Suc n < len_utf8 c then None else str_from cs (Suc n - len_utf8 c))"

fun str_upto :: "ustr \<Rightarrow> nat \<Rightarrow> ustr option" where
  "str_upto s 0 = Some []"
| "str_upto [] (Suc n) = None"
| "str_upto (c # cs) (Suc n) =
     (if Suc n < len_utf8 c then None
      else map_option ((#) c) (str_upto cs (Suc n - len_utf8 c)))"

definition str_get :: "ustr \<Rightarrow> nat \<Rightarrow> nat \<Rightarrow> ustr option" where
  "str_get s a b = (if a \<le> b then Option.bind (str_from s a) (\<lambda>t. str_upto t (b - a)) else None)"

lemma len_utf8_pos [simp]: "0 < len_utf8 c"
  by (simp add: len_utf8_def)

lemma len_utf8_ge1 [simp]: "Suc 0 \<le> len_utf8 c"
  using len_utf8_pos [of c] by linarith

lemma len_utf8_ne0 [simp]: "len_utf8 c \<noteq> 0"
  using len_utf8_pos [of c] by linarith

lemma len_utf8_ascii: "c < 0x80 \<Longrightarrow> len_utf8 c = 1"
  by (simp add: len_utf8_def)

lemma blen_Nil [simp]: "blen [] = 0"
  by (simp add: blen_def)

lemma blen_Cons [simp]: "blen (c # cs) = len_utf8 c + blen cs"
  by (simp add: blen_def)

lemma blen_append [simp]: "blen (s @ t) = blen s + blen t"
  by (simp add: blen_def)

lemma blen_0_iff [simp]: "blen s = 0 \<longleftrightarrow> s = []"
  by (cases s) auto

text \<open>A byte offset is a boundary exactly when it is the length of a prefix.\<close>

lemma str_from_append [simp]: "str_from (p @ s) (blen p) = Some s"
proof (induction p)
  case (Cons c p)
  obtain n where "len_utf8 c + blen p = Suc n"
    using len_utf8_pos [of c] by (metis add_gr_0 gr0_implies_Suc)
  then show ?case using Cons by (simp) (metis add_diff_cancel_left' le_add1 not_less)
qed simp

lemma str_from_SomeD: "str_from s n = Some t \<Longrightarrow> \<exists>p. s = p @ t \<and> n = blen p"
proof (induction s n arbitrary: t rule: str_from.induct)
  case (3 c cs n)
  then obtain p where "cs = p @ t" "Suc n - len_utf8 c = blen p" "\<not> Suc n < len_utf8 c"
    by (auto split: if_splits)
  then have "c # cs = (c # p) @ t \<and> Suc n = blen (c # p)" by simp
  then show ?case by blast
qed auto

lemma str_from_iff: "str_from s n = Some t \<longleftrightarrow> (\<exists>p. s = p @ t \<and> n = blen p)"
  using str_from_SomeD by fastforce

lemma str_upto_append [simp]: "str_upto (p @ s) (blen p) = Some p"
proof (induction p)
  case (Cons c p)
  obtain n where n: "len_utf8 c + blen p = Suc n"
    using len_utf8_pos [of c] by (metis add_gr_0 gr0_implies_Suc)
  then have "\<not> Suc n < len_utf8 c" "Suc n - len_utf8 c = blen p" by linarith+
  then show ?case using Cons n by simp
qed simp

lemma str_get_infix [simp]: "str_get (p @ m @ s) (blen p) (blen p + blen m) = Some m"
  by (simp add: str_get_def)

text \<open>\<open>join\<close> of a slice of strings.\<close>

fun join_with :: "'c list \<Rightarrow> 'c list list \<Rightarrow> 'c list" where
  "join_with sep [] = []"
| "join_with sep [x] = x"
| "join_with sep (x # y # xs) = x @ sep @ join_with sep (y # xs)"

end
