(* ===== verification/Spans.thy ===== *)
theory Spans
  imports Base
begin

text \<open>
  \<^verbatim>\<open>serpentine/src/snek/span.rs\<close>: byte ranges of source files, values tagged with them, and the
  virtual file in which the files of one compilation are laid end to end, so that a span of any
  file is a span of the whole. The arena of files is the list \<open>vf_files\<close>, in allocation order.
  The \<open>debug_assert!\<close> of \<open>Span::new\<close> and \<open>Span::join\<close> are no part of a release build; the
  tokenizer theory shows that the asserted condition holds for the spans it makes.
\<close>

record span =
  file_id :: nat
  sp_start :: nat
  sp_end :: nat

definition span_new :: "nat \<Rightarrow> nat \<Rightarrow> nat \<Rightarrow> span" where
  "span_new f s e = \<lparr>file_id = f, sp_start = s, sp_end = e\<rparr>"

definition span_dummy :: span where
  "span_dummy = \<lparr>file_id = 0, sp_start = 0, sp_end = 0\<rparr>"

definition span_join :: "span \<Rightarrow> span \<Rightarrow> span" where
  "span_join a b = \<lparr>file_id = file_id a, sp_start = min (sp_start a) (sp_start b),
     sp_end = max (sp_end a) (sp_end b)\<rparr>"

datatype 'a spanned = Spanned (sval: 'a) (sspan: span)

definition span_with :: "span \<Rightarrow> 'a \<Rightarrow> 'a spanned" where
  "span_with s x = Spanned x s"

text \<open>\<open>index_str\<close>: \<open>None\<close> is the branch that reports an internal error.\<close>

definition index_str :: "span \<Rightarrow> ustr \<Rightarrow> ustr option" where
  "index_str sp s = str_get s (sp_start sp) (sp_end sp)"

lemma span_join_dummy [simp]: "span_join span_dummy span_dummy = span_dummy"
  by (simp add: span_join_def span_dummy_def)

lemma span_with_sel [simp]: "sval (span_with s x) = x" "sspan (span_with s x) = s"
  by (simp_all add: span_with_def)

lemma span_new_sel [simp]:
  "file_id (span_new f s e) = f" "sp_start (span_new f s e) = s" "sp_end (span_new f s e) = e"
  by (simp_all add: span_new_def)

lemma index_str_infix:
  "code = p @ m @ s \<Longrightarrow> index_str (span_new f (blen p) (blen p + blen m)) code = Some m"
  by (simp add: index_str_def)

section \<open>The virtual file\<close>

record virtual_file =
  vf_files :: "(ustr \<times> ustr) list"
  vf_length :: nat

definition vf_new :: virtual_file where
  "vf_new = \<lparr>vf_files = [], vf_length = 0\<rparr>"

definition vf_push :: "virtual_file \<Rightarrow> ustr \<Rightarrow> ustr \<Rightarrow> virtual_file \<times> nat" where
  "vf_push vf path code =
     (vf\<lparr>vf_length := vf_length vf + blen code, vf_files := vf_files vf @ [(path, code)]\<rparr>,
      vf_length vf)"

text \<open>\<open>From<Span> for miette::SourceSpan\<close>: an (offset, length) pair in the virtual file.\<close>

definition source_span :: "span \<Rightarrow> nat \<times> nat" where
  "source_span sp = (sp_start sp + file_id sp, sp_end sp - sp_start sp)"

text \<open>
  \<open>read_span\<close>: the file an offset falls in, with the span translated into that file. What the
  code then prints of that file is \<open>miette\<close>'s own \<open>str::read_span\<close>. \<open>None\<close> is \<open>OutOfBounds\<close>.
\<close>

fun read_span_from :: "nat \<Rightarrow> (ustr \<times> ustr) list \<Rightarrow> nat \<times> nat \<Rightarrow> (ustr \<times> ustr \<times> (nat \<times> nat)) option" where
  "read_span_from start [] sp = None"
| "read_span_from start ((name, code) # files) sp =
     (if fst sp < start + blen code then Some (name, code, (fst sp - start, snd sp))
      else read_span_from (start + blen code) files sp)"

definition read_span :: "(ustr \<times> ustr) list \<Rightarrow> nat \<times> nat \<Rightarrow> (ustr \<times> ustr \<times> (nat \<times> nat)) option" where
  "read_span files sp = read_span_from 0 files sp"

definition vf_wf :: "virtual_file \<Rightarrow> bool" where
  "vf_wf vf \<longleftrightarrow> vf_length vf = sum_list (map (blen \<circ> snd) (vf_files vf))"

lemma vf_wf_new [simp]: "vf_wf vf_new"
  by (simp add: vf_wf_def vf_new_def)

lemma vf_wf_push: "vf_wf vf \<Longrightarrow> vf_wf (fst (vf_push vf path code))"
  by (simp add: vf_wf_def vf_push_def)

lemma read_span_from_skip:
  "start + sum_list (map (blen \<circ> snd) before) \<le> fst sp \<Longrightarrow>
   read_span_from start (before @ files) sp =
     read_span_from (start + sum_list (map (blen \<circ> snd) before)) files sp"
  by (induction before arbitrary: start) (auto simp: add.assoc)

text \<open>
  A span that starts inside a pushed file is reported in that file, at its own offset and length,
  whatever files are pushed before and after it.
\<close>

theorem read_span_in_file:
  assumes "vf_wf vf" and "vf_push vf path code = (vf', fid)"
    and "file_id sp = fid" and "sp_start sp < blen code"
  shows "read_span (vf_files vf' @ later) (source_span sp) =
           Some (path, code, (sp_start sp, sp_end sp - sp_start sp))"
proof -
  have files: "vf_files vf' @ later = vf_files vf @ (path, code) # later"
    and fid: "fid = sum_list (map (blen \<circ> snd) (vf_files vf))"
    using assms(1,2) by (auto simp: vf_push_def vf_wf_def)
  show ?thesis
    unfolding read_span_def files
    by (subst read_span_from_skip) (use assms(3,4) fid in \<open>auto simp: source_span_def\<close>)
qed

theorem read_span_in_file_witness:
  "read_span [(ustr ''a'', ustr ''xy''), (ustr ''b'', ustr ''pqr''), (ustr ''c'', ustr ''z'')]
     (source_span (span_new 2 1 3)) = Some (ustr ''b'', ustr ''pqr'', (1, 2))"
  using read_span_in_file [of "\<lparr>vf_files = [(ustr ''a'', ustr ''xy'')], vf_length = 2\<rparr>" "ustr ''b''" "ustr ''pqr''"
      "\<lparr>vf_files = [(ustr ''a'', ustr ''xy''), (ustr ''b'', ustr ''pqr'')], vf_length = 5\<rparr>" 2 "span_new 2 1 3"
      "[(ustr ''c'', ustr ''z'')]"]
  by (simp add: vf_wf_def vf_push_def ustr_def len_utf8_def)

end
