(* ===== verification/Errors.thy ===== *)
theory Errors
  imports Spans
begin

text \<open>
  \<^verbatim>\<open>serpentine/src/snek/mod.rs\<close>: the compile errors, one constructor per variant with the fields
  in the source's order. An \<open>io::Error\<close> or \<open>ParseIntError\<close> carried as the source of an error is left
  out: nothing in the compiler reads it. Texts that embed a value by Rust's \<open>{:?}\<close> formatting are
  kept symbolic (\<open>description\<close>), since that formatting belongs to the standard library and nothing
  depends on its result. \<open>CompileError::internal\<close> is the constructor \<open>InternalError\<close> (a release
  build; a debug build panics there), and later theories show that it is not reached.
\<close>

datatype description =
    Text string
  | DebugIdent ustr
  | DebugString ustr
  | DebugInt int

datatype compile_error =
    FileReading ustr
  | UnknownCharacter span uchar
  | UnterminatedString span
  | IntegerOverflow span
  | UnexpectedToken (expected: description) (got: description) (location: span)
  | TypeMismatch string string span span "span list"
  | ArgumentCountMismatch string nat span
  | RequiredAfterDefault span
  | ItemNotFound ustr span
  | WrongItemKind string string span
  | InvalidStatement string string string span
  | ReturnNotFound span
  | DoubleReturn span
  | ImportError ustr compile_error span
  | CircularImport ustr
  | InternalError string

type_synonym 'a compile_result = "(compile_error, 'a) outcome"

definition internal :: "string \<Rightarrow> compile_error" where
  "internal msg = InternalError msg"

text \<open>Errors that are a fault of the user's program, at any depth of imports.\<close>

fun user_error :: "compile_error \<Rightarrow> bool" where
  "user_error (InternalError msg) = False"
| "user_error (ImportError m e sp) = user_error e"
| "user_error e = True"

text \<open>A run that ends in a value or in an error that blames the user's program.\<close>

definition sound :: "'a compile_result \<Rightarrow> bool" where
  "sound r \<longleftrightarrow> returns r \<and> (\<forall>e. r = Err e \<longrightarrow> user_error e)"

lemma sound_simps [simp]:
  "sound (Ok x)" "sound (Err e) \<longleftrightarrow> user_error e" "\<not> sound Panic" "\<not> sound NoFuel"
  by (auto simp: sound_def)

lemma sound_and_then [intro]:
  "sound r \<Longrightarrow> (\<And>x. r = Ok x \<Longrightarrow> sound (f x)) \<Longrightarrow> sound (and_then r f)"
  by (cases r) auto

lemma sound_and_then_iff [outcome_simps]:
  "sound (and_then r f) \<longleftrightarrow> sound r \<and> (\<forall>x. r = Ok x \<longrightarrow> sound (f x))"
  by (cases r) auto

lemma sound_map_err:
  "sound r \<Longrightarrow> (\<And>e. user_error e \<Longrightarrow> user_error (g e)) \<Longrightarrow> sound (map_err g r)"
  by (cases r) auto

lemma sound_ok_or [simp]: "sound (ok_or v e) \<longleftrightarrow> v \<noteq> None \<or> user_error e"
  by (cases v) (auto simp: ok_or_def)

lemma sound_try_map: "(\<And>x. x \<in> set xs \<Longrightarrow> sound (f x)) \<Longrightarrow> sound (try_map f xs)"
  by (induction xs) (auto simp: outcome_simps)

end
