(* ===== verification/Tokenizer.thy ===== *)
theory Tokenizer
  imports Errors
begin

text \<open>
  \<^verbatim>\<open>serpentine/src/snek/tokenizer.rs\<close>: source text to spanned tokens. The state is the struct
  \<open>Tokenizer\<close> (file id, code, current byte); every method takes and returns it.

  \<open>char::is_whitespace\<close> is written out (the Unicode White_Space property); the larger tables behind
  \<open>char::is_alphabetic\<close> and \<open>char::is_numeric\<close> are the two fields of the parameter \<open>unicode\<close>, of
  which \<open>unicode_ascii\<close> states what the standard library documents for ASCII and for white space.
  Only the round trip of printed tokens needs that hypothesis.
\<close>

section \<open>Characters\<close>

record unicode =
  uc_alphabetic :: "uchar \<Rightarrow> bool"
  uc_numeric :: "uchar \<Rightarrow> bool"

definition is_whitespace :: "uchar \<Rightarrow> bool" where
  "is_whitespace c \<longleftrightarrow> (9 \<le> c \<and> c \<le> 13) \<or> c = 32 \<or> c = 0x85 \<or> c = 0xA0 \<or> c = 0x1680 \<or>
     (0x2000 \<le> c \<and> c \<le> 0x200A) \<or> c = 0x2028 \<or> c = 0x2029 \<or> c = 0x202F \<or> c = 0x205F \<or> c = 0x3000"

definition is_ascii_digit :: "uchar \<Rightarrow> bool" where
  "is_ascii_digit c \<longleftrightarrow> 48 \<le> c \<and> c \<le> 57"

definition is_ascii_letter :: "uchar \<Rightarrow> bool" where
  "is_ascii_letter c \<longleftrightarrow> (65 \<le> c \<and> c \<le> 90) \<or> (97 \<le> c \<and> c \<le> 122)"

definition is_alphanumeric :: "unicode \<Rightarrow> uchar \<Rightarrow> bool" where
  "is_alphanumeric u c \<longleftrightarrow> uc_alphabetic u c \<or> uc_numeric u c"

definition unicode_ascii :: "unicode \<Rightarrow> bool" where
  "unicode_ascii u \<longleftrightarrow> (\<forall>c < 128. (uc_alphabetic u c \<longleftrightarrow> is_ascii_letter c) \<and>
     (uc_numeric u c \<longleftrightarrow> is_ascii_digit c)) \<and>
     (\<forall>c. is_whitespace c \<longrightarrow> \<not> uc_alphabetic u c \<and> \<not> uc_numeric u c)"

definition ascii_tables :: unicode where
  "ascii_tables = \<lparr>uc_alphabetic = is_ascii_letter, uc_numeric = is_ascii_digit\<rparr>"

lemma unicode_ascii_tables: "unicode_ascii ascii_tables"
  by (auto simp: unicode_ascii_def ascii_tables_def is_whitespace_def is_ascii_letter_def
      is_ascii_digit_def)

section \<open>Tokens\<close>

datatype token =
    Ident ustr
  | String ustr
  | Numeric int
  | OpenParen
  | ClosingParen
  | OpenBracket
  | ClosingBracket
  | SemiColon
  | Pipe
  | Comma
  | Eq
  | Wait
  | Path
  | Return
  | Def
  | Import
  | Export
  | As
  | Eof

fun describe_token :: "token \<Rightarrow> description" where
  "describe_token (Ident v) = DebugIdent v"
| "describe_token (String v) = DebugString v"
| "describe_token (Numeric v) = DebugInt v"
| "describe_token OpenParen = Text ''(''"
| "describe_token ClosingParen = Text '')''"
| "describe_token OpenBracket = Text ''{''"
| "describe_token ClosingBracket = Text ''}''"
| "describe_token SemiColon = Text '';''"
| "describe_token Pipe = Text ''>''"
| "describe_token Comma = Text '',''"
| "describe_token Eq = Text ''=''"
| "describe_token Wait = Text ''!''"
| "describe_token Path = Text ''::''"
| "describe_token Return = Text ''return''"
| "describe_token Def = Text ''def''"
| "describe_token Import = Text ''import''"
| "describe_token Export = Text ''export''"
| "describe_token As = Text ''as''"
| "describe_token Eof = Text ''end of file''"

section \<open>The tokenizer\<close>

record tokenizer =
  tk_file :: nat
  tk_code :: ustr
  tk_byte :: nat

definition first_char :: "ustr \<Rightarrow> uchar option" where
  "first_char s = (case s of [] \<Rightarrow> None | c # _ \<Rightarrow> Some c)"

definition peek :: "tokenizer \<Rightarrow> uchar option compile_result" where
  "peek t = (case str_from (tk_code t) (tk_byte t) of
       Some slice \<Rightarrow> Ok (first_char slice)
     | None \<Rightarrow> Err (internal ''tokenizer byte offset didnt land on character boundary''))"

definition advance :: "tokenizer \<Rightarrow> (uchar option \<times> tokenizer) compile_result" where
  "advance t = and_then (peek t) (\<lambda>result.
     case result of
       Some c \<Rightarrow> Ok (result, t\<lparr>tk_byte := tk_byte t + len_utf8 c\<rparr>)
     | None \<Rightarrow> Ok (result, t))"

definition tspan :: "tokenizer \<Rightarrow> nat \<Rightarrow> span" where
  "tspan t len = span_new (tk_file t) (tk_byte t - len) (tk_byte t)"

text \<open>
  What is left to read, and the measure by which every loop below stops. \<open>at t p rest\<close> says that
  the tokenizer stands between \<open>p\<close> and \<open>rest\<close>: the current byte is a character boundary. Off a
  boundary every method fails, so a method that returns had its state there.
\<close>

definition todo :: "tokenizer \<Rightarrow> nat" where
  "todo t = blen (tk_code t) - tk_byte t"

definition at :: "tokenizer \<Rightarrow> ustr \<Rightarrow> ustr \<Rightarrow> bool" where
  "at t p rest \<longleftrightarrow> tk_code t = p @ rest \<and> tk_byte t = blen p"

definition move :: "tokenizer \<Rightarrow> nat \<Rightarrow> tokenizer" where
  "move t n = t\<lparr>tk_byte := tk_byte t + n\<rparr>"

lemma move_sel [simp]: "tk_file (move t n) = tk_file t" "tk_code (move t n) = tk_code t"
    "tk_byte (move t n) = tk_byte t + n"
  by (simp_all add: move_def)

lemma move_0 [simp]: "move t 0 = t"
  by (simp add: move_def)

lemma move_move [simp]: "move (move t m) n = move t (m + n)"
  by (simp add: move_def add.assoc)

lemma todo_at: "at t p rest \<Longrightarrow> todo t = blen rest"
  by (simp add: at_def todo_def)

lemma at_move: "at t p (w @ rest) \<Longrightarrow> at (move t (blen w)) (p @ w) rest"
  by (simp add: at_def)

lemma at_move_Cons: "at t p (c # rest) \<Longrightarrow> at (move t (len_utf8 c)) (p @ [c]) rest"
  by (simp add: at_def)

lemma peek_at: "at t p rest \<Longrightarrow> peek t = Ok (first_char rest)"
  by (simp add: peek_def at_def)

lemma peek_OkE:
  assumes "peek t = Ok c"
  obtains p rest where "at t p rest" "c = first_char rest"
proof -
  from assms obtain rest where r: "str_from (tk_code t) (tk_byte t) = Some rest" "c = first_char rest"
    by (simp add: peek_def split: option.splits)
  from r(1) obtain p where "tk_code t = p @ rest \<and> tk_byte t = blen p"
    unfolding str_from_iff by blast
  with r(2) show thesis using that by (simp add: at_def)
qed

lemma first_char_simps [simp]: "first_char [] = None" "first_char (c # cs) = Some c"
  by (simp_all add: first_char_def)

lemma advance_Nil: "at t p [] \<Longrightarrow> advance t = Ok (None, t)"
  by (simp add: advance_def peek_at)

lemma advance_Cons: "at t p (c # rest) \<Longrightarrow> advance t = Ok (Some c, move t (len_utf8 c))"
  by (simp add: advance_def peek_at move_def)

lemma advance_OkE:
  assumes "advance t = Ok (c, t')"
  obtains p where "at t p []" "c = None" "t' = t"
    | p d rest where "at t p (d # rest)" "c = Some d" "t' = move t (len_utf8 d)"
proof -
  from assms obtain v where "peek t = Ok v"
    unfolding advance_def and_then_Ok_iff by blast
  then obtain p rest where at: "at t p rest" by (rule peek_OkE)
  show thesis
  proof (cases rest)
    case Nil
    with at have "at t p []" by simp
    moreover from advance_Nil [OF this] assms have "c = None" "t' = t" by simp_all
    ultimately show ?thesis by (rule that(1))
  next
    case (Cons d ds)
    with at have "at t p (d # ds)" by simp
    moreover from advance_Cons [OF this] assms have "c = Some d" "t' = move t (len_utf8 d)"
      by simp_all
    ultimately show ?thesis by (rule that(2))
  qed
qed

lemma todo_move: "at t p (d # rest) \<Longrightarrow> todo (move t (len_utf8 d)) < todo t"
  using todo_at [of t p "d # rest"] todo_at [OF at_move_Cons] by fastforce

lemma advance_todo: "advance t = Ok (Some c, t') \<Longrightarrow> todo t' < todo t"
  by (erule advance_OkE) (auto intro: todo_move)

lemma peek_advance_todo: "peek t = Ok (Some c) \<Longrightarrow> advance t = Ok (d, t') \<Longrightarrow> todo t' < todo t"
  by (erule advance_OkE) (auto simp: peek_at intro: todo_move)

function advance_while_from :: "(uchar \<Rightarrow> bool) \<Rightarrow> nat \<Rightarrow> tokenizer \<Rightarrow> (nat \<times> tokenizer) compile_result" where
  "advance_while_from pred consumed t = and_then (peek t) (\<lambda>next_character.
     case next_character of
       Some c \<Rightarrow>
         if pred c then
           and_then (advance t) (\<lambda>(_, t').
             advance_while_from pred (consumed + len_utf8 c) t')
         else Ok (consumed, t)
     | None \<Rightarrow> Ok (consumed, t))"
  by pat_completeness auto
termination
  by (relation "measure (\<lambda>(_, _, t). todo t)") (auto intro: peek_advance_todo)

declare advance_while_from.simps [simp del]

definition advance_while :: "(uchar \<Rightarrow> bool) \<Rightarrow> tokenizer \<Rightarrow> (nat \<times> tokenizer) compile_result" where
  "advance_while pred t = advance_while_from pred 0 t"

datatype parsing_state = Normal | Escape

function string_loop ::
    "nat \<Rightarrow> ustr \<Rightarrow> parsing_state \<Rightarrow> tokenizer \<Rightarrow> (nat \<times> ustr \<times> tokenizer) compile_result" where
  "string_loop consumed content state t = and_then (advance t) (\<lambda>(next, t').
     case next of
       Some next_char \<Rightarrow>
         let consumed = consumed + len_utf8 next_char in
         (case state of
            Normal \<Rightarrow>
              if next_char = 34 then Ok (consumed, content, t')
              else if next_char = 92 then string_loop consumed content Escape t'
              else string_loop consumed (content @ [next_char]) Normal t'
          | Escape \<Rightarrow>
              if next_char = 92 then string_loop consumed (content @ [92]) Normal t'
              else if next_char = 34 then string_loop consumed (content @ [34]) Normal t'
              else string_loop consumed (content @ [92] @ [next_char]) Normal t')
     | None \<Rightarrow> Err (UnterminatedString (tspan t' consumed)))"
  by pat_completeness auto
termination
  by (relation "measure (\<lambda>(_, _, _, t). todo t)") (auto intro: advance_todo)

declare string_loop.simps [simp del]

definition handle_string :: "tokenizer \<Rightarrow> (token spanned \<times> tokenizer) compile_result" where
  "handle_string t = and_then (string_loop 1 [] Normal t) (\<lambda>(consumed, content, t').
     Ok (span_with (tspan t' consumed) (String content), t'))"

text \<open>The loop that consumes a block comment up to \<^verbatim>\<open>*/\<close> or the end of the file.\<close>

function block_comment :: "tokenizer \<Rightarrow> tokenizer compile_result" where
  "block_comment t = and_then (advance t) (\<lambda>(next_char, t').
     case next_char of
       None \<Rightarrow> Ok t'
     | Some c \<Rightarrow>
         if c = 42 then
           and_then (peek t') (\<lambda>p.
             if p = Some 47 then and_then (advance t') (\<lambda>(_, t''). Ok t'')
             else block_comment t')
         else block_comment t')"
  by pat_completeness auto
termination
  by (relation "measure todo") (auto intro: advance_todo)

declare block_comment.simps [simp del]

section \<open>What the loops compute\<close>

lemma advance_while_from_at:
  "at t p rest \<Longrightarrow> advance_while_from pred n t =
     Ok (n + blen (takeWhile pred rest), move t (blen (takeWhile pred rest)))"
proof (induction rest arbitrary: t p n)
  case Nil
  then show ?case by (subst advance_while_from.simps) (simp add: peek_at)
next
  case (Cons c rest)
  show ?case
    by (subst advance_while_from.simps)
      (simp add: peek_at [OF Cons.prems] advance_Cons [OF Cons.prems]
        Cons.IH [OF at_move_Cons [OF Cons.prems]] add.assoc)
qed

lemma advance_while_at:
  "at t p rest \<Longrightarrow> advance_while pred t =
     Ok (blen (takeWhile pred rest), move t (blen (takeWhile pred rest)))"
  by (simp add: advance_while_def advance_while_from_at)

text \<open>The part of the text a block comment takes up, after its opening.\<close>

fun comment_body :: "ustr \<Rightarrow> ustr" where
  "comment_body [] = []"
| "comment_body (c # rest) =
     (if c = 42 \<and> first_char rest = Some 47 then [42, 47] else c # comment_body rest)"

lemma comment_body_prefix: "\<exists>s. rest = comment_body rest @ s"
proof (induction rest rule: comment_body.induct)
  case (2 c rest)
  then show ?case by (cases rest) auto
qed simp

lemma block_comment_at:
  "at t p rest \<Longrightarrow> block_comment t = Ok (move t (blen (comment_body rest)))"
proof (induction rest arbitrary: t p)
  case Nil
  then show ?case by (subst block_comment.simps) (simp add: advance_Nil)
next
  case (Cons c rest)
  note at' = at_move_Cons [OF Cons.prems]
  show ?case
  proof (cases "c = 42 \<and> first_char rest = Some 47")
    case True
    then obtain rest' where "rest = 47 # rest'" by (cases rest) auto
    with True Cons.prems at' show ?thesis
      by (subst block_comment.simps) (simp add: advance_Cons peek_at)
  next
    case False
    then show ?thesis
      using Cons.IH [OF at'] peek_at [OF at'] advance_Cons [OF Cons.prems]
      by (subst block_comment.simps) auto
  qed
qed

text \<open>
  The characters of a string literal after the opening quote, up to and with the closing one, and
  its value; \<open>None\<close> when the text ends first.
\<close>

fun string_body :: "parsing_state \<Rightarrow> ustr \<Rightarrow> (ustr \<times> ustr) option" where
  "string_body state [] = None"
| "string_body Normal (c # rest) =
     (if c = 34 then Some ([c], [])
      else if c = 92 then map_option (\<lambda>(w, v). (c # w, v)) (string_body Escape rest)
      else map_option (\<lambda>(w, v). (c # w, c # v)) (string_body Normal rest))"
| "string_body Escape (c # rest) =
     map_option (\<lambda>(w, v). (c # w, (if c = 92 \<or> c = 34 then [c] else [92, c]) @ v))
       (string_body Normal rest)"

lemma string_body_prefix: "string_body state rest = Some (w, v) \<Longrightarrow> \<exists>s. rest = w @ s"
  by (induction state rest arbitrary: w v rule: string_body.induct) (auto split: if_splits)

lemma string_loop_at:
  "at t p rest \<Longrightarrow> string_loop n content state t =
     (case string_body state rest of
        Some (w, v) \<Rightarrow> Ok (n + blen w, content @ v, move t (blen w))
      | None \<Rightarrow> Err (UnterminatedString (tspan (move t (blen rest)) (n + blen rest))))"
proof (induction state rest arbitrary: t p n content rule: string_body.induct)
  case (1 state)
  then show ?case by (subst string_loop.simps) (simp add: advance_Nil)
next
  case (2 c rest)
  note at' = at_move_Cons [OF "2.prems"]
  consider "c = 34" | "c \<noteq> 34" "c = 92" | "c \<noteq> 34" "c \<noteq> 92" by blast
  then show ?case
  proof cases
    case 1
    with advance_Cons [OF "2.prems"] show ?thesis
      by (subst string_loop.simps) (simp add: Let_def)
  next
    case 2
    with advance_Cons [OF "2.prems"] "2.IH"(1) [OF 2 at'] show ?thesis
      by (subst string_loop.simps) (auto simp: Let_def add.assoc split: option.split)
  next
    case 3
    with advance_Cons [OF "2.prems"] "2.IH"(2) [OF 3 at'] show ?thesis
      by (subst string_loop.simps) (auto simp: Let_def add.assoc split: option.split)
  qed
next
  case (3 c rest)
  note at' = at_move_Cons [OF "3.prems"]
  show ?case
    using advance_Cons [OF "3.prems"] "3.IH" [OF at']
    by (subst string_loop.simps) (auto simp: Let_def add.assoc split: option.split)
qed

text \<open>\<open>moves t t'\<close>: same file and code, further on, and no more left to read.\<close>

definition moves :: "tokenizer \<Rightarrow> tokenizer \<Rightarrow> bool" where
  "moves t t' \<longleftrightarrow> (\<exists>n. t' = move t n)"

lemma moves_move [simp]: "moves t (move t n)"
  by (auto simp: moves_def)

lemma moves_todo: "moves t t' \<Longrightarrow> todo t' \<le> todo t"
  by (auto simp: moves_def todo_def)

lemma advance_moves: "advance t = Ok (c, t') \<Longrightarrow> moves t t'"
  by (auto simp: advance_def and_then_Ok_iff moves_def move_def split: option.split_asm
      intro: exI [of _ 0])

lemma advance_while_moves:
  assumes "advance_while pred t = Ok (m, t')"
  shows "moves t t'"
proof (cases "peek t")
  case (Ok c)
  then obtain p rest where "at t p rest" by (rule peek_OkE)
  with assms show ?thesis by (simp add: advance_while_at) (metis moves_move)
next
  case (Err e)
  with assms show ?thesis by (simp add: advance_while_def advance_while_from.simps)
qed (use assms in \<open>simp_all add: advance_while_def advance_while_from.simps\<close>)

lemma block_comment_moves:
  assumes "block_comment t = Ok t'"
  shows "moves t t'"
proof (cases "peek t")
  case (Ok c)
  then obtain p rest where "at t p rest" by (rule peek_OkE)
  with assms show ?thesis by (simp add: block_comment_at) (metis moves_move)
next
  case (Err e)
  with assms show ?thesis by (simp add: block_comment.simps [of t] advance_def)
qed (use assms in \<open>simp_all add: block_comment.simps [of t] advance_def\<close>)

section \<open>Reading one token\<close>

definition keyword :: "ustr \<Rightarrow> token" where
  "keyword text =
     (if text = ustr ''return'' then Return
      else if text = ustr ''def'' then Def
      else if text = ustr ''import'' then Import
      else if text = ustr ''export'' then Export
      else if text = ustr ''as'' then As
      else Ident text)"

text \<open>\<open>str::parse::<i128>\<close> on a string of ASCII digits: \<open>None\<close> on overflow.\<close>

fun digits_value :: "nat \<Rightarrow> ustr \<Rightarrow> nat" where
  "digits_value n [] = n"
| "digits_value n (c # cs) = digits_value (n * 10 + (c - 48)) cs"

definition parse_i128 :: "ustr \<Rightarrow> int option" where
  "parse_i128 s = (let n = digits_value 0 s in if n < 2 ^ 127 then Some (int n) else None)"

definition index_token :: "span \<Rightarrow> tokenizer \<Rightarrow> ustr compile_result" where
  "index_token sp t = ok_or (index_str sp (tk_code t)) (internal ''Failed to index string'')"

definition single_tokens :: "(uchar \<times> token) list" where
  "single_tokens =
     [(40, OpenParen), (41, ClosingParen), (123, OpenBracket), (125, ClosingBracket),
      (59, SemiColon), (62, Pipe), (44, Comma), (61, Eq), (33, Wait)]"

definition read_number :: "tokenizer \<Rightarrow> uchar \<Rightarrow> (token spanned \<times> tokenizer) compile_result" where
  "read_number t character = and_then (advance_while is_ascii_digit t) (\<lambda>(consumed, t').
     let sp = tspan t' (consumed + len_utf8 character) in
     and_then (index_token sp t') (\<lambda>number.
       and_then (ok_or (parse_i128 number) (IntegerOverflow sp)) (\<lambda>number.
         Ok (span_with sp (Numeric number), t'))))"

definition read_word :: "unicode \<Rightarrow> tokenizer \<Rightarrow> uchar \<Rightarrow> (token spanned \<times> tokenizer) compile_result" where
  "read_word u t character =
     and_then (advance_while (\<lambda>ch. is_alphanumeric u ch \<or> ch = 45 \<or> ch = 95) t) (\<lambda>(consumed, t').
       let sp = tspan t' (consumed + len_utf8 character) in
       and_then (index_token sp t') (\<lambda>text.
         Ok (span_with sp (keyword text), t')))"

text \<open>
  The arms of the match on the first character, in the source's order. The two comment arms
  recurse; \<open>58\<close> is \<^verbatim>\<open>:\<close>, \<open>34\<close> is a double quote, \<open>47\<close> is \<^verbatim>\<open>/\<close>, \<open>42\<close> is \<^verbatim>\<open>*\<close> and \<open>10\<close> is a
  line feed.
\<close>

function read_next_token ::
    "unicode \<Rightarrow> tokenizer \<Rightarrow> (token spanned option \<times> tokenizer) compile_result" where
  "read_next_token u t = and_then (advance_while is_whitespace t) (\<lambda>(_, t).
     and_then (advance t) (\<lambda>(next, t).
       case next of
         None \<Rightarrow> Ok (None, t)
       | Some character \<Rightarrow>
           (case map_of single_tokens character of
              Some token \<Rightarrow> Ok (Some (span_with (tspan t 1) token), t)
            | None \<Rightarrow>
           and_then (peek t) (\<lambda>ahead.
             if character = 58 \<and> ahead = Some 58 then
               and_then (advance t) (\<lambda>(_, t). Ok (Some (span_with (tspan t 2) Path), t))
             else if character = 34 then
               and_then (handle_string t) (\<lambda>(token, t). Ok (Some token, t))
             else if character = 47 \<and> ahead = Some 47 then
               and_then (advance t) (\<lambda>(_, t).
               and_then (advance_while (\<lambda>c. c \<noteq> 10) t) (\<lambda>(_, t). read_next_token u t))
             else if character = 47 \<and> ahead = Some 42 then
               and_then (advance t) (\<lambda>(_, t).
               and_then (block_comment t) (\<lambda>t. read_next_token u t))
             else if is_ascii_digit character then
               and_then (read_number t character) (\<lambda>(token, t). Ok (Some token, t))
             else if uc_alphabetic u character then
               and_then (read_word u t character) (\<lambda>(token, t). Ok (Some token, t))
             else Err (UnknownCharacter (tspan t (len_utf8 character)) character)))))"
  by pat_completeness auto
termination
proof (relation "measure (\<lambda>(_, t). todo t)", goal_cases)
  case 1
  show ?case by simp
next
  case (2 u t a n t1 b c t2 ch ahead d e t3 f m t4)
  have "todo t1 \<le> todo t" "todo t3 \<le> todo t2" "todo t4 \<le> todo t3"
    using 2 by (auto intro!: moves_todo dest!: advance_while_moves advance_moves)
  moreover have "todo t2 < todo t1"
    using 2 by (intro advance_todo) auto
  ultimately show ?case by simp
next
  case (3 u t a n t1 b c t2 ch ahead d e t3 t4)
  have "todo t1 \<le> todo t" "todo t3 \<le> todo t2" "todo t4 \<le> todo t3"
    using 3 by (auto intro!: moves_todo dest!: advance_while_moves advance_moves block_comment_moves)
  moreover have "todo t2 < todo t1"
    using 3 by (intro advance_todo) auto
  ultimately show ?case by simp
qed

declare read_next_token.simps [simp del]

section \<open>What reading one token gives\<close>

text \<open>\<open>spells u tok w\<close>: the text \<open>w\<close> is a spelling of the token \<open>tok\<close>.\<close>

definition is_word :: "unicode \<Rightarrow> ustr \<Rightarrow> bool" where
  "is_word u w \<longleftrightarrow> (case w of [] \<Rightarrow> False
     | c # cs \<Rightarrow> uc_alphabetic u c \<and> list_all (\<lambda>ch. is_alphanumeric u ch \<or> ch = 45 \<or> ch = 95) cs)"

fun spells :: "unicode \<Rightarrow> token \<Rightarrow> ustr \<Rightarrow> bool" where
  "spells u (Ident s) w \<longleftrightarrow> w = s \<and> is_word u s \<and> keyword s = Ident s"
| "spells u (String v) w \<longleftrightarrow>
     (case w of [] \<Rightarrow> False | c # cs \<Rightarrow> c = 34 \<and> string_body Normal cs = Some (cs, v))"
| "spells u (Numeric n) w \<longleftrightarrow> w \<noteq> [] \<and> list_all is_ascii_digit w \<and> parse_i128 w = Some n"
| "spells u Path w \<longleftrightarrow> w = [58, 58]"
| "spells u Eof w \<longleftrightarrow> False"
| "spells u tok w \<longleftrightarrow> (\<exists>c. w = [c] \<and> map_of single_tokens c = Some tok) \<or>
     (w \<in> {ustr ''return'', ustr ''def'', ustr ''import'', ustr ''export'', ustr ''as''} \<and> keyword w = tok)"

fun lexical_error :: "compile_error \<Rightarrow> bool" where
  "lexical_error (UnknownCharacter sp c) = True"
| "lexical_error (UnterminatedString sp) = True"
| "lexical_error (IntegerOverflow sp) = True"
| "lexical_error e = False"

definition token_result :: "unicode \<Rightarrow> tokenizer \<Rightarrow> ustr \<Rightarrow> ustr \<Rightarrow>
    (token spanned option \<times> tokenizer) compile_result \<Rightarrow> bool" where
  "token_result u t p rest r \<longleftrightarrow>
     r = Ok (None, move t (blen rest)) \<or>
     (\<exists>skip w rest' tok. rest = skip @ w @ rest' \<and> w \<noteq> [] \<and> spells u tok w \<and>
        r = Ok (Some (span_with (span_new (tk_file t) (blen (p @ skip)) (blen (p @ skip @ w))) tok),
                move t (blen (skip @ w)))) \<or>
     (\<exists>e. r = Err e \<and> lexical_error e)"

lemma string_body_self: "string_body st rest = Some (w, v) \<Longrightarrow> string_body st w = Some (w, v)"
proof (induction st rest arbitrary: w v rule: string_body.induct)
  case (2 c rest)
  consider "c = 34" | "c \<noteq> 34" "c = 92" | "c \<noteq> 34" "c \<noteq> 92" by blast
  then show ?case
  proof cases
    case 2
    with "2.prems" obtain w' where "string_body Escape rest = Some (w', v)" "w = c # w'" by auto
    with "2.IH"(1) [OF 2 this(1)] 2 show ?thesis by simp
  next
    case 3
    with "2.prems" obtain w' v' where "string_body Normal rest = Some (w', v')" "w = c # w'" "v = c # v'"
      by auto
    with "2.IH"(2) [OF 3 this(1)] 3 show ?thesis by simp
  qed (use "2.prems" in auto)
next
  case (3 c rest)
  from "3.prems" obtain w' v' where r: "string_body Normal rest = Some (w', v')" "w = c # w'"
      "v = (if c = 92 \<or> c = 34 then [c] else [92, c]) @ v'"
    by (auto simp del: append.simps)
  with "3.IH" [OF r(1)] show ?case by simp
qed simp

lemma single_token_spells: "map_of single_tokens c = Some tok \<Longrightarrow> spells u tok [c]"
  by (auto simp: single_tokens_def split: if_splits)

lemma keyword_texts:
  "keyword (ustr ''return'') = Return" "keyword (ustr ''def'') = Def"
  "keyword (ustr ''import'') = Import" "keyword (ustr ''export'') = Export"
  "keyword (ustr ''as'') = As"
  by (simp_all add: keyword_def ustr_def)

lemma keyword_cases:
  "keyword w = Ident w \<or>
   w \<in> {ustr ''return'', ustr ''def'', ustr ''import'', ustr ''export'', ustr ''as''} \<and>
   keyword w \<in> {Return, Def, Import, Export, As}"
  unfolding keyword_def by simp

lemma keyword_spells: "is_word u w \<Longrightarrow> spells u (keyword w) w"
  using keyword_cases [of w] by (elim disjE conjE insertE emptyE) (simp_all add: keyword_texts)

lemma index_token_at:
  "tk_code t = p @ w @ s \<Longrightarrow> index_token (span_new f (blen p) (blen p + blen w)) t = Ok w"
  by (simp add: index_token_def index_str_infix)

lemma tspan_move: "at t p (w @ s) \<Longrightarrow>
    tspan (move t (blen w)) (blen w) = span_new (tk_file t) (blen p) (blen p + blen w)"
  by (simp add: tspan_def at_def span_new_def)

lemma read_number_at:
  assumes "at t p (c # rest)"
  shows "read_number (move t (len_utf8 c)) c =
    (let w = c # takeWhile is_ascii_digit rest;
         sp = span_new (tk_file t) (blen p) (blen p + blen w)
     in and_then (ok_or (parse_i128 w) (IntegerOverflow sp)) (\<lambda>n.
          Ok (span_with sp (Numeric n), move t (blen w))))"
proof -
  let ?w = "c # takeWhile is_ascii_digit rest"
  have code: "tk_code t = p @ ?w @ dropWhile is_ascii_digit rest" "tk_byte t = blen p"
    using assms by (simp_all add: at_def)
  then have "at t p (?w @ dropWhile is_ascii_digit rest)" by (simp add: at_def)
  from tspan_move [OF this]
  show ?thesis
    using advance_while_at [OF at_move_Cons [OF assms], of is_ascii_digit]
      index_token_at [of "move t (blen ?w)", OF code(1) [folded move_sel(2) [of t "blen ?w"]]]
    by (simp add: read_number_def Let_def add.commute)
qed

lemma read_word_at:
  assumes "at t p (c # rest)"
  shows "read_word u (move t (len_utf8 c)) c =
    (let w = c # takeWhile (\<lambda>ch. is_alphanumeric u ch \<or> ch = 45 \<or> ch = 95) rest;
         sp = span_new (tk_file t) (blen p) (blen p + blen w)
     in Ok (span_with sp (keyword w), move t (blen w)))"
proof -
  let ?P = "\<lambda>ch. is_alphanumeric u ch \<or> ch = 45 \<or> ch = 95"
  let ?w = "c # takeWhile ?P rest"
  have code: "tk_code t = p @ ?w @ dropWhile ?P rest" "tk_byte t = blen p"
    using assms by (simp_all add: at_def)
  then have "at t p (?w @ dropWhile ?P rest)" by (simp add: at_def)
  from tspan_move [OF this]
  show ?thesis
    using advance_while_at [OF at_move_Cons [OF assms], of ?P]
      index_token_at [of "move t (blen ?w)", OF code(1) [folded move_sel(2) [of t "blen ?w"]]]
    by (simp add: read_word_def Let_def add.commute)
qed

lemma handle_string_at:
  assumes "at t p (34 # rest)"
  shows "handle_string (move t (len_utf8 34)) =
    (case string_body Normal rest of
       Some (w, v) \<Rightarrow> Ok (span_with (span_new (tk_file t) (blen p) (blen p + blen (34 # w))) (String v),
         move t (blen (34 # w)))
     | None \<Rightarrow> Err (UnterminatedString (tspan (move t (len_utf8 34 + blen rest)) (1 + blen rest))))"
proof -
  have q: "len_utf8 34 = 1" by (simp add: len_utf8_def)
  have "tspan (move t (Suc (blen w))) (Suc (blen w)) = span_new (tk_file t) (blen p) (blen p + Suc (blen w))"
    for w
    using assms by (simp add: tspan_def at_def span_new_def)
  then show ?thesis
    using string_loop_at [OF at_move_Cons [OF assms], of 1 "[]" Normal]
    by (auto simp: handle_string_def q split: option.splits)
qed

lemma token_result_skip:
  assumes "at t p (s @ rest)" and "token_result u (move t (blen s)) (p @ s) rest r"
  shows "token_result u t p (s @ rest) r"
  using assms(2) unfolding token_result_def
proof (elim disjE exE conjE)
  fix skip w rest' tok
  assume r: "rest = skip @ w @ rest'" "w \<noteq> []" "spells u tok w"
    and "r = Ok (Some (span_with (span_new (tk_file (move t (blen s))) (blen ((p @ s) @ skip))
          (blen ((p @ s) @ skip @ w))) tok), move (move t (blen s)) (blen (skip @ w)))"
  then have "s @ rest = (s @ skip) @ w @ rest' \<and> w \<noteq> [] \<and> spells u tok w \<and>
      r = Ok (Some (span_with (span_new (tk_file t) (blen (p @ (s @ skip)))
            (blen (p @ (s @ skip) @ w))) tok), move t (blen ((s @ skip) @ w)))"
    by (simp add: add.assoc)
  then show "r = Ok (None, move t (blen (s @ rest))) \<or>
     (\<exists>skip w rest' tok. s @ rest = skip @ w @ rest' \<and> w \<noteq> [] \<and> spells u tok w \<and>
        r = Ok (Some (span_with (span_new (tk_file t) (blen (p @ skip)) (blen (p @ skip @ w))) tok),
                move t (blen (skip @ w)))) \<or>
     (\<exists>e. r = Err e \<and> lexical_error e)"
    by blast
qed simp_all

lemma token_result_here:
  assumes "rest = w @ rest'" "w \<noteq> []" "spells u tok w"
    and "r = Ok (Some (span_with (span_new (tk_file t) (blen p) (blen p + blen w)) tok),
           move t (blen w))"
  shows "token_result u t p rest r"
  unfolding token_result_def
  by (rule disjI2, rule disjI1, rule exI [of _ "[]"]) (use assms in auto)

lemma token_result_Err: "lexical_error e \<Longrightarrow> token_result u t p rest (Err e)"
  by (simp add: token_result_def)

text \<open>The arms after white space has been skipped, for a text that begins with \<open>c\<close>.\<close>

definition read_from :: "unicode \<Rightarrow> tokenizer \<Rightarrow> uchar \<Rightarrow> ustr \<Rightarrow>
    (token spanned option \<times> tokenizer) compile_result" where
  "read_from u t c rest =
     (case map_of single_tokens c of
        Some token \<Rightarrow> Ok (Some (span_with (tspan (move t (len_utf8 c)) 1) token), move t (len_utf8 c))
      | None \<Rightarrow>
       if c = 58 \<and> first_char rest = Some 58 then
         Ok (Some (span_with (tspan (move t 2) 2) Path), move t 2)
       else if c = 34 then
         and_then (handle_string (move t (len_utf8 c))) (\<lambda>(token, t). Ok (Some token, t))
       else if c = 47 \<and> first_char rest = Some 47 then
         read_next_token u (move t (2 + blen (takeWhile (\<lambda>c. c \<noteq> 10) (tl rest))))
       else if c = 47 \<and> first_char rest = Some 42 then
         read_next_token u (move t (2 + blen (comment_body (tl rest))))
       else if is_ascii_digit c then
         and_then (read_number (move t (len_utf8 c)) c) (\<lambda>(token, t). Ok (Some token, t))
       else if uc_alphabetic u c then
         and_then (read_word u (move t (len_utf8 c)) c) (\<lambda>(token, t). Ok (Some token, t))
       else Err (UnknownCharacter (tspan (move t (len_utf8 c)) (len_utf8 c)) c))"

lemma read_next_token_Nil:
  assumes "at t p rest" "dropWhile is_whitespace rest = []"
  shows "read_next_token u t = Ok (None, move t (blen rest))"
proof -
  have "takeWhile is_whitespace rest = rest" using assms(2) by (metis append_Nil2 takeWhile_dropWhile_id)
  with assms(1) have "at (move t (blen rest)) (p @ rest) []" by (simp add: at_def)
  then show ?thesis
    unfolding read_next_token.simps [of u t] advance_while_at [OF assms(1)]
      \<open>takeWhile is_whitespace rest = rest\<close> and_then.simps prod.case
    by (simp add: advance_Nil)
qed

lemma read_next_token_Cons:
  assumes at: "at t p rest" and d: "dropWhile is_whitespace rest = c # rest'"
  shows "read_next_token u t = read_from u (move t (blen (takeWhile is_whitespace rest))) c rest'"
proof -
  let ?s = "takeWhile is_whitespace rest"
  let ?t = "move t (blen ?s)"
  have "rest = ?s @ c # rest'" using d by (metis takeWhile_dropWhile_id)
  with at have at1: "at ?t (p @ ?s) (c # rest')" by (simp add: at_def)
  note at2 = at_move_Cons [OF at1]
  have two: "len_utf8 58 = 1" "len_utf8 47 = 1" "len_utf8 42 = 1" by (simp_all add: len_utf8_def)
  have ahead: "peek (move ?t (len_utf8 c)) = Ok (first_char rest')" by (rule peek_at [OF at2])
  have adv: "advance (move ?t (len_utf8 c)) = Ok (Some d, move ?t (len_utf8 c + len_utf8 d)) \<and>
      at (move ?t (len_utf8 c + len_utf8 d)) ((p @ ?s) @ [c] @ [d]) r" if "rest' = d # r" for d r
  proof -
    from at2 that have "at (move ?t (len_utf8 c)) ((p @ ?s) @ [c]) (d # r)" by simp
    from advance_Cons [OF this] at_move_Cons [OF this] show ?thesis by (simp add: add.assoc)
  qed
  show ?thesis
    unfolding read_next_token.simps [of u t] read_from_def advance_while_at [OF at] advance_Cons [OF at1]
      and_then.simps prod.case option.case ahead
  proof (cases "map_of single_tokens c", goal_cases)
    case 1
    show ?case
    proof (cases rest')
      case (Cons d r)
      note a = adv [OF Cons]
      show ?thesis
        using 1 Cons a advance_while_at [of "move ?t (len_utf8 c + len_utf8 d)" _ r]
          block_comment_at [of "move ?t (len_utf8 c + len_utf8 d)" _ r]
        by (auto simp: two add.assoc numeral_2_eq_2)
    qed (simp add: 1)
  qed simp
qed

lemma read_from_result:
  assumes at: "at t p (c # rest)"
    and IH: "\<And>s r. c # rest = s @ r \<Longrightarrow> s \<noteq> [] \<Longrightarrow>
      token_result u (move t (blen s)) (p @ s) r (read_next_token u (move t (blen s)))"
  shows "token_result u t p (c # rest) (read_from u t c rest)"
proof -
  have rec: "token_result u t p (c # rest) (read_next_token u (move t (blen s)))"
    if "c # rest = s @ r" "s \<noteq> []" for s r
    using token_result_skip [of t p s r] IH [OF that] at that(1) by simp
  have code: "tk_byte t = blen p" "tk_code t = p @ c # rest" using at by (simp_all add: at_def)
  have len1: "len_utf8 c = 1" if "map_of single_tokens c = Some tok" for tok
    using that by (auto simp: single_tokens_def len_utf8_def split: if_splits)
  consider (single) tok where "map_of single_tokens c = Some tok"
    | (path) r where "c = 58" "rest = 58 # r"
    | (str) "c = 34"
    | (line) r where "c = 47" "rest = 47 # r"
    | (block) r where "c = 47" "rest = 42 # r"
    | (num) "map_of single_tokens c = None" "is_ascii_digit c"
    | (other) "map_of single_tokens c = None" "\<not> is_ascii_digit c" "c \<noteq> 34"
        "\<not> (c = 58 \<and> first_char rest = Some 58)" "\<not> (c = 47 \<and> first_char rest = Some 47)"
        "\<not> (c = 47 \<and> first_char rest = Some 42)"
    by (cases "map_of single_tokens c"; cases rest) auto
  then show ?thesis
  proof cases
    case single
    then show ?thesis
      by (intro token_result_here [where w = "[c]" and rest' = rest and tok = tok])
        (auto simp: read_from_def single_token_spells tspan_def code len1 [OF single])
  next
    case path
    then show ?thesis
      by (intro token_result_here [where w = "[58, 58]" and rest' = r and tok = Path])
        (auto simp: read_from_def tspan_def code single_tokens_def len_utf8_def)
  next
    case str
    then have r: "read_from u t c rest = and_then (handle_string (move t (len_utf8 34))) (\<lambda>(token, t). Ok (Some token, t))"
      by (simp add: read_from_def single_tokens_def)
    show ?thesis
    proof (cases "string_body Normal rest")
      case None
      then show ?thesis
        unfolding r handle_string_at [OF at [unfolded str]] by (simp add: token_result_Err)
    next
      case (Some wv)
      then obtain w v where wv: "string_body Normal rest = Some (w, v)" by (cases wv) auto
      obtain s where "rest = w @ s" using string_body_prefix [OF wv] by blast
      then show ?thesis
        unfolding r handle_string_at [OF at [unfolded str]]
        using str wv string_body_self [OF wv]
        by (intro token_result_here [where w = "34 # w" and rest' = s and tok = "String v"]) auto
    qed
  next
    case line
    then have "read_from u t c rest = read_next_token u (move t (blen (47 # 47 # takeWhile (\<lambda>c. c \<noteq> 10) r)))"
      by (simp add: read_from_def single_tokens_def len_utf8_def)
    then show ?thesis
      using rec [of "47 # 47 # takeWhile (\<lambda>c. c \<noteq> 10) r" "dropWhile (\<lambda>c. c \<noteq> 10) r"] line
      by (simp only:) simp
  next
    case block
    then have "read_from u t c rest = read_next_token u (move t (blen (47 # 42 # comment_body r)))"
      by (simp add: read_from_def single_tokens_def len_utf8_def)
    moreover obtain s where "r = comment_body r @ s" using comment_body_prefix by blast
    ultimately show ?thesis
      using rec [of "47 # 42 # comment_body r" s] block
      by (simp only:) simp
  next
    case num
    then have r: "read_from u t c rest =
        and_then (read_number (move t (len_utf8 c)) c) (\<lambda>(token, t). Ok (Some token, t))"
      by (auto simp: read_from_def is_ascii_digit_def)
    show ?thesis
    proof (cases "parse_i128 (c # takeWhile is_ascii_digit rest)")
      case None
      then show ?thesis
        using read_number_at [OF at] by (simp add: r Let_def ok_or_def token_result_Err)
    next
      case (Some n)
      then show ?thesis
        using read_number_at [OF at] num
        by (intro token_result_here [where w = "c # takeWhile is_ascii_digit rest"
              and rest' = "dropWhile is_ascii_digit rest" and tok = "Numeric n"])
          (auto simp: r Let_def list_all_iff dest: set_takeWhileD)
    qed
  next
    case other
    show ?thesis
    proof (cases "uc_alphabetic u c")
      case True
      let ?P = "\<lambda>ch. is_alphanumeric u ch \<or> ch = 45 \<or> ch = 95"
      have "is_word u (c # takeWhile ?P rest)"
        using True by (auto simp: is_word_def list_all_iff dest: set_takeWhileD)
      then show ?thesis
        using read_word_at [OF at, of u] other True
        by (intro token_result_here [where w = "c # takeWhile ?P rest"
              and rest' = "dropWhile ?P rest" and tok = "keyword (c # takeWhile ?P rest)"])
          (auto simp: read_from_def Let_def keyword_spells)
    next
      case False
      with other show ?thesis by (auto simp: read_from_def intro: token_result_Err)
    qed
  qed
qed

text \<open>From a character boundary, reading a token gives the end, a token spelt at its span, or a
  lexical error; never an internal error.\<close>

lemma read_next_token_at:
  "at t p rest \<Longrightarrow> token_result u t p rest (read_next_token u t)"
proof (induction "length rest" arbitrary: t p rest rule: less_induct)
  case less
  show ?case
  proof (cases "dropWhile is_whitespace rest")
    case Nil
    with less.prems show ?thesis by (simp add: read_next_token_Nil token_result_def)
  next
    case (Cons c rest')
    let ?s = "takeWhile is_whitespace rest"
    let ?t = "move t (blen ?s)"
    have rest: "rest = ?s @ c # rest'" using Cons by (metis takeWhile_dropWhile_id)
    have at1: "at ?t (p @ ?s) (c # rest')" using less.prems rest by (simp add: at_def)
    have IH: "token_result u (move ?t (blen s)) ((p @ ?s) @ s) r (read_next_token u (move ?t (blen s)))"
      if "c # rest' = s @ r" "s \<noteq> []" for s r
    proof (rule less.hyps)
      have "length rest = length ?s + (length s + length r)"
        using rest that(1) by (metis length_append)
      then show "length r < length rest" using that(2) by (simp add: length_greater_0_conv [symmetric] del: length_greater_0_conv)
      show "at (move ?t (blen s)) ((p @ ?s) @ s) r" using at1 that(1) by (simp add: at_def)
    qed
    have "token_result u ?t (p @ ?s) (c # rest') (read_from u ?t c rest')"
      by (rule read_from_result [OF at1 IH])
    then show ?thesis
      using token_result_skip [of t p ?s "c # rest'"] less.prems rest
      by (metis read_next_token_Cons [OF less.prems Cons])
  qed
qed

section \<open>Tokenizing a file\<close>

lemma read_next_token_todo:
  assumes "read_next_token u t = Ok (Some token, t')"
  shows "todo t' < todo t"
proof (cases "peek t")
  case (Ok c)
  then obtain p rest where at: "at t p rest" by (rule peek_OkE)
  from read_next_token_at [OF at, of u] assms obtain skip w rest' where
      "rest = skip @ w @ rest'" "w \<noteq> []" "t' = move t (blen (skip @ w))"
    by (auto simp: token_result_def)
  moreover then have "at t' (p @ skip @ w) rest'" using at by (simp add: at_def)
  moreover have "0 < blen w" using \<open>w \<noteq> []\<close> by (cases w) auto
  ultimately show ?thesis using todo_at [OF at] todo_at [of t' "p @ skip @ w" rest'] by simp
next
  case (Err e)
  with assms show ?thesis
    by (simp add: read_next_token.simps [of u t] advance_while_def advance_while_from.simps)
qed (use assms in \<open>simp_all add: read_next_token.simps [of u t] advance_while_def
      advance_while_from.simps\<close>)

function token_loop ::
    "unicode \<Rightarrow> tokenizer \<Rightarrow> (token spanned list \<times> tokenizer) compile_result" where
  "token_loop u t = and_then (read_next_token u t) (\<lambda>(next, t').
     case next of
       Some token \<Rightarrow>
         and_then (token_loop u t') (\<lambda>(tokens, t''). Ok (token # tokens, t''))
     | None \<Rightarrow> Ok ([], t'))"
  by pat_completeness auto
termination
  by (relation "measure (\<lambda>(_, t). todo t)") (auto intro: read_next_token_todo)

declare token_loop.simps [simp del]

definition tokenize :: "unicode \<Rightarrow> nat \<Rightarrow> ustr \<Rightarrow> token spanned list compile_result" where
  "tokenize u fid code =
     and_then (token_loop u \<lparr>tk_file = fid, tk_code = code, tk_byte = 0\<rparr>) (\<lambda>(tokens, t).
       Ok (tokens @ [span_with (tspan t 1) Eof]))"

end
