(* ===== verification/Token_Layout.thy ===== *)
theory Token_Layout
  imports Tokenizer
begin

text \<open>
  How the tokens of a file lie in it, and the case analysis of a run of the tokenizer that the
  properties of the front end share.
\<close>

section \<open>Spans\<close>

text \<open>
  \<open>laid_out u f code n ts\<close>: the tokens lie in file \<open>f\<close> one after another from byte \<open>n\<close> on, without
  overlap, and each spells the text under its span.
\<close>

fun laid_out :: "unicode \<Rightarrow> nat \<Rightarrow> ustr \<Rightarrow> nat \<Rightarrow> token spanned list \<Rightarrow> bool" where
  "laid_out u f code n [] \<longleftrightarrow> n \<le> blen code"
| "laid_out u f code n (t # ts) \<longleftrightarrow>
     file_id (sspan t) = f \<and> n \<le> sp_start (sspan t) \<and> sp_start (sspan t) < sp_end (sspan t) \<and>
     (case index_str (sspan t) code of None \<Rightarrow> False | Some w \<Rightarrow> spells u (sval t) w) \<and>
     laid_out u f code (sp_end (sspan t)) ts"

definition tokens_ok :: "unicode \<Rightarrow> tokenizer \<Rightarrow> nat \<Rightarrow>
    (token spanned list \<times> tokenizer) compile_result \<Rightarrow> bool" where
  "tokens_ok u t n r \<longleftrightarrow> (case r of
       Ok (ts, t') \<Rightarrow> laid_out u (tk_file t) (tk_code t) n ts \<and>
         t' = t\<lparr>tk_byte := blen (tk_code t)\<rparr> \<and> Eof \<notin> sval ` set ts
     | Err e \<Rightarrow> lexical_error e | _ \<Rightarrow> False)"

lemma laid_out_weaken: "laid_out u f code n ts \<Longrightarrow> m \<le> n \<Longrightarrow> laid_out u f code m ts"
  by (cases ts) auto

lemma token_loop_ok: "at t p rest \<Longrightarrow> tokens_ok u t (blen p) (token_loop u t)"
proof (induction "length rest" arbitrary: t p rest rule: less_induct)
  case less
  from read_next_token_at [OF less.prems, of u] consider
      (stop) "read_next_token u t = Ok (None, move t (blen rest))"
    | (more) skip w rest' tok where "rest = skip @ w @ rest'" "w \<noteq> []" "spells u tok w"
        "read_next_token u t =
           Ok (Some (span_with (span_new (tk_file t) (blen (p @ skip)) (blen (p @ skip @ w))) tok),
               move t (blen (skip @ w)))"
    | (error) e where "read_next_token u t = Err e" "lexical_error e"
    unfolding token_result_def by blast
  then show ?case
  proof cases
    case stop
    then show ?thesis using less.prems
      by (subst token_loop.simps) (auto simp: tokens_ok_def at_def move_def)
  next
    case more
    let ?t = "move t (blen (skip @ w))"
    have at': "at ?t ((p @ skip) @ w) rest'" using less.prems more(1) by (simp add: at_def)
    have "length rest' < length rest" using more(1,2) by simp
    from less.hyps [OF this at'] have IH: "tokens_ok u ?t (blen ((p @ skip) @ w)) (token_loop u ?t)" .
    have "tk_code t = (p @ skip) @ w @ rest'" using less.prems more(1) by (simp add: at_def)
    from index_str_infix [OF this]
    have "index_str (span_new (tk_file t) (blen (p @ skip)) (blen (p @ skip @ w))) (tk_code t) = Some w"
      by (simp add: add.assoc)
    moreover have "0 < blen w" using more(2) by (cases w) auto
    moreover have "tok \<noteq> Eof" using more(3) by auto
    ultimately show ?thesis using IH more(3)
      by (subst token_loop.simps, cases "token_loop u ?t")
        (auto simp: more(4) tokens_ok_def add.assoc move_def)
  next
    case error
    then show ?thesis by (subst token_loop.simps) (simp add: tokens_ok_def)
  qed
qed

lemma tokenize_cases:
  obtains (ok) ts n where "tokenize u fid code = Ok (ts @ [span_with (span_new fid n (blen code)) Eof])"
      "laid_out u fid code 0 ts" "Eof \<notin> sval ` set ts" "n = blen code - 1"
    | (error) e where "tokenize u fid code = Err e" "lexical_error e"
proof -
  let ?t = "\<lparr>tk_file = fid, tk_code = code, tk_byte = 0\<rparr>"
  have "at ?t [] code" by (simp add: at_def)
  from token_loop_ok [OF this, of u] have r: "tokens_ok u ?t 0 (token_loop u ?t)" by simp
  show thesis
  proof (cases "token_loop u ?t")
    case (Ok x)
    with r ok show ?thesis
      by (cases x) (auto simp: tokens_ok_def tokenize_def tspan_def)
  next
    case (Err e)
    with r error show ?thesis by (simp add: tokens_ok_def tokenize_def)
  qed (use r in \<open>simp_all add: tokens_ok_def\<close>)
qed

lemma lexical_user_error: "lexical_error e \<Longrightarrow> user_error e"
  by (cases e) auto

lemma tokenize_sound: "sound (tokenize u fid code)"
  by (rule tokenize_cases [of u fid code]) (auto dest: lexical_user_error)

end
