(* ===== verification/Tokenizer_Props.thy ===== *)
theory Tokenizer_Props
  imports Token_Layout
begin

text \<open>
  What the tokenizer promises: it ends in tokens or in a lexical error, each token's span is exactly
  the text that spells it, and printed tokens read back as themselves.
\<close>

text \<open>The tokenizer is total and never reports an internal error: on every text, whatever the
  Unicode tables say, it returns tokens or one of its three errors.\<close>

theorem tokenize_total:
  "case tokenize u fid code of Ok ts \<Rightarrow> True | Err e \<Rightarrow> lexical_error e | Panic \<Rightarrow> False | NoFuel \<Rightarrow> False"
  by (rule tokenize_cases [of u fid code]) auto

text \<open>C35: The tokens end with the single end-of-file token, and the others lie in the file in
  order, without overlap, each spelt by exactly the text under its span.\<close>

theorem tokenize_spans:
  assumes "tokenize u fid code = Ok tokens"
  shows "\<exists>ts eof. tokens = ts @ [eof] \<and> sval eof = Eof \<and> sp_end (sspan eof) = blen code \<and>
    Eof \<notin> sval ` set ts \<and> laid_out u fid code 0 ts"
  using assms by (cases rule: tokenize_cases [of u fid code]) auto

section \<open>Printing and reading back\<close>

fun escape :: "ustr \<Rightarrow> ustr" where
  "escape [] = []"
| "escape (c # cs) = (if c = 92 \<or> c = 34 then [92, c] else [c]) @ escape cs"

fun token_text :: "token \<Rightarrow> ustr" where
  "token_text (Ident s) = s"
| "token_text (String v) = [34] @ escape v @ [34]"
| "token_text (Numeric n) = ustr (dec (nat n))"
| "token_text Return = ustr ''return''"
| "token_text Def = ustr ''def''"
| "token_text Import = ustr ''import''"
| "token_text Export = ustr ''export''"
| "token_text As = ustr ''as''"
| "token_text Path = ustr ''::''"
| "token_text OpenParen = ustr ''(''"
| "token_text ClosingParen = ustr '')''"
| "token_text OpenBracket = ustr ''{''"
| "token_text ClosingBracket = ustr ''}''"
| "token_text SemiColon = ustr '';''"
| "token_text Pipe = ustr ''>''"
| "token_text Comma = ustr '',''"
| "token_text Eq = ustr ''=''"
| "token_text Wait = ustr ''!''"
| "token_text Eof = []"

text \<open>Tokens that source text can hold: identifiers that are no keywords, numbers in range.\<close>

fun printable :: "unicode \<Rightarrow> token \<Rightarrow> bool" where
  "printable u (Ident s) \<longleftrightarrow> is_word u s \<and> keyword s = Ident s"
| "printable u (Numeric n) \<longleftrightarrow> 0 \<le> n \<and> n < 2 ^ 127"
| "printable u Eof \<longleftrightarrow> False"
| "printable u tok \<longleftrightarrow> True"

definition print_tokens :: "token list \<Rightarrow> ustr" where
  "print_tokens ts = concat (map (\<lambda>t. token_text t @ [32]) ts)"

lemma string_body_escape: "string_body Normal (escape v @ 34 # rest) = Some (escape v @ [34], v)"
  by (induction v) auto

lemma string_body_mono: "string_body st w = Some (w, v) \<Longrightarrow> string_body st (w @ rest) = Some (w, v)"
proof -
  have "string_body st s = Some (w, v) \<Longrightarrow> string_body st (s @ rest) = Some (w, v)" for s
    by (induction st s arbitrary: w v rule: string_body.induct) (fastforce split: if_splits)+
  then show "string_body st w = Some (w, v) \<Longrightarrow> string_body st (w @ rest) = Some (w, v)" .
qed

lemma digits_value_append: "digits_value n (s @ t) = digits_value (digits_value n s) t"
  by (induction s arbitrary: n) auto

lemma ustr_simps [simp]: "ustr [] = []" "ustr (c # cs) = of_char c # ustr cs"
    "ustr (s @ t) = ustr s @ ustr t"
  by (simp_all add: ustr_def)

lemma digits_value_dec: "digits_value 0 (ustr (dec n)) = n"
proof (induction n rule: dec.induct)
  case (1 n)
  show ?case
  proof (cases "n < 10")
    case True
    then show ?thesis by (subst dec.simps) simp
  next
    case False
    with 1 show ?thesis by (subst dec.simps) (simp add: digits_value_append)
  qed
qed

lemma digits_dec: "list_all is_ascii_digit (ustr (dec n)) \<and> dec n \<noteq> []"
proof (induction n rule: dec.induct)
  case (1 n)
  show ?case
  proof (cases "n < 10")
    case True
    then show ?thesis by (subst dec.simps, subst (2) dec.simps) (simp add: is_ascii_digit_def)
  next
    case False
    have "n mod 10 < 10" by simp
    then have "is_ascii_digit (48 + n mod 10)" by (simp add: is_ascii_digit_def)
    with False 1 show ?thesis by (subst dec.simps, subst (2) dec.simps) simp
  qed
qed

lemma token_text_spells: "printable u tok \<Longrightarrow> spells u tok (token_text tok)"
proof (cases tok)
  case (String v)
  then show ?thesis using string_body_escape [of v "[]"] by simp
next
  case (Numeric n)
  assume "printable u tok"
  with Numeric digits_dec [of "nat n"] digits_value_dec [of "nat n"] show ?thesis
    by (cases "dec (nat n)") (auto simp: parse_i128_def digits_value_dec nat_less_iff Let_def
        simp del: dec.simps)
qed (auto simp: keyword_def single_tokens_def)

text \<open>A spelling followed by a space is read as its token.\<close>

lemma single_tokens_chars:
  "map_of single_tokens c = Some tok \<Longrightarrow> c \<in> {40, 41, 123, 125, 59, 62, 44, 61, 33}"
  by (auto simp: single_tokens_def split: if_splits)

lemma spelling_first:
  assumes "spells u tok (c # cs)" and "unicode_ascii u"
  shows "\<not> is_whitespace c"
proof -
  have ascii: "uc_alphabetic u ch \<longleftrightarrow> is_ascii_letter ch" if "ch < 128" for ch
    using assms(2) that by (simp add: unicode_ascii_def)
  have ws: "is_whitespace c \<Longrightarrow> \<not> uc_alphabetic u c"
    using assms(2) by (simp add: unicode_ascii_def)
  consider "uc_alphabetic u c" | "c = 34 \<or> c = 58 \<or> is_ascii_digit c"
    | tok' where "map_of single_tokens c = Some tok'"
    using assms(1) by (cases tok) (auto simp: is_word_def ascii is_ascii_letter_def)
  then show ?thesis
  proof cases
    case 1
    with ws show ?thesis by blast
  next
    case 2
    then show ?thesis by (auto simp: is_whitespace_def is_ascii_digit_def)
  next
    case 3
    from single_tokens_chars [OF this] show ?thesis by (auto simp: is_whitespace_def)
  qed
qed

lemma word_reads:
  assumes "at t p (w @ 32 # rest)" "is_word u w" "unicode_ascii u" "w = c # cs"
  shows "read_from u t c (cs @ 32 # rest) =
    Ok (Some (span_with (span_new (tk_file t) (blen p) (blen p + blen w)) (keyword w)), move t (blen w))"
proof -
  let ?P = "\<lambda>ch. is_alphanumeric u ch \<or> ch = 45 \<or> ch = 95"
  have alpha: "uc_alphabetic u c" "list_all ?P cs" using assms(2,4) by (auto simp: is_word_def)
  have "\<not> ?P 32"
    using assms(3) by (auto simp: unicode_ascii_def is_alphanumeric_def is_whitespace_def)
  then have tw: "takeWhile ?P (cs @ 32 # rest) = cs"
    using alpha(2) by (simp add: list_all_iff)
  have "map_of single_tokens c = None" "c \<noteq> 58" "c \<noteq> 34" "c \<noteq> 47" "\<not> is_ascii_digit c"
    using alpha(1) assms(3)
    by (auto simp: unicode_ascii_def is_ascii_letter_def is_ascii_digit_def single_tokens_def)
  then show ?thesis
    using alpha(1) assms(4) read_word_at [of t p c "cs @ 32 # rest" u] assms(1) tw
    by (simp add: read_from_def Let_def)
qed

lemma spelling_reads:
  assumes at: "at t p (w @ 32 # rest)" and "spells u tok w" "unicode_ascii u" and w: "w = c # cs"
  shows "read_from u t c (cs @ 32 # rest) =
    Ok (Some (span_with (span_new (tk_file t) (blen p) (blen p + blen w)) tok), move t (blen w))"
proof -
  have ascii: "uc_alphabetic u ch \<longleftrightarrow> is_ascii_letter ch" if "ch < 128" for ch
    using assms(3) that by (auto simp: unicode_ascii_def)
  have kw: "is_word u (ustr ''return'')" "is_word u (ustr ''def'')" "is_word u (ustr ''import'')"
      "is_word u (ustr ''export'')" "is_word u (ustr ''as'')"
    by (auto simp: is_word_def is_alphanumeric_def ascii is_ascii_letter_def)
  have one: "map_of single_tokens c = Some tok' \<Longrightarrow> len_utf8 c = 1" for tok'
    by (auto simp: single_tokens_def len_utf8_def split: if_splits)
  have code: "tk_byte t = blen p" using at by (simp add: at_def)
  consider (word) "is_word u w" "keyword w = tok"
    | (single) "cs = []" "map_of single_tokens c = Some tok"
    | (str) v where "tok = String v" "c = 34" "string_body Normal cs = Some (cs, v)"
    | (num) n where "tok = Numeric n" "list_all is_ascii_digit w" "parse_i128 w = Some n"
    | (path) "tok = Path" "w = [58, 58]"
    using assms(2) kw w by (cases tok) auto
  then show ?thesis
  proof cases
    case word
    with word_reads [OF at word(1) assms(3) w] show ?thesis by simp
  next
    case single
    with one [OF single(2)] show ?thesis by (simp add: read_from_def tspan_def code w)
  next
    case str
    have "string_body Normal (cs @ 32 # rest) = Some (cs, v)"
      using string_body_mono [OF str(3)] by simp
    then show ?thesis
      using str at handle_string_at [of t p "cs @ 32 # rest"] w
      by (simp add: read_from_def single_tokens_def)
  next
    case num
    then have "list_all is_ascii_digit cs" "is_ascii_digit c" using w by simp_all
    then have "takeWhile is_ascii_digit (cs @ 32 # rest) = cs" "map_of single_tokens c = None"
        "c \<noteq> 58" "c \<noteq> 34" "c \<noteq> 47"
      by (auto simp: list_all_iff is_ascii_digit_def single_tokens_def)
    with num \<open>is_ascii_digit c\<close> show ?thesis
      using read_number_at [of t p c "cs @ 32 # rest"] at w
      by (simp add: read_from_def Let_def)
  next
    case path
    with w show ?thesis
      by (auto simp: read_from_def tspan_def code single_tokens_def len_utf8_def)
  qed
qed

lemma token_loop_print:
  assumes "unicode_ascii u" "list_all (printable u) ts"
  shows "at t p (s @ print_tokens ts) \<Longrightarrow> list_all is_whitespace s \<Longrightarrow>
    \<exists>tokens t'. token_loop u t = Ok (tokens, t') \<and> map sval tokens = ts"
  using assms(2)
proof (induction ts arbitrary: t p s)
  case Nil
  then have "dropWhile is_whitespace s = []" by (auto simp: list_all_iff)
  then show ?case
    using read_next_token_Nil [of t p s u] Nil.prems(1)
    by (subst token_loop.simps) (simp add: print_tokens_def)
next
  case (Cons tok ts)
  let ?w = "token_text tok"
  have sp: "spells u tok ?w" using Cons.prems(3) by (simp add: token_text_spells)
  then obtain c cs where w: "?w = c # cs" by (cases ?w) (auto elim: spells.elims simp: is_word_def)
  note ws = spelling_first [OF sp [unfolded w] assms(1)]
  let ?rest = "print_tokens ts"
  have at: "at t p (s @ ?w @ 32 # ?rest)" using Cons.prems(1) by (simp add: print_tokens_def)
  have d: "dropWhile is_whitespace (s @ ?w @ 32 # ?rest) = c # cs @ 32 # ?rest"
      "takeWhile is_whitespace (s @ ?w @ 32 # ?rest) = s"
    using Cons.prems(2) ws w by (auto simp: list_all_iff dropWhile_append2 takeWhile_append2)
  have at': "at (move t (blen s)) (p @ s) (?w @ 32 # ?rest)" using at by (simp add: at_def)
  note read = read_next_token_Cons [OF at d(1), of u, unfolded d(2)
      spelling_reads [OF at' sp assms(1) w]]
  have "at (move (move t (blen s)) (blen ?w)) (p @ s @ ?w) ([32] @ ?rest)"
    using at by (simp add: at_def)
  from Cons.IH [OF this] Cons.prems(3) obtain tokens t' where
      "token_loop u (move (move t (blen s)) (blen ?w)) = Ok (tokens, t')" "map sval tokens = ts"
    by (auto simp: is_whitespace_def)
  then show ?case by (subst token_loop.simps) (simp add: read)
qed

lemma tokenize_printed:
  assumes "unicode_ascii u" and "list_all (printable u) ts"
  shows "\<exists>tokens. tokenize u fid (print_tokens ts) = Ok tokens \<and> map sval tokens = ts @ [Eof]"
proof -
  let ?t = "\<lparr>tk_file = fid, tk_code = print_tokens ts, tk_byte = 0\<rparr>"
  have "at ?t [] ([] @ print_tokens ts)" by (simp add: at_def)
  from token_loop_print [OF assms this] show ?thesis
    by (auto simp: tokenize_def)
qed

text \<open>C34: Printed tokens, separated by spaces, tokenize back to themselves and the end of file.\<close>

theorem tokenize_print:
  assumes "unicode_ascii u" and "list_all (printable u) ts"
  shows "\<exists>tokens. tokenize u fid (print_tokens ts) = Ok tokens \<and> map sval tokens = ts @ [Eof]"
  using assms by (rule tokenize_printed)

theorem tokenize_print_witness:
  "\<exists>tokens. tokenize ascii_tables 0 (print_tokens [Export, Ident (ustr ''a-1''), Eq,
       String (ustr [CHR 0x5C, CHR 0x22]), Pipe, Wait, Numeric 42, SemiColon]) = Ok tokens \<and>
     map sval tokens = [Export, Ident (ustr ''a-1''), Eq, String (ustr [CHR 0x5C, CHR 0x22]), Pipe, Wait,
       Numeric 42, SemiColon, Eof]"
  using tokenize_print [OF unicode_ascii_tables, of "[Export, Ident (ustr ''a-1''), Eq,
       String (ustr [CHR 0x5C, CHR 0x22]), Pipe, Wait, Numeric 42, SemiColon]" 0]
  by (simp add: is_word_def ascii_tables_def is_ascii_letter_def is_alphanumeric_def
      is_ascii_digit_def keyword_def)

theorem tokenize_spans_witness:
  "\<exists>tokens ts eof. tokenize ascii_tables 7 (print_tokens [Return, Ident (ustr ''x'')]) = Ok tokens \<and>
     tokens = ts @ [eof] \<and> sval eof = Eof \<and> Eof \<notin> sval ` set ts \<and>
     laid_out ascii_tables 7 (print_tokens [Return, Ident (ustr ''x'')]) 0 ts"
proof -
  have "list_all (printable ascii_tables) [Return, Ident (ustr ''x'')]"
    by (simp add: is_word_def ascii_tables_def is_ascii_letter_def keyword_def)
  from tokenize_printed [OF unicode_ascii_tables this, of 7] tokenize_spans [of ascii_tables 7]
  show ?thesis by metis
qed

end
