(* ===== verification/Ast.thy ===== *)
theory Ast
  imports Tokenizer
begin

text \<open>
  \<^verbatim>\<open>serpentine/src/snek/ast.rs\<close>: the syntax tree of a \<^verbatim>\<open>.snek\<close> file, with its variants and fields
  in the source's order. A file is its list of statements.
\<close>

type_synonym ident = "ustr spanned"

datatype item_path = ItemPath (ip_base: ident) (ip_rest: "ident list")

datatype expression =
    ENumber "int spanned"
  | EString "ustr spanned"
  | ELabel "item_path spanned"
  | ENode "ast_node spanned"
  | EChain "chain spanned"
and chain = Chain (chain_start: expression) (chain_nodes: "ast_node spanned list")
and ast_node = AstNode (node_name: "item_path spanned") (node_arguments: "expression list")
    (node_phantom_inputs: "item_path spanned list")

datatype statement =
    SReturn span expression
  | SImport "span option" "ustr spanned" ident
  | SLabel "span option" expression ident
  | SFunction "span option" ident "ident list" "(ident \<times> expression) list" "statement list"

definition path_span :: "item_path \<Rightarrow> span" where
  "path_span p = (if ip_rest p = [] then sspan (ip_base p)
     else span_join (sspan (ip_base p)) (sspan (last (ip_rest p))))"

fun expr_span :: "expression \<Rightarrow> span" where
  "expr_span (ENumber n) = sspan n"
| "expr_span (EString s) = sspan s"
| "expr_span (ELabel l) = sspan l"
| "expr_span (ENode n) = sspan n"
| "expr_span (EChain c) = sspan c"

end
