(* ===== verification/Parser.thy ===== *)
theory Parser
  imports Ast
begin

text \<open>
  \<^verbatim>\<open>serpentine/src/snek/parser.rs\<close>: tokens to syntax tree. The parser's state is its peekable token
  iterator, here the list of tokens not yet consumed; every method takes it and returns what is left.

  \<open>parse_list\<close> gets its loop bound from the tokens left, the expression and statement parsers take
  their recursion depth as fuel, and \<open>parse_file\<close> supplies amounts that \<open>parse_file_sound\<close> (theory
  \<open>Parser_Props\<close>) shows to be enough: every recursive call is preceded by a consumed token within
  four calls.
\<close>

type_synonym tokens = "token spanned list"
type_synonym 'a parsed = "('a \<times> tokens) compile_result"

definition hit_end :: compile_error where
  "hit_end = internal ''Hit end of token list before hitting EOF token.''"

definition next_token :: "tokens \<Rightarrow> token spanned parsed" where
  "next_token ts = (case ts of t # ts' \<Rightarrow> Ok (t, ts') | [] \<Rightarrow> Err hit_end)"

definition peek_token :: "tokens \<Rightarrow> token compile_result" where
  "peek_token ts = (case ts of t # _ \<Rightarrow> Ok (sval t) | [] \<Rightarrow> Err hit_end)"

definition unexpected :: "description \<Rightarrow> token spanned \<Rightarrow> compile_error" where
  "unexpected exp t = UnexpectedToken exp (describe_token (sval t)) (sspan t)"

definition expect :: "token \<Rightarrow> tokens \<Rightarrow> span parsed" where
  "expect expected_token ts = and_then (next_token ts) (\<lambda>(t, ts).
     if sval t = expected_token then Ok (sspan t, ts)
     else Err (unexpected (describe_token expected_token) t))"

definition expect_ident :: "tokens \<Rightarrow> ident parsed" where
  "expect_ident ts = and_then (next_token ts) (\<lambda>(t, ts).
     case sval t of
       Ident i \<Rightarrow> Ok (span_with (sspan t) i, ts)
     | _ \<Rightarrow> Err (unexpected (Text ''identifier'') t))"

definition expect_str :: "tokens \<Rightarrow> ustr spanned parsed" where
  "expect_str ts = and_then (next_token ts) (\<lambda>(t, ts).
     case sval t of
       String s \<Rightarrow> Ok (span_with (sspan t) s, ts)
     | _ \<Rightarrow> Err (unexpected (Text ''string'') t))"

definition next_if :: "token \<Rightarrow> tokens \<Rightarrow> span option parsed" where
  "next_if expected_token ts = and_then (peek_token ts) (\<lambda>p.
     if p = expected_token then and_then (next_token ts) (\<lambda>(t, ts). Ok (Some (sspan t), ts))
     else Ok (None, ts))"

section \<open>Lists and paths\<close>

fun parse_list_from :: "nat \<Rightarrow> token \<Rightarrow> token option \<Rightarrow> (tokens \<Rightarrow> 'a parsed) \<Rightarrow> bool \<Rightarrow> 'a list \<Rightarrow>
    tokens \<Rightarrow> 'a list parsed" where
  "parse_list_from 0 closing separator parser first result ts = NoFuel"
| "parse_list_from (Suc n) closing separator parser first result ts =
     and_then (peek_token ts) (\<lambda>p.
       if p \<noteq> closing then
         and_then
           (case (first, separator) of
              (False, Some sep) \<Rightarrow> and_then (expect sep ts) (\<lambda>(_, ts). Ok ts)
            | _ \<Rightarrow> Ok ts)
           (\<lambda>ts. and_then (parser ts) (\<lambda>(x, ts).
              parse_list_from n closing separator parser False (result @ [x]) ts))
       else and_then (next_token ts) (\<lambda>(_, ts). Ok (result, ts)))"

definition parse_list :: "token \<Rightarrow> token option \<Rightarrow> (tokens \<Rightarrow> 'a parsed) \<Rightarrow> tokens \<Rightarrow> 'a list parsed" where
  "parse_list closing separator parser ts =
     parse_list_from (Suc (length ts)) closing separator parser True [] ts"

lemma next_token_length: "next_token ts = Ok (t, ts') \<Longrightarrow> length ts' < length ts"
  by (auto simp: next_token_def split: list.splits)

lemma expect_ident_length: "expect_ident ts = Ok (i, ts') \<Longrightarrow> length ts' < length ts"
  by (cases ts) (auto simp: expect_ident_def next_token_def split: token.split_asm)

lemma next_if_length: "next_if e ts = Ok (Some s, ts') \<Longrightarrow> length ts' < length ts"
  by (auto simp: next_if_def and_then_Ok_iff split: if_splits dest: next_token_length)

function path_rest :: "ident list \<Rightarrow> tokens \<Rightarrow> ident list parsed" where
  "path_rest rest ts = and_then (next_if Path ts) (\<lambda>(sep, ts).
     case sep of
       Some _ \<Rightarrow> and_then (expect_ident ts) (\<lambda>(i, ts). path_rest (rest @ [i]) ts)
     | None \<Rightarrow> Ok (rest, ts))"
  by pat_completeness auto
termination
  by (relation "measure (\<lambda>(_, ts). length ts)")
    (auto dest!: next_if_length expect_ident_length)

declare path_rest.simps [simp del]

definition parse_item_path :: "tokens \<Rightarrow> item_path parsed" where
  "parse_item_path ts = and_then (expect_ident ts) (\<lambda>(base, ts).
     and_then (path_rest [] ts) (\<lambda>(rest, ts). Ok (ItemPath base rest, ts)))"

section \<open>Expressions\<close>

definition spanned_path :: "item_path \<Rightarrow> item_path spanned" where
  "spanned_path p = span_with (path_span p) p"

text \<open>The part of \<open>parse_node\<close> before the parenthesis: name, phantom inputs and start span.\<close>

definition parse_node_head :: "item_path option \<Rightarrow> tokens \<Rightarrow>
    (item_path spanned \<times> item_path spanned list \<times> span) parsed" where
  "parse_node_head pre_parsed_name ts = (case pre_parsed_name of
       Some name \<Rightarrow> Ok ((spanned_path name, [], path_span name), ts)
     | None \<Rightarrow>
         and_then (and_then (next_if Wait ts) (\<lambda>(wait, ts).
             case wait of
               Some next_span \<Rightarrow> and_then (next_if OpenParen ts) (\<lambda>(paren, ts).
                 case paren of
                   Some _ \<Rightarrow> and_then (parse_list ClosingParen (Some Comma) parse_item_path ts) (\<lambda>(paths, ts).
                     Ok ((map spanned_path paths, next_span), ts))
                 | None \<Rightarrow> and_then (parse_item_path ts) (\<lambda>(path, ts).
                     Ok (([spanned_path path], next_span), ts)))
             | None \<Rightarrow> (case ts of
                   t # _ \<Rightarrow> Ok (([], sspan t), ts)
                 | [] \<Rightarrow> Err (internal ''Hit end of token list''))))
           (\<lambda>((phantom_inputs, start_span), ts). and_then (parse_item_path ts) (\<lambda>(path, ts).
             Ok ((spanned_path path, phantom_inputs, start_span), ts))))"

fun parse_expression :: "nat \<Rightarrow> tokens \<Rightarrow> expression parsed"
and parse_atom :: "nat \<Rightarrow> tokens \<Rightarrow> expression parsed"
and parse_chain_nodes :: "nat \<Rightarrow> tokens \<Rightarrow> ast_node spanned list parsed"
and parse_node :: "nat \<Rightarrow> item_path option \<Rightarrow> tokens \<Rightarrow> ast_node spanned parsed"
where
  "parse_expression 0 ts = NoFuel"
| "parse_expression (Suc n) ts = and_then (parse_atom n ts) (\<lambda>(value, ts).
     and_then (peek_token ts) (\<lambda>p.
       if p = Pipe then
         and_then (parse_chain_nodes n ts) (\<lambda>(nodes, ts).
           let sp = (if nodes = [] then expr_span value
                     else span_join (expr_span value) (sspan (last nodes)))
           in Ok (EChain (span_with sp (Chain value nodes)), ts))
       else Ok (value, ts)))"
| "parse_atom 0 ts = NoFuel"
| "parse_atom (Suc n) ts = and_then (peek_token ts) (\<lambda>p.
     case p of
       Numeric value \<Rightarrow> and_then (next_token ts) (\<lambda>(t, ts). Ok (ENumber (span_with (sspan t) value), ts))
     | String value \<Rightarrow> and_then (next_token ts) (\<lambda>(t, ts). Ok (EString (span_with (sspan t) value), ts))
     | Ident _ \<Rightarrow> and_then (parse_item_path ts) (\<lambda>(item, ts).
         and_then (peek_token ts) (\<lambda>q.
           if q = OpenParen then and_then (parse_node n (Some item) ts) (\<lambda>(nd, ts). Ok (ENode nd, ts))
           else Ok (ELabel (spanned_path item), ts)))
     | _ \<Rightarrow> and_then (parse_node n None ts) (\<lambda>(nd, ts). Ok (ENode nd, ts)))"
| "parse_chain_nodes 0 ts = NoFuel"
| "parse_chain_nodes (Suc n) ts = and_then (next_if Pipe ts) (\<lambda>(pipe, ts).
     case pipe of
       Some _ \<Rightarrow> and_then (parse_node n None ts) (\<lambda>(nd, ts).
         and_then (parse_chain_nodes n ts) (\<lambda>(nds, ts). Ok (nd # nds, ts)))
     | None \<Rightarrow> Ok ([], ts))"
| "parse_node 0 pre_parsed_name ts = NoFuel"
| "parse_node (Suc n) pre_parsed_name ts =
     and_then (parse_node_head pre_parsed_name ts) (\<lambda>((name, phantom_inputs, start_span), ts).
     and_then (expect OpenParen ts) (\<lambda>(_, ts).
     and_then (parse_list ClosingParen (Some Comma) (\<lambda>ts. parse_expression n ts) ts) (\<lambda>(arguments, ts).
       let end_span = (if arguments = [] then start_span else expr_span (last arguments))
       in Ok (span_with (span_join start_span end_span) (AstNode name arguments phantom_inputs), ts))))"

text \<open>Fuel for an expression: four calls per token left.\<close>

definition parse_expr :: "tokens \<Rightarrow> expression parsed" where
  "parse_expr ts = parse_expression (4 * length ts + 4) ts"

section \<open>Statements\<close>

definition parse_label :: "span option \<Rightarrow> span \<Rightarrow> ustr \<Rightarrow> tokens \<Rightarrow> statement parsed" where
  "parse_label export token_span i ts =
     (let label = span_with token_span i in
      and_then (expect Eq ts) (\<lambda>(_, ts).
      and_then (parse_expr ts) (\<lambda>(expression, ts).
      and_then (expect SemiColon ts) (\<lambda>(_, ts). Ok (SLabel export expression label, ts)))))"

definition parse_import :: "span option \<Rightarrow> tokens \<Rightarrow> statement parsed" where
  "parse_import export ts =
     and_then (expect_str ts) (\<lambda>(path, ts).
     and_then (expect As ts) (\<lambda>(_, ts).
     and_then (expect_ident ts) (\<lambda>(name, ts).
     and_then (expect SemiColon ts) (\<lambda>(_, ts). Ok (SImport export path name, ts)))))"

definition parse_parameter :: "tokens \<Rightarrow> (ident \<times> expression option) parsed" where
  "parse_parameter ts = and_then (expect_ident ts) (\<lambda>(name, ts).
     and_then (next_if Eq ts) (\<lambda>(eq, ts).
       case eq of
         Some _ \<Rightarrow> and_then (parse_expr ts) (\<lambda>(dflt, ts). Ok ((name, Some dflt), ts))
       | None \<Rightarrow> Ok ((name, None), ts)))"

text \<open>The loop that sorts parameters: required ones first, then those with a default.\<close>

fun split_parameters :: "bool \<Rightarrow> (ident \<times> expression option) list \<Rightarrow>
    (ident list \<times> (ident \<times> expression) list) compile_result" where
  "split_parameters done_required [] = Ok ([], [])"
| "split_parameters done_required ((name, maybe_default) # ps) =
     (case (done_required, maybe_default) of
        (False, None) \<Rightarrow> and_then (split_parameters False ps) (\<lambda>(req, def). Ok (name # req, def))
      | (_, Some dflt) \<Rightarrow> and_then (split_parameters True ps) (\<lambda>(req, def). Ok (req, (name, dflt) # def))
      | (True, None) \<Rightarrow> Err (RequiredAfterDefault (sspan name)))"

fun parse_statement :: "nat \<Rightarrow> tokens \<Rightarrow> statement parsed"
and parse_function_def :: "nat \<Rightarrow> span option \<Rightarrow> tokens \<Rightarrow> statement parsed"
where
  "parse_statement 0 ts = NoFuel"
| "parse_statement (Suc n) ts = and_then (next_token ts) (\<lambda>(t, ts).
     case sval t of
       Return \<Rightarrow> and_then (parse_expr ts) (\<lambda>(expression, ts).
         and_then (expect SemiColon ts) (\<lambda>(_, ts). Ok (SReturn (sspan t) expression, ts)))
     | Def \<Rightarrow> parse_function_def n None ts
     | Ident i \<Rightarrow> parse_label None (sspan t) i ts
     | Import \<Rightarrow> parse_import None ts
     | Export \<Rightarrow> and_then (next_token ts) (\<lambda>(t', ts).
         case sval t' of
           Def \<Rightarrow> parse_function_def n (Some (sspan t)) ts
         | Ident i \<Rightarrow> parse_label (Some (sspan t)) (sspan t') i ts
         | Import \<Rightarrow> parse_import (Some (sspan t)) ts
         | _ \<Rightarrow> Err (unexpected (Text ''import, def or ident'') t'))
     | _ \<Rightarrow> Err (unexpected (Text ''import, export, return, def or ident'') t))"
| "parse_function_def 0 export ts = NoFuel"
| "parse_function_def (Suc n) export ts =
     and_then (expect_ident ts) (\<lambda>(name, ts).
     and_then (expect OpenParen ts) (\<lambda>(_, ts).
     and_then (parse_list ClosingParen (Some Comma) parse_parameter ts) (\<lambda>(parameters, ts).
     and_then (split_parameters False parameters) (\<lambda>(required, defaults).
     and_then (expect OpenBracket ts) (\<lambda>(_, ts).
     and_then (parse_list ClosingBracket None (\<lambda>ts. parse_statement n ts) ts) (\<lambda>(statements, ts).
       Ok (SFunction export name required defaults statements, ts)))))))"

fun parse_file_from :: "nat \<Rightarrow> tokens \<Rightarrow> statement list compile_result" where
  "parse_file_from 0 ts = NoFuel"
| "parse_file_from (Suc n) ts =
     (case ts of
        [] \<Rightarrow> Ok []
      | t # _ \<Rightarrow>
          if sval t \<noteq> Eof then
            and_then (parse_statement (2 * length ts) ts) (\<lambda>(s, ts).
            and_then (parse_file_from n ts) (\<lambda>ss. Ok (s # ss)))
          else Ok [])"

definition parse_file :: "tokens \<Rightarrow> statement list compile_result" where
  "parse_file ts = parse_file_from (Suc (length ts)) ts"

end
