(* ===== verification/Parser_Props.thy ===== *)
theory Parser_Props
  imports Parser
begin

text \<open>
  What the parser promises on a token list that ends in the end-of-file token: it returns a tree or
  an error of the user's making, and in particular never runs past the end.
\<close>

section \<open>Consuming tokens\<close>

definition eof_ended :: "tokens \<Rightarrow> bool" where
  "eof_ended ts \<longleftrightarrow> ts \<noteq> [] \<and> sval (last ts) = Eof"

text \<open>\<open>advances k ts r\<close>: a sound result that leaves an end-of-file ended rest, at least \<open>k\<close> tokens on.\<close>

definition advances :: "nat \<Rightarrow> tokens \<Rightarrow> 'a parsed \<Rightarrow> bool" where
  "advances k ts r \<longleftrightarrow> sound r \<and>
     (\<forall>x ts'. r = Ok (x, ts') \<longrightarrow> eof_ended ts' \<and> length ts' + k \<le> length ts)"

named_theorems advancing \<open>rules for advances\<close>

lemma advances_bind [advancing]:
  assumes "advances j ts r"
    and "\<And>x ts'. r = Ok (x, ts') \<Longrightarrow> eof_ended ts' \<Longrightarrow> length ts' + j \<le> length ts \<Longrightarrow>
      advances (k - j) ts' (f (x, ts'))"
  shows "advances k ts (and_then r f)"
  using assms unfolding advances_def
  by (cases r) (fastforce simp: outcome_simps)+

lemma advances_Ok [advancing]: "eof_ended ts \<Longrightarrow> advances 0 ts (Ok (x, ts))"
  by (simp add: advances_def)

lemma advances_Err [advancing]: "user_error e \<Longrightarrow> advances k ts (Err e)"
  by (simp add: advances_def)

lemma advances_weaken: "advances j ts r \<Longrightarrow> k \<le> j \<Longrightarrow> advances k ts r"
  by (fastforce simp: advances_def)

text \<open>The same two rules in the shape in which the parser writes its steps.\<close>

lemma advances_step:
  assumes "advances j ts r"
    and "\<And>x ts'. r = Ok (x, ts') \<Longrightarrow> eof_ended ts' \<Longrightarrow> length ts' + j \<le> length ts \<Longrightarrow>
      advances (k - j) ts' (g x ts')"
  shows "advances k ts (and_then r (\<lambda>(x, ts'). g x ts'))"
  using advances_bind [OF assms(1), of k "\<lambda>(x, ts'). g x ts'"] assms(2) by simp

lemma advances_done: "eof_ended ts \<Longrightarrow> k = 0 \<Longrightarrow> advances k ts (Ok (x, ts))"
  by (simp add: advances_def)

lemma unexpected_user [simp]: "user_error (unexpected e t)"
  by (simp add: unexpected_def)

lemma peek_token_eof: "eof_ended ts \<Longrightarrow> \<exists>t ts'. ts = t # ts' \<and> peek_token ts = Ok (sval t)"
  by (cases ts) (auto simp: eof_ended_def peek_token_def)

lemma eof_ended_tl: "eof_ended (t # ts) \<Longrightarrow> sval t \<noteq> Eof \<Longrightarrow> eof_ended ts"
  by (cases ts) (auto simp: eof_ended_def)

lemma advances_peek [advancing]:
  assumes "eof_ended ts"
    and "\<And>t ts'. ts = t # ts' \<Longrightarrow> advances k ts (f (sval t))"
  shows "advances k ts (and_then (peek_token ts) f)"
  using peek_token_eof [OF assms(1)] assms(2) by auto

text \<open>Taking a token and looking at it: past the end of file there is only an error.\<close>

lemma advances_next:
  assumes "eof_ended ts"
    and "\<And>t ts'. ts = t # ts' \<Longrightarrow> sval t \<noteq> Eof \<Longrightarrow> eof_ended ts' \<Longrightarrow> advances (k - 1) ts' (f (t, ts'))"
    and "\<And>t. sval t = Eof \<Longrightarrow> advances k ts (f (t, []))"
    and "\<And>t ts'. sval t = Eof \<Longrightarrow> \<exists>e. f (t, ts') = Err e \<and> user_error e"
  shows "advances k ts (and_then (next_token ts) f)"
proof -
  from assms(1) obtain t ts' where ts: "ts = t # ts'" by (cases ts) (auto simp: eof_ended_def)
  show ?thesis
  proof (cases "sval t = Eof")
    case True
    with assms(4) [of t ts'] show ?thesis by (auto simp: ts next_token_def intro: advances_Err)
  next
    case False
    have "advances (k - 1) ts' (f (t, ts'))"
      using False ts assms(1) by (intro assms(2)) (auto intro: eof_ended_tl)
    then show ?thesis by (auto simp: ts next_token_def advances_def)
  qed
qed

lemma expect_advances [advancing]:
  "eof_ended ts \<Longrightarrow> e \<noteq> Eof \<Longrightarrow> advances 1 ts (expect e ts)"
  unfolding expect_def
  by (rule advances_next) (auto intro: advancing)

lemma expect_ident_advances [advancing]: "eof_ended ts \<Longrightarrow> advances 1 ts (expect_ident ts)"
  unfolding expect_ident_def
  by (rule advances_next) (auto intro: advancing split: token.split)

lemma expect_str_advances [advancing]: "eof_ended ts \<Longrightarrow> advances 1 ts (expect_str ts)"
  unfolding expect_str_def
  by (rule advances_next) (auto intro: advancing split: token.split)

lemma next_if_advances [advancing]:
  "eof_ended ts \<Longrightarrow> e \<noteq> Eof \<Longrightarrow> advances 0 ts (next_if e ts)"
  by (cases ts) (auto simp: next_if_def peek_token_def next_token_def advances_def
      eof_ended_def split: if_splits)

lemma next_if_SomeD:
  "next_if e ts = Ok (Some s, ts') \<Longrightarrow> length ts' + 1 \<le> length ts"
  using next_if_length by fastforce

lemma path_rest_advances [advancing]: "eof_ended ts \<Longrightarrow> advances 0 ts (path_rest rest ts)"
proof (induction rest ts rule: path_rest.induct)
  case (1 rest ts)
  show ?case
    unfolding path_rest.simps [of rest ts]
  proof (rule advances_bind [OF next_if_advances [OF "1.prems"]], simp)
    fix x ts' assume x: "next_if Path ts = Ok (x, ts')" and ts': "eof_ended ts'"
    show "advances (0 - 0) ts' (case (x, ts') of (None, ts) \<Rightarrow> Ok (rest, ts)
        | (Some _, ts) \<Rightarrow> and_then (expect_ident ts) (\<lambda>(i, ts). path_rest (rest @ [i]) ts))"
      using "1.IH" [OF x refl] ts'
      by (cases x) (auto intro!: advances_Ok intro: advances_bind advances_weaken [OF expect_ident_advances])
  qed
qed

lemma parse_item_path_advances [advancing]: "eof_ended ts \<Longrightarrow> advances 1 ts (parse_item_path ts)"
  unfolding parse_item_path_def
  by (auto intro!: advances_bind [OF expect_ident_advances] advances_bind [OF path_rest_advances] advances_Ok)

text \<open>A list parser whose items consume a token each has enough fuel in the tokens left.\<close>

lemma parse_list_from_advances:
  assumes p: "\<And>ts. eof_ended ts \<Longrightarrow> length ts < m \<Longrightarrow> advances 1 ts (p ts)"
    and "closing \<noteq> Eof" "sep \<noteq> Some Eof"
  shows "eof_ended ts \<Longrightarrow> length ts < n \<Longrightarrow> length ts < m \<Longrightarrow>
    advances 1 ts (parse_list_from n closing sep p first result ts)"
proof (induction n arbitrary: first result ts)
  case (Suc n)
  obtain t ts0 where ts: "ts = t # ts0" using Suc.prems(1) by (cases ts) (auto simp: eof_ended_def)
  show ?case
  proof (cases "sval t = closing")
    case True
    then have "eof_ended ts0" using Suc.prems(1) assms(2) ts by (auto intro: eof_ended_tl)
    with True ts show ?thesis by (simp add: peek_token_def next_token_def advances_def)
  next
    case False
    let ?s = "case (first, sep) of (False, Some sep) \<Rightarrow> and_then (expect sep ts) (\<lambda>(_, ts). Ok ts) | _ \<Rightarrow> Ok ts"
    have s: "sound ?s \<and> (\<forall>ts1. ?s = Ok ts1 \<longrightarrow> eof_ended ts1 \<and> length ts1 \<le> length ts)"
      using expect_advances [OF Suc.prems(1)] Suc.prems(1) assms(3)
      by (cases first; cases sep) (force simp: advances_def outcome_simps)+
    have body: "advances 1 ts1 (and_then (p ts1) (\<lambda>(x, ts).
          parse_list_from n closing sep p False (result @ [x]) ts))"
      if "eof_ended ts1" "length ts1 \<le> length ts" for ts1
      using that Suc.prems p [of ts1]
      by (intro advances_bind [where j = 1]) (auto intro: advances_weaken [OF Suc.IH])
    show ?thesis
    proof (cases ?s)
      case (Ok ts1)
      with s have "eof_ended ts1" "length ts1 \<le> length ts" by auto
      from body [OF this] show ?thesis
        using False ts Ok \<open>length ts1 \<le> length ts\<close>
        by (auto simp: peek_token_def advances_def)
    qed (use s False ts in \<open>auto simp: peek_token_def advances_def\<close>)
  qed
qed simp

lemma parse_list_advances:
  assumes "\<And>ts'. eof_ended ts' \<Longrightarrow> length ts' \<le> length ts \<Longrightarrow> advances 1 ts' (p ts')"
    and "eof_ended ts" "closing \<noteq> Eof" "sep \<noteq> Some Eof"
  shows "advances 1 ts (parse_list closing sep p ts)"
  unfolding parse_list_def
  by (rule parse_list_from_advances [where m = "Suc (length ts)"]) (use assms in auto)

section \<open>Expressions\<close>

lemma parse_node_head_advances [advancing]:
  assumes "eof_ended ts"
  shows "advances 0 ts (parse_node_head pre ts)"
proof (cases pre)
  case None
  let ?phantoms = "and_then (next_if Wait ts) (\<lambda>(wait, ts).
      case wait of
        Some next_span \<Rightarrow> and_then (next_if OpenParen ts) (\<lambda>(paren, ts).
          case paren of
            Some _ \<Rightarrow> and_then (parse_list ClosingParen (Some Comma) parse_item_path ts) (\<lambda>(paths, ts).
              Ok ((map spanned_path paths, next_span), ts))
          | None \<Rightarrow> and_then (parse_item_path ts) (\<lambda>(path, ts).
              Ok (([spanned_path path], next_span), ts)))
      | None \<Rightarrow> (case ts of
            t # _ \<Rightarrow> Ok (([], sspan t), ts)
          | [] \<Rightarrow> Err (internal ''Hit end of token list'')))"
  have list: "advances 0 ts (and_then (parse_list ClosingParen (Some Comma) parse_item_path ts) (\<lambda>(paths, ts).
      Ok ((map spanned_path paths, s), ts)))" if "eof_ended ts" for ts and s :: span
  proof -
    have "advances 1 ts (parse_list ClosingParen (Some Comma) parse_item_path ts)"
      by (rule parse_list_advances [OF parse_item_path_advances]) (use that in simp_all)
    then show ?thesis by (auto simp: advances_def outcome_simps)
  qed
  have path: "advances 0 ts (and_then (parse_item_path ts) (\<lambda>(path, ts). Ok (f path, ts)))"
    if "eof_ended ts" for ts and f :: "item_path \<Rightarrow> 'b"
    using parse_item_path_advances [OF that] by (auto simp: advances_def outcome_simps)
  have wait: "advances 0 ts1 (case wait of
        Some next_span \<Rightarrow> and_then (next_if OpenParen ts1) (\<lambda>(paren, ts).
          case paren of
            Some _ \<Rightarrow> and_then (parse_list ClosingParen (Some Comma) parse_item_path ts) (\<lambda>(paths, ts).
              Ok ((map spanned_path paths, next_span), ts))
          | None \<Rightarrow> and_then (parse_item_path ts) (\<lambda>(path, ts).
              Ok (([spanned_path path], next_span), ts)))
      | None \<Rightarrow> (case ts1 of
            t # _ \<Rightarrow> Ok (([], sspan t), ts1)
          | [] \<Rightarrow> Err (internal ''Hit end of token list'')))" if ts1: "eof_ended ts1" for wait ts1
  proof (cases wait)
    case None
    with ts1 show ?thesis by (cases ts1) (auto simp: advances_def eof_ended_def)
  next
    case (Some s)
    show ?thesis
      unfolding Some option.case
      by (intro advances_step [OF next_if_advances])
        (use ts1 in \<open>auto intro!: list path split: option.split\<close>)
  qed
  have "advances 0 ts ?phantoms"
    by (intro advances_step [OF next_if_advances]) (use assms wait in simp_all)
  then show ?thesis
    unfolding parse_node_head_def None option.case
    by (rule advances_bind)
      (auto intro!: path split: prod.split)
qed (use assms in \<open>simp add: parse_node_head_def advances_def\<close>)

text \<open>A head whose name was read before leaves the tokens alone; otherwise it takes a token.\<close>

lemma parse_expressions_advance:
  "eof_ended ts \<Longrightarrow> 4 * length ts + 3 \<le> n \<Longrightarrow> advances 1 ts (parse_expression n ts)"
  "eof_ended ts \<Longrightarrow> 4 * length ts + 2 \<le> n \<Longrightarrow> advances 1 ts (parse_atom n ts)"
  "eof_ended ts \<Longrightarrow> 4 * length ts + 2 \<le> n \<Longrightarrow> advances 0 ts (parse_chain_nodes n ts)"
  "eof_ended ts \<Longrightarrow> 4 * length ts + 1 \<le> n \<Longrightarrow> advances 1 ts (parse_node n pre ts)"
proof (induction n ts and n ts and n ts and n pre ts rule:
    parse_expression_parse_atom_parse_chain_nodes_parse_node.induct)
  case (2 n ts)
  have tail: "advances 0 ts1 (and_then (peek_token ts1) (\<lambda>p.
       if p = Pipe then
         and_then (parse_chain_nodes n ts1) (\<lambda>(nodes, ts).
           let sp = (if nodes = [] then expr_span value
                     else span_join (expr_span value) (sspan (last nodes)))
           in Ok (EChain (span_with sp (Chain value nodes)), ts))
       else Ok (value, ts1)))"
    if r: "parse_atom n ts = Ok (value, ts1)" "eof_ended ts1" "length ts1 + 1 \<le> length ts" for "value" ts1
  proof (rule advances_peek [OF r(2)])
    fix t ts' assume t: "ts1 = t # ts'"
    have "sval t = Pipe \<Longrightarrow> advances 0 ts1 (parse_chain_nodes n ts1)"
      using r "2.prems" by (intro "2.IH"(2) [OF r(1) refl]) (auto simp: t peek_token_def)
    then show "advances 0 ts1 (if sval t = Pipe then
         and_then (parse_chain_nodes n ts1) (\<lambda>(nodes, ts).
           let sp = (if nodes = [] then expr_span value
                     else span_join (expr_span value) (sspan (last nodes)))
           in Ok (EChain (span_with sp (Chain value nodes)), ts))
       else Ok (value, ts1))"
      using r(2) by (auto simp: advances_def outcome_simps Let_def)
  qed
  show ?case
    unfolding parse_expression.simps
    by (rule advances_bind [OF "2.IH"(1)]) (use "2.prems" tail in auto)
next
  case (4 n ts)
  obtain t ts0 where ts: "ts = t # ts0" using "4.prems" by (cases ts) (auto simp: eof_ended_def)
  note item = parse_item_path_advances [OF "4.prems"(1)]
  show ?case
  proof (cases "sval t")
    case (Ident i)
    have tail: "advances 0 ts1 (and_then (peek_token ts1) (\<lambda>q.
           if q = OpenParen then and_then (parse_node n (Some item) ts1) (\<lambda>(nd, ts). Ok (ENode nd, ts))
           else Ok (ELabel (spanned_path item), ts1)))"
      if r: "parse_item_path ts = Ok (item, ts1)" "eof_ended ts1" "length ts1 + 1 \<le> length ts" for item ts1
    proof (rule advances_peek [OF r(2)])
      fix t' ts' assume t': "ts1 = t' # ts'"
      have "sval t' = OpenParen \<Longrightarrow> advances 1 ts1 (parse_node n (Some item) ts1)"
        using r "4.prems" by (intro "4.IH"(1) [OF _ Ident r(1) refl]) (auto simp: t' ts peek_token_def)
      then show "advances 0 ts1 (if sval t' = OpenParen
           then and_then (parse_node n (Some item) ts1) (\<lambda>(nd, ts). Ok (ENode nd, ts))
           else Ok (ELabel (spanned_path item), ts1))"
        using r(2) by (auto simp: advances_def outcome_simps)
    qed
    have "advances 1 ts (and_then (parse_item_path ts) (\<lambda>(item, ts1). and_then (peek_token ts1) (\<lambda>q.
           if q = OpenParen then and_then (parse_node n (Some item) ts1) (\<lambda>(nd, ts). Ok (ENode nd, ts))
           else Ok (ELabel (spanned_path item), ts1))))"
      by (rule advances_bind [OF item]) (use tail in auto)
    then show ?thesis using Ident by (simp add: ts peek_token_def)
  next
    case (String s)
    then have "eof_ended ts0" using "4.prems"(1) by (auto simp: ts intro: eof_ended_tl)
    with String show ?thesis by (simp add: ts peek_token_def next_token_def advances_def)
  next
    case (Numeric k)
    then have "eof_ended ts0" using "4.prems"(1) by (auto simp: ts intro: eof_ended_tl)
    with Numeric show ?thesis by (simp add: ts peek_token_def next_token_def advances_def)
  qed (use "4.IH"(2-) "4.prems" in \<open>auto simp: ts peek_token_def advances_def outcome_simps\<close>)
next
  case (6 n ts)
  have node: "advances 0 ts1 (and_then (parse_node n None ts1) (\<lambda>(nd, ts).
         and_then (parse_chain_nodes n ts) (\<lambda>(nds, ts). Ok (nd # nds, ts))))"
    if r: "next_if Pipe ts = Ok (Some s, ts1)" "eof_ended ts1" for s ts1
  proof -
    have len: "length ts1 + 1 \<le> length ts" using next_if_SomeD [OF r(1)] .
    have IH2: "advances 0 ts2 (parse_chain_nodes n ts2)"
      if "parse_node n None ts1 = Ok (nd, ts2)" "eof_ended ts2" "length ts2 + 1 \<le> length ts1" for nd ts2
      using that len "6.prems" by (intro "6.IH"(2) [OF r(1) refl refl that(1) refl]) auto
    have "advances 1 ts1 (parse_node n None ts1)"
      using r len "6.prems" by (intro "6.IH"(1) [OF r(1) refl refl]) auto
    then show ?thesis
      by (rule advances_weaken [OF advances_bind [where k = 1]])
        (auto simp: advances_def outcome_simps dest!: IH2)
  qed
  show ?case
    unfolding parse_chain_nodes.simps
    by (rule advances_bind [OF next_if_advances]) (use "6.prems" node in \<open>auto split: option.split simp: advances_def\<close>)
next
  case (8 n pre ts)
  have args: "advances 0 ts2 (and_then (parse_list ClosingParen (Some Comma) (\<lambda>ts. parse_expression n ts) ts2)
        (\<lambda>(arguments, ts).
       let end_span = (if arguments = [] then start_span else expr_span (last arguments))
       in Ok (span_with (span_join start_span end_span) (AstNode name arguments phantom_inputs), ts)))"
    if r: "parse_node_head pre ts = Ok ((name, phantom_inputs, start_span), ts1)"
      "expect OpenParen ts1 = Ok (s, ts2)"
      and len: "eof_ended ts2" "length ts2 + 1 \<le> length ts" for ts1 ts2 name phantom_inputs start_span s
  proof -
    have "advances 1 ts2 (parse_list ClosingParen (Some Comma) (\<lambda>ts. parse_expression n ts) ts2)"
      by (rule parse_list_advances [OF "8.IH" [OF r(1) refl refl refl r(2) refl]]) (use len "8.prems" in simp_all)
    then show ?thesis by (auto simp: advances_def outcome_simps Let_def)
  qed
  have "advances 1 ts1 (and_then (expect OpenParen ts1) (\<lambda>(_, ts).
     and_then (parse_list ClosingParen (Some Comma) (\<lambda>ts. parse_expression n ts) ts) (\<lambda>(arguments, ts).
       let end_span = (if arguments = [] then start_span else expr_span (last arguments))
       in Ok (span_with (span_join start_span end_span) (AstNode name arguments phantom_inputs), ts))))"
    if r: "parse_node_head pre ts = Ok ((name, phantom_inputs, start_span), ts1)"
      and len: "eof_ended ts1" "length ts1 \<le> length ts" for ts1 name phantom_inputs start_span
    by (intro advances_step [OF expect_advances]) (use args [OF r] len in simp_all)
  then show ?case
    unfolding parse_node.simps
    by (intro advances_bind [OF parse_node_head_advances [OF "8.prems"(1)]]) auto
qed auto

lemma parse_expr_advances [advancing]: "eof_ended ts \<Longrightarrow> advances 1 ts (parse_expr ts)"
  unfolding parse_expr_def by (rule parse_expressions_advance) simp_all

section \<open>Statements\<close>

lemmas steps =
  advances_step [OF expect_advances] advances_step [OF expect_ident_advances]
  advances_step [OF expect_str_advances] advances_step [OF next_if_advances]
  advances_step [OF parse_expr_advances] advances_step [OF parse_list_advances]

lemma parse_label_advances [advancing]: "eof_ended ts \<Longrightarrow> advances 1 ts (parse_label export sp i ts)"
  unfolding parse_label_def Let_def
  by (intro steps advances_done) simp_all

lemma parse_import_advances [advancing]: "eof_ended ts \<Longrightarrow> advances 1 ts (parse_import export ts)"
  unfolding parse_import_def
  by (intro steps advances_done) simp_all

lemma parse_parameter_advances [advancing]: "eof_ended ts \<Longrightarrow> advances 1 ts (parse_parameter ts)"
proof -
  have rest: "advances 0 ts (case eq of
         Some (_ :: span) \<Rightarrow> and_then (parse_expr ts) (\<lambda>(dflt, ts). Ok ((name, Some dflt), ts))
       | None \<Rightarrow> Ok ((name, None), ts))" if "eof_ended ts" for name :: ident and ts eq
  proof (cases eq)
    case (Some s)
    show ?thesis unfolding Some option.case
      by (intro steps advances_done) (use that in simp_all)
  qed (simp add: that advances_done)
  assume "eof_ended ts"
  then show ?thesis
    unfolding parse_parameter_def
    by (intro steps advances_done) (simp_all add: rest)
qed

lemma split_parameters_sound: "sound (split_parameters d ps)"
  by (induction d ps rule: split_parameters.induct)
    (auto simp: outcome_simps split: option.split bool.split)

text \<open>A statement body: what follows the word it starts with.\<close>

lemma parse_function_def_step:
  assumes "eof_ended ts"
    and "\<And>ts'. eof_ended ts' \<Longrightarrow> length ts' < length ts \<Longrightarrow> advances 1 ts' (parse_statement n ts')"
  shows "advances 1 ts (parse_function_def (Suc n) export ts)"
proof -
  have rest: "advances 0 ts1 (and_then (split_parameters False parameters) (\<lambda>(required, defaults).
     and_then (expect OpenBracket ts1) (\<lambda>(_, ts).
     and_then (parse_list ClosingBracket None (\<lambda>ts. parse_statement n ts) ts) (\<lambda>(statements, ts).
       Ok (SFunction export name required defaults statements, ts)))))"
    if "eof_ended ts1" "length ts1 < length ts" for ts1 parameters name
  proof (cases "split_parameters False parameters")
    case (Ok a)
    obtain required defaults where a: "a = (required, defaults)" by (cases a)
    show ?thesis
      unfolding Ok a and_then.simps prod.case
      by (intro steps advances_done assms(2))
        (use that in simp_all)
  qed (use split_parameters_sound [of False parameters] in \<open>simp_all add: advances_def\<close>)
  show ?thesis
    unfolding parse_function_def.simps
    by (intro steps advances_done parse_parameter_advances) (use assms(1) rest in simp_all)
qed

lemma parse_return_advances:
  "eof_ended ts \<Longrightarrow> advances 1 ts (and_then (parse_expr ts) (\<lambda>(expression, ts).
     and_then (expect SemiColon ts) (\<lambda>(_, ts). Ok (SReturn sp expression, ts))))"
  by (intro steps advances_done) simp_all

lemma parse_statements_advance:
  "eof_ended ts \<Longrightarrow> 2 * length ts \<le> n \<Longrightarrow> advances 1 ts (parse_statement n ts)"
  "eof_ended ts \<Longrightarrow> 2 * length ts + 1 \<le> n \<Longrightarrow> advances 1 ts (parse_function_def n export ts)"
proof (induction n arbitrary: ts export)
  case (Suc n)
  case 1
  obtain t ts0 where ts: "ts = t # ts0" using 1 by (cases ts) (auto simp: eof_ended_def)
  have weak: "advances 1 ts r" if "advances 1 ts' r" "length ts' \<le> length ts" for ts' and r :: "statement parsed"
    using that by (auto simp: advances_def)
  show ?case
  proof (cases "sval t = Eof")
    case False
    then have e0: "eof_ended ts0" using 1 by (auto simp: ts intro: eof_ended_tl)
    have len: "length ts0 \<le> length ts" by (simp add: ts)
    note body = weak [OF parse_return_advances [OF e0] len] weak [OF parse_label_advances [OF e0] len]
      weak [OF parse_import_advances [OF e0] len]
    have nt: "next_token ts = Ok (t, ts0)" by (simp add: ts next_token_def)
    show ?thesis
    proof (cases "sval t")
      case Def
      have "advances 1 ts0 (parse_function_def n None ts0)"
        using 1 e0 by (intro Suc.IH(2)) (auto simp: ts)
      then show ?thesis using Def weak [OF _ len, of "parse_function_def n None ts0"] by (simp add: nt)
    next
      case Export
      obtain t' ts1 where ts0: "ts0 = t' # ts1" using e0 by (cases ts0) (auto simp: eof_ended_def)
      have nt': "next_token ts0 = Ok (t', ts1)" by (simp add: ts0 next_token_def)
      show ?thesis
      proof (cases "sval t' = Eof")
        case True
        with Export show ?thesis by (simp add: nt nt' advances_def)
      next
        case False
        then have e1: "eof_ended ts1" using e0 by (auto simp: ts0 intro: eof_ended_tl)
        have len1: "length ts1 \<le> length ts" by (simp add: ts ts0)
        have "advances 1 ts1 (parse_function_def n (Some (sspan t)) ts1)" if "sval t' = Def"
          using 1 e1 by (intro Suc.IH(2)) (auto simp: ts ts0)
        then show ?thesis
          using Export weak [OF parse_label_advances [OF e1] len1]
            weak [OF parse_import_advances [OF e1] len1]
            weak [OF _ len1, of "parse_function_def n (Some (sspan t)) ts1"]
          by (cases "sval t'") (simp_all add: nt nt' advances_Err)
      qed
    qed (use body in \<open>simp_all add: nt advances_Err\<close>)
  qed (simp add: ts next_token_def advances_def)
next
  case (Suc n)
  case 2
  have "advances 1 ts' (parse_statement n ts')" if "eof_ended ts'" "length ts' < length ts" for ts'
    using that 2 by (intro Suc.IH(1)) simp_all
  then show ?case by (intro parse_function_def_step 2)
qed (auto simp: eof_ended_def)

lemma parse_file_from_sound:
  "eof_ended ts \<Longrightarrow> length ts < n \<Longrightarrow> sound (parse_file_from n ts)"
proof (induction n arbitrary: ts)
  case (Suc n)
  have "advances 1 ts (parse_statement (2 * length ts) ts)"
    using Suc.prems by (intro parse_statements_advance) simp_all
  then show ?case
    using Suc by (cases ts) (auto simp: advances_def outcome_simps)
qed simp

text \<open>
  C33: parsing always ends well: on a token list that ends with the end-of-file token, as the
  tokenizer's does, \<open>parse_file\<close> returns statements or an error that blames the user's program. It
  never runs past the end of the tokens, never reports an internal error and never panics, and its
  recursion is bounded by the number of tokens.
\<close>

theorem parse_file_sound:
  assumes "ts \<noteq> []" and "sval (last ts) = Eof"
  shows "sound (parse_file ts)"
  using assms unfolding parse_file_def by (intro parse_file_from_sound) (simp_all add: eof_ended_def)

theorem parse_file_sound_witness: "sound (parse_file (map (span_with span_dummy)
     [Return, Ident (ustr ''image''), OpenParen, String (ustr ''alpine''), ClosingParen, Eof]))"
  by (rule parse_file_sound) simp_all

end
