(* ===== verification/Maps.thy ===== *)
theory Maps
  imports Base "HOL-Library.List_Lexorder"
begin

text \<open>
  The two maps of the standard library the program keeps its data in. A \<open>BTreeMap\<close> is its list of
  entries in the order of the keys, the order in which the program iterates over it; a \<open>HashMap\<close>,
  which the compiler never iterates over, is a HOL map. Both meet the contract \<open>dictionary\<close>, under
  which the lemma on collecting an iterator of pairs is proved once.
\<close>

locale dictionary =
  fixes empty :: 'm
    and get :: "'m \<Rightarrow> 'k \<Rightarrow> 'v option"
    and put :: "'k \<Rightarrow> 'v \<Rightarrow> 'm \<Rightarrow> 'm"
    and ok :: "'m \<Rightarrow> bool"
  assumes ok_empty: "ok empty"
    and ok_put: "ok m \<Longrightarrow> ok (put k v m)"
    and get_empty: "get empty k = None"
    and get_put: "ok m \<Longrightarrow> get (put k v m) k' = (if k' = k then Some v else get m k')"
begin

lemma get_put_same: "ok m \<Longrightarrow> get (put k v m) k = Some v"
  by (simp add: get_put)

lemma get_put_other: "ok m \<Longrightarrow> k' \<noteq> k \<Longrightarrow> get (put k v m) k' = get m k'"
  by (simp add: get_put)

lemma collect_from:
  "ok m \<Longrightarrow> ok (fold (\<lambda>(k, v). put k v) kvs m) \<and>
     get (fold (\<lambda>(k, v). put k v) kvs m) k =
       (case map_of (rev kvs) k of Some v \<Rightarrow> Some v | None \<Rightarrow> get m k)"
  by (induction kvs arbitrary: m) (auto simp: ok_put get_put map_add_def split: option.split)

text \<open>\<open>collect\<close>: of entries with the same key the last one stays.\<close>

lemma get_collect: "get (fold (\<lambda>(k, v). put k v) kvs empty) k = map_of (rev kvs) k"
  using collect_from [OF ok_empty, of kvs k] by (simp add: get_empty split: option.split_asm)

lemma ok_collect: "ok (fold (\<lambda>(k, v). put k v) kvs empty)"
  using collect_from [OF ok_empty] by blast

end

section \<open>BTreeMap\<close>

type_synonym ('k, 'v) btree = "('k \<times> 'v) list"

fun bt_get :: "('k::linorder, 'v) btree \<Rightarrow> 'k \<Rightarrow> 'v option" where
  "bt_get [] k = None"
| "bt_get ((k', v) # m) k = (if k = k' then Some v else bt_get m k)"

fun bt_insert :: "'k::linorder \<Rightarrow> 'v \<Rightarrow> ('k, 'v) btree \<Rightarrow> ('k, 'v) btree" where
  "bt_insert k v [] = [(k, v)]"
| "bt_insert k v ((k', v') # m) =
     (if k < k' then (k, v) # (k', v') # m
      else if k = k' then (k, v) # m
      else (k', v') # bt_insert k v m)"

definition bt_ok :: "('k::linorder, 'v) btree \<Rightarrow> bool" where
  "bt_ok m \<longleftrightarrow> sorted_wrt (<) (map fst m)"

definition bt_collect :: "('k::linorder \<times> 'v) list \<Rightarrow> ('k, 'v) btree" where
  "bt_collect kvs = fold (\<lambda>(k, v). bt_insert k v) kvs []"

lemma bt_insert_keys: "fst ` set (bt_insert k v m) = insert k (fst ` set m)"
  by (induction k v m rule: bt_insert.induct) (simp_all add: insert_commute)

lemma bt_insert_ok: "bt_ok m \<Longrightarrow> bt_ok (bt_insert k v m)"
proof (induction m)
  case (Cons e m)
  then have "\<forall>k' \<in> fst ` set (bt_insert k v m). fst e < k'" if "fst e < k"
    using that unfolding bt_insert_keys by (auto simp: bt_ok_def)
  with Cons show ?case by (cases e) (auto simp: bt_ok_def)
qed (simp add: bt_ok_def)

lemma bt_get_insert: "bt_get (bt_insert k v m) k' = (if k' = k then Some v else bt_get m k')"
  by (induction m) auto

interpretation bt: dictionary "[]" bt_get bt_insert bt_ok
  by unfold_locales (auto simp: bt_ok_def [of "[]"] bt_insert_ok bt_get_insert)

lemma bt_get_collect: "bt_get (bt_collect kvs) k = map_of (rev kvs) k"
  unfolding bt_collect_def by (rule bt.get_collect)

lemma bt_collect_ok: "bt_ok (bt_collect kvs)"
  unfolding bt_collect_def by (rule bt.ok_collect)

lemma bt_insert_set: "set (bt_insert k v m) \<subseteq> insert (k, v) (set m)"
  by (induction k v m rule: bt_insert.induct) auto

section \<open>HashMap\<close>

interpretation hm: dictionary Map.empty "\<lambda>m. m" "\<lambda>k v m. m(k \<mapsto> v)" "\<lambda>_. True"
  by unfold_locales auto

end
