(* ===== verification/Topology.thy ===== *)
theory Topology
  imports Base "HOL-Library.Multiset" "HOL-Library.List_Lexorder"
begin

text \<open>
  \<^verbatim>\<open>serpentine_internal/src/network.rs\<close>: the tree of containers that a step runs in. Comparison looks
  at the structure only; \<open>with_children\<close> and \<open>add_child\<close> keep the children sorted by it, so that
  two topologies of the same unordered shape compare equal and can be zipped. The lemmas show just
  that: equality of sorted topologies is equality of unordered trees (\<open>unordered\<close>).
\<close>

datatype 'a topology = Topology (get_data: 'a) (children: "'a topology list")

datatype ordering = Less | Equal | Greater

fun topology_cmp :: "'a topology \<Rightarrow> 'b topology \<Rightarrow> ordering"
and children_cmp :: "'a topology list \<Rightarrow> 'b topology list \<Rightarrow> ordering"
where
  "topology_cmp (Topology a xs) (Topology b ys) = children_cmp xs ys"
| "children_cmp [] [] = Equal"
| "children_cmp [] (y # ys) = Less"
| "children_cmp (x # xs) [] = Greater"
| "children_cmp (x # xs) (y # ys) =
     (case topology_cmp x y of Equal \<Rightarrow> children_cmp xs ys | r \<Rightarrow> r)"

fun topology_eq :: "'a topology \<Rightarrow> 'b topology \<Rightarrow> bool"
and children_eq :: "'a topology list \<Rightarrow> 'b topology list \<Rightarrow> bool"
where
  "topology_eq (Topology a xs) (Topology b ys) = children_eq xs ys"
| "children_eq [] [] = True"
| "children_eq [] (y # ys) = False"
| "children_eq (x # xs) [] = False"
| "children_eq (x # xs) (y # ys) = (topology_eq x y \<and> children_eq xs ys)"

text \<open>\<open>Vec::sort\<close>, a stable sort.\<close>

fun insert_child :: "'a topology \<Rightarrow> 'a topology list \<Rightarrow> 'a topology list" where
  "insert_child x [] = [x]"
| "insert_child x (y # ys) =
     (if topology_cmp x y = Greater then y # insert_child x ys else x # y # ys)"

definition sort_children :: "'a topology list \<Rightarrow> 'a topology list" where
  "sort_children xs = foldr insert_child xs []"

definition topology_new :: "'a \<Rightarrow> 'a topology" where
  "topology_new d = Topology d []"

definition with_children :: "'a \<Rightarrow> 'a topology list \<Rightarrow> 'a topology" where
  "with_children d cs = Topology d (sort_children cs)"

definition add_child :: "'a topology \<Rightarrow> 'a topology \<Rightarrow> 'a topology" where
  "add_child t c = Topology (get_data t) (sort_children (children t @ [c]))"

fun map_data :: "('a \<Rightarrow> 'b) \<Rightarrow> 'a topology \<Rightarrow> 'b topology" where
  "map_data f (Topology d cs) = Topology (f d) (map (map_data f) cs)"

fun zip_topology :: "'a topology \<Rightarrow> 'b topology \<Rightarrow> ('a \<times> 'b) topology"
and zip_children :: "'a topology list \<Rightarrow> 'b topology list \<Rightarrow> ('a \<times> 'b) topology list"
where
  "zip_topology (Topology a xs) (Topology b ys) = Topology (a, b) (zip_children xs ys)"
| "zip_children (x # xs) (y # ys) = zip_topology x y # zip_children xs ys"
| "zip_children xs ys = []"

fun eq_with_data :: "'a topology \<Rightarrow> 'a topology \<Rightarrow> bool"
and all_eq_with_data :: "'a topology list \<Rightarrow> 'a topology list \<Rightarrow> bool"
where
  "eq_with_data (Topology a xs) (Topology b ys) =
     (if a \<noteq> b then False else if length xs \<noteq> length ys then False else all_eq_with_data xs ys)"
| "all_eq_with_data (x # xs) (y # ys) = (eq_with_data x y \<and> all_eq_with_data xs ys)"
| "all_eq_with_data xs ys = True"

text \<open>\<open>TopologyIter\<close>: a stack with its top at the end; \<open>next\<close> pops it and pushes the children.\<close>

definition iter_next :: "'a topology list \<Rightarrow> ('a \<times> 'a topology list) option" where
  "iter_next stack = (if stack = [] then None
     else Some (get_data (last stack), butlast stack @ children (last stack)))"

lemma iter_next_size:
  "iter_next stack = Some (x, stack') \<Longrightarrow>
     size_list (size_topology (\<lambda>_. 0)) stack' < size_list (size_topology (\<lambda>_. 0)) stack"
  by (cases stack rule: rev_cases; cases "last stack")
    (auto simp: iter_next_def size_list_conv_sum_list)

function iter_collect :: "'a topology list \<Rightarrow> 'a list" where
  "iter_collect stack = (case iter_next stack of
     None \<Rightarrow> [] | Some (x, stack') \<Rightarrow> x # iter_collect stack')"
  by pat_completeness auto
termination
  by (relation "measure (size_list (size_topology (\<lambda>_. 0)))") (auto dest: iter_next_size)

declare iter_collect.simps [simp del]

definition flat_data :: "'a topology \<Rightarrow> 'a list" where
  "flat_data t = iter_collect [t]"

section \<open>The order\<close>

text \<open>
  The structure of a topology as a bracket word: comparing topologies is comparing their words
  lexicographically.
\<close>

fun brackets :: "'a topology \<Rightarrow> nat list" where
  "brackets (Topology d cs) = 1 # concat (map brackets cs) @ [0]"

abbreviation brackets_list :: "'a topology list \<Rightarrow> nat list" where
  "brackets_list cs \<equiv> concat (map brackets cs) @ [0]"

fun agrees :: "ordering \<Rightarrow> nat list \<Rightarrow> nat list \<Rightarrow> bool" where
  "agrees Equal v w = (v = w)"
| "agrees Less v w = (\<forall>r s. v @ r < w @ s)"
| "agrees Greater v w = (\<forall>r s. w @ s < v @ r)"

lemma less_append_left [simp]: "(a @ r :: nat list) < a @ s \<longleftrightarrow> r < s"
  by (induction a) auto

lemma cmp_brackets:
  fixes t :: "'a topology" and u :: "'b topology"
  shows "agrees (topology_cmp t u) (brackets t) (brackets u)"
    and "agrees (children_cmp ts us) (brackets_list (ts :: 'a topology list))
      (brackets_list (us :: 'b topology list))"
proof (induction t u and ts us rule: topology_cmp_children_cmp.induct)
  case (1 a xs b ys)
  then show ?case by (cases "children_cmp xs ys") auto
next
  case (3 y ys)
  then show ?case by (cases y) auto
next
  case (4 x xs)
  then show ?case by (cases x) auto
next
  case (5 x xs y ys)
  then show ?case by (cases "topology_cmp x y"; cases "children_cmp xs ys") auto
qed auto

text \<open>So the comparison is the one of the words, and words tell structures apart.\<close>

lemma topology_eq_cmp:
  fixes t :: "'a topology" and u :: "'b topology"
  shows "topology_eq t u \<longleftrightarrow> topology_cmp t u = Equal"
    and "children_eq (ts :: 'a topology list) (us :: 'b topology list) \<longleftrightarrow> children_cmp ts us = Equal"
  by (induction t u and ts us rule: topology_cmp_children_cmp.induct)
    (auto split: ordering.split)

lemma topology_cmp_iff:
  "topology_cmp t u = Less \<longleftrightarrow> brackets t < brackets u"
  "topology_cmp t u = Equal \<longleftrightarrow> brackets t = brackets u"
  "topology_cmp t u = Greater \<longleftrightarrow> brackets t > brackets u"
proof -
  have "agrees (topology_cmp t u) (brackets t) (brackets u)" by (rule cmp_brackets)
  moreover have "v < w" if "\<forall>r s. v @ r < w @ s" for v w :: "nat list"
    using that [rule_format, of "[]" "[]"] by simp
  ultimately show "topology_cmp t u = Less \<longleftrightarrow> brackets t < brackets u"
    "topology_cmp t u = Equal \<longleftrightarrow> brackets t = brackets u"
    "topology_cmp t u = Greater \<longleftrightarrow> brackets t > brackets u"
    by (cases "topology_cmp t u"; force)+
qed

lemma insert_child_key: "insert_child x ys = insort_key brackets x ys"
  by (induction ys) (auto simp: topology_cmp_iff)

lemma sort_children_key: "sort_children xs = sort_key brackets xs"
  by (simp add: sort_children_def sort_key_def insert_child_key [abs_def])

section \<open>Unordered trees\<close>

datatype unordered = Unordered "unordered multiset"

fun forget :: "'a topology \<Rightarrow> unordered" where
  "forget (Topology d cs) = Unordered (mset (map forget cs))"

fun canonical :: "'a topology \<Rightarrow> bool" where
  "canonical (Topology d cs) \<longleftrightarrow> sorted (map brackets cs) \<and> (\<forall>c \<in> set cs. canonical c)"

lemma canonical_with_children [simp]:
  "(\<And>c. c \<in> set cs \<Longrightarrow> canonical c) \<Longrightarrow> canonical (with_children d cs)"
  by (simp add: with_children_def sort_children_key)

lemma canonical_add_child:
  "canonical t \<Longrightarrow> canonical c \<Longrightarrow> canonical (add_child t c)"
  by (cases t) (auto simp: add_child_def sort_children_key)

lemma brackets_map_data [simp]: "brackets (map_data f t) = brackets t"
  by (induction t) (simp add: comp_def cong: map_cong)

lemma canonical_map_data [simp]: "canonical (map_data f t) \<longleftrightarrow> canonical t"
  by (induction t) (simp add: comp_def)

lemma forget_topology_eq:
  fixes t :: "'a topology" and u :: "'b topology"
  shows "topology_eq t u \<Longrightarrow> forget t = forget u"
    and "children_eq (ts :: 'a topology list) (us :: 'b topology list) \<Longrightarrow> map forget ts = map forget us"
  by (induction t u and ts us rule: topology_eq_children_eq.induct) simp_all

lemma forget_brackets:
  fixes t :: "'a topology" and u :: "'b topology"
  assumes "canonical t" "canonical u" "forget t = forget u"
  shows "brackets t = brackets u"
  using assms
proof (induction t arbitrary: u)
  case (Topology d xs)
  obtain d' ys where u: "u = Topology d' ys" by (cases u)
  have same: "brackets x = brackets y" if "x \<in> set xs" "y \<in> set ys" "forget x = forget y" for x y
    using Topology that by (auto simp: u)
  have m: "mset (map forget xs) = mset (map forget ys)" using Topology.prems by (simp add: u)
  define g where "g v = (SOME b. \<exists>y \<in> set ys. forget y = v \<and> brackets y = b)" for v
  have g: "\<exists>z \<in> set ys. forget z = forget y \<and> brackets z = g (forget y)" if "y \<in> set ys" for y
    unfolding g_def by (rule someI_ex) (use that in blast)
  have partner: "\<exists>y \<in> set ys. forget y = forget x" if "x \<in> set xs" for x
  proof -
    have "forget x \<in># mset (map forget xs)" using that by simp
    then show ?thesis unfolding m by auto
  qed
  have partner': "\<exists>x \<in> set xs. forget x = forget y" if "y \<in> set ys" for y
  proof -
    have "forget y \<in># mset (map forget ys)" using that by simp
    then show ?thesis unfolding m [symmetric] by auto
  qed
  have gx: "g (forget x) = brackets x" if "x \<in> set xs" for x
    using partner [OF that] g same [OF that] by metis
  have gy: "g (forget y) = brackets y" if "y \<in> set ys" for y
    using partner' [OF that] gx same [OF _ that] by metis
  have "map brackets xs = map g (map forget xs)" by (simp add: gx)
  then have "mset (map brackets xs) = image_mset g (mset (map forget xs))" by (simp only: mset_map)
  also have "\<dots> = mset (map g (map forget ys))" unfolding m by (simp only: mset_map)
  also have "map g (map forget ys) = map brackets ys" by (simp add: gy)
  finally have "mset (map brackets xs) = mset (map brackets ys)" .
  moreover have "sorted (map brackets xs)" "sorted (map brackets ys)"
    using Topology.prems by (simp_all add: u)
  ultimately have "map brackets xs = map brackets ys"
    by (metis properties_for_sort)
  then show ?case by (simp add: u)
qed

lemma zip_topology_maps:
  fixes t :: "'a topology" and u :: "'b topology"
  shows "topology_eq t u \<Longrightarrow> map_data fst (zip_topology t u) = t \<and> map_data snd (zip_topology t u) = u"
    and "children_eq (ts :: 'a topology list) (us :: 'b topology list) \<Longrightarrow>
      map (map_data fst) (zip_children ts us) = ts \<and> map (map_data snd) (zip_children ts us) = us"
  by (induction t u and ts us rule: topology_eq_children_eq.induct) simp_all

fun preorder :: "'a topology \<Rightarrow> 'a list" where
  "preorder (Topology d cs) = d # concat (map preorder cs)"

lemma iter_collect_complete: "mset (iter_collect stack) = mset (concat (map preorder stack))"
proof (induction stack rule: iter_collect.induct)
  case (1 stack)
  show ?case
  proof (cases stack rule: rev_cases)
    case (snoc ts t)
    then have "iter_next stack = Some (get_data t, ts @ children t)" by (simp add: iter_next_def)
    then show ?thesis
      using 1 snoc by (subst iter_collect.simps) (cases t; simp)
  qed (simp add: iter_collect.simps iter_next_def)
qed

text \<open>The topologies that the constructors build.\<close>

inductive built :: "'a topology \<Rightarrow> bool" where
  built_new: "built (topology_new d)"
| built_children: "(\<And>c. c \<in> set cs \<Longrightarrow> built c) \<Longrightarrow> built (with_children d cs)"
| built_add: "built t \<Longrightarrow> built c \<Longrightarrow> built (add_child t c)"

lemma built_canonical: "built t \<Longrightarrow> canonical t"
  by (induction rule: built.induct) (auto intro: canonical_with_children canonical_add_child simp: topology_new_def)

section \<open>Properties\<close>

text \<open>
  C38: \<open>topology_cmp\<close> is a total order on structures that fits \<open>==\<close>: it says \<open>Equal\<close> exactly when
  \<open>topology_eq\<close> holds, swapping the arguments mirrors it, and \<open>Less\<close> is transitive.
\<close>

theorem topology_cmp_order:
  "(topology_cmp t u = Equal) = topology_eq t u
   \<and> (topology_cmp t u = Less) = (topology_cmp u t = Greater)
   \<and> \<not> (topology_cmp t u = Less \<and> topology_cmp u v = Less \<and> topology_cmp t v \<noteq> Less)"
  by (auto simp: topology_cmp_iff topology_eq_cmp)

text \<open>
  C38: on the topologies that \<open>topology_new\<close>, \<open>with_children\<close> and \<open>add_child\<close> build, equality is equality of unordered trees: the order in which services were attached does not
  matter, and different trees are told apart.
\<close>

theorem topology_eq_unordered:
  assumes "built t" and "built u"
  shows "topology_eq t u \<longleftrightarrow> forget t = forget u"
  using forget_topology_eq(1) [of t u] forget_brackets [OF assms [THEN built_canonical]]
  by (auto simp: topology_eq_cmp topology_cmp_iff)

theorem topology_eq_unordered_witness:
  "topology_eq
     (with_children ''root'' [topology_new ''a'', with_children ''b'' [topology_new ''c'']])
     (with_children ''root'' [with_children ''x'' [topology_new ''y''], topology_new ''z''])"
proof -
  let ?t = "with_children ''root'' [topology_new ''a'', with_children ''b'' [topology_new ''c'']]"
  let ?u = "with_children ''root'' [with_children ''x'' [topology_new ''y''], topology_new ''z'']"
  have "built ?t" "built ?u"
    by (rule built_children, auto intro!: built_children built_new)+
  moreover have "forget ?t = forget ?u"
    by (simp add: with_children_def sort_children_def topology_new_def)
  ultimately show ?thesis by (simp only: topology_eq_unordered)
qed

text \<open>
  Zipping topologies of equal structure loses nothing and misaligns nothing: both topologies are
  found again in the result, node by node.
\<close>

theorem zip_topology_equal:
  assumes "topology_eq t u"
  shows "map_data fst (zip_topology t u) = t \<and> map_data snd (zip_topology t u) = u"
  using assms by (rule zip_topology_maps)

theorem zip_topology_equal_witness:
  "map_data fst (zip_topology (with_children (1::nat) [topology_new 2]) (with_children ''a'' [topology_new ''b'']))
     = with_children 1 [topology_new 2]"
proof -
  have "topology_eq (with_children (1::nat) [topology_new 2]) (with_children ''a'' [topology_new ''b''])"
    by (simp add: with_children_def sort_children_def topology_new_def)
  from zip_topology_equal [OF this] show ?thesis by blast
qed

text \<open>
  The flattening iterator visits the data of every node exactly once, and ends.
\<close>

theorem flat_data_complete: "mset (flat_data t) = mset (preorder t)"
  by (simp add: flat_data_def iter_collect_complete)

end
