(* ===== verification/Containers.thy ===== *)
theory Containers
  imports Maps Topology
begin

text \<open>
  \<^verbatim>\<open>serpentine/src/engine/containerd/container_config.rs\<close>: the values nodes pass around for containers
  and services, the operations that derive a new state from an old one, and the topology of a
  container with its services. A service holds a container, whose configuration holds services, so
  the types are mutually recursive datatypes with the structs' fields as selectors.

  A \<open>Duration\<close> made by \<open>from_secs\<close> is its number of seconds. Joining paths belongs to the
  \<^verbatim>\<open>typed_path\<close> crate and quoting words to \<^verbatim>\<open>shell_words\<close>; both are parameters.
\<close>

record service_config =
  entrypoint :: ustr
  healthcheck :: "ustr \<times> nat"

datatype container_config = ContainerConfig
    (env: "(ustr, ustr) btree") (working_dir: ustr) (user: "ustr option")
    (services: "(ustr \<times> service_state) list")
and service_state = ServiceState (svc_container: container_state) (svc_config: service_config)
and container_state = ContainerState (snapshot: ustr) (config: container_config)

datatype container_like = Container container_state | Service service_state

section \<open>Configuration\<close>

definition get_env_var :: "ustr \<Rightarrow> container_config \<Rightarrow> ustr option" where
  "get_env_var name c = bt_get (env c) name"

definition set_working_dir :: "(ustr \<Rightarrow> ustr \<Rightarrow> ustr) \<Rightarrow> ustr \<Rightarrow> container_config \<Rightarrow> container_config" where
  "set_working_dir path_join dir c =
     ContainerConfig (env c) (path_join (working_dir c) dir) (user c) (services c)"

definition set_env_var :: "ustr \<Rightarrow> ustr \<Rightarrow> container_config \<Rightarrow> container_config" where
  "set_env_var name val c =
     ContainerConfig (bt_insert name val (env c)) (working_dir c) (user c) (services c)"

definition set_user :: "ustr \<Rightarrow> container_config \<Rightarrow> container_config" where
  "set_user u c = ContainerConfig (env c) (working_dir c) (Some u) (services c)"

definition with_service :: "service_state \<Rightarrow> ustr \<Rightarrow> container_config \<Rightarrow> container_config" where
  "with_service s hostname c =
     ContainerConfig (env c) (working_dir c) (user c) (bt_insert hostname s (services c))"

text \<open>\<open>str::split_once\<close> with a character.\<close>

fun split_once :: "uchar \<Rightarrow> ustr \<Rightarrow> (ustr \<times> ustr) option" where
  "split_once d [] = None"
| "split_once d (c # cs) =
     (if c = d then Some ([], cs)
      else map_option (\<lambda>(a, b). (c # a, b)) (split_once d cs))"

text \<open>
  The two \<open>From<oci_client::config::Config>\<close> conversions, on the fields of the image configuration
  that they read.
\<close>

definition config_from_oci :: "ustr list option \<Rightarrow> ustr option \<Rightarrow> ustr option \<Rightarrow> container_config" where
  "config_from_oci oci_env oci_working_dir oci_user =
     ContainerConfig
       (bt_collect (List.map_filter (split_once 61) (case oci_env of Some e \<Rightarrow> e | None \<Rightarrow> [])))
       (case oci_working_dir of Some dir \<Rightarrow> dir | None \<Rightarrow> ustr ''/'')
       oci_user
       []"

definition service_config_from_oci :: "(ustr list \<Rightarrow> ustr) \<Rightarrow> ustr list option \<Rightarrow> ustr list option \<Rightarrow> service_config" where
  "service_config_from_oci shell_join oci_entrypoint oci_cmd =
     (let words = (case oci_entrypoint of Some e \<Rightarrow> e | None \<Rightarrow> []) @
                  (case oci_cmd of Some c \<Rightarrow> c | None \<Rightarrow> [])
      in \<lparr>entrypoint = ustr ''exec '' @ shell_join words, healthcheck = (ustr ''exit 0'', 1)\<rparr>)"

definition service_config_default :: service_config where
  "service_config_default =
     \<lparr>entrypoint = ustr ''while true; do sleep 1; done'', healthcheck = (ustr ''exit 0'', 1)\<rparr>"

definition set_healthcheck :: "ustr \<Rightarrow> nat \<Rightarrow> service_config \<Rightarrow> service_config" where
  "set_healthcheck command timeout c = c\<lparr>healthcheck := (command, timeout)\<rparr>"

section \<open>States\<close>

definition update_service_config :: "(service_config \<Rightarrow> service_config) \<Rightarrow> service_state \<Rightarrow> service_state" where
  "update_service_config f s = ServiceState (svc_container s) (f (svc_config s))"

definition update_config :: "(container_config \<Rightarrow> container_config) \<Rightarrow> container_state \<Rightarrow> container_state" where
  "update_config f c = ContainerState (snapshot c) (f (config c))"

definition into_service :: "ustr \<Rightarrow> container_state \<Rightarrow> service_state" where
  "into_service entry c = ServiceState c (service_config_default\<lparr>entrypoint := entry\<rparr>)"

fun like_update_config :: "(container_config \<Rightarrow> container_config) \<Rightarrow> container_like \<Rightarrow> container_like" where
  "like_update_config f (Container c) = Container (update_config f c)"
| "like_update_config f (Service s) = Service (ServiceState (update_config f (svc_container s)) (svc_config s))"

text \<open>\<open>Deref\<close> and \<open>DerefMut\<close> (assignment through the reference) of \<open>ContainerLike\<close>.\<close>

fun like_deref :: "container_like \<Rightarrow> container_state" where
  "like_deref (Container c) = c"
| "like_deref (Service s) = svc_container s"

fun like_assign :: "container_state \<Rightarrow> container_like \<Rightarrow> container_like" where
  "like_assign c (Container _) = Container c"
| "like_assign c (Service s) = Service (ServiceState c (svc_config s))"

section \<open>Topology\<close>

record topology_node =
  state :: container_like
  hostname :: "ustr option"
  cmd :: "ustr option"

fun service_topology :: "ustr \<Rightarrow> service_state \<Rightarrow> topology_node topology" where
  "service_topology host (ServiceState (ContainerState snap (ContainerConfig e w u svcs)) sc) =
     with_children
       \<lparr>state = Service (ServiceState (ContainerState snap (ContainerConfig e w u svcs)) sc),
        hostname = Some host, cmd = None\<rparr>
       (map (\<lambda>(service_hostname, service). service_topology service_hostname service) svcs)"

definition container_topology :: "ustr \<Rightarrow> container_state \<Rightarrow> topology_node topology" where
  "container_topology command c =
     with_children \<lparr>state = Container c, hostname = None, cmd = Some command\<rparr>
       (map (\<lambda>(service_hostname, service). service_topology service_hostname service) (services (config c)))"

definition get_hostname :: "topology_node \<Rightarrow> ustr" where
  "get_hostname n = (case hostname n of Some h \<Rightarrow> h | None \<Rightarrow> ustr ''step'')"

definition get_cmd :: "topology_node \<Rightarrow> ustr" where
  "get_cmd n = (case (state n, cmd n) of
       (Container _, Some c) \<Rightarrow> c
     | (Service s, None) \<Rightarrow> entrypoint (svc_config s)
     | _ \<Rightarrow> ustr ''/bin/sh'')"

section \<open>Properties\<close>

lemma split_once_iff: "split_once d s = Some (a, b) \<longleftrightarrow> s = a @ d # b \<and> d \<notin> set a"
proof (induction s arbitrary: a)
  case (Cons c s)
  have "split_once d (c # s) = Some (a, b) \<longleftrightarrow>
      (if c = d then a = [] \<and> b = s else \<exists>a'. a = c # a' \<and> split_once d s = Some (a', b))"
    by auto
  with Cons show ?case by (cases a) auto
qed simp

lemma last_entry:
  assumes "61 \<notin> set name"
  shows "map_of (rev (List.map_filter (split_once 61) entries)) name = Some v \<longleftrightarrow>
     (\<exists>before after. entries = before @ (name @ 61 # v) # after \<and> (\<forall>w. name @ 61 # w \<notin> set after))"
    (is "?get entries \<longleftrightarrow> ?last entries")
proof (induction entries rule: rev_induct)
  case (snoc e entries)
  have mf: "List.map_filter f (xs @ [e]) = List.map_filter f xs @ (case f e of None \<Rightarrow> [] | Some y \<Rightarrow> [y])"
    for f :: "ustr \<Rightarrow> (ustr \<times> ustr) option" and xs
    by (simp add: List.map_filter_def split: option.split)
  show ?case
  proof (cases "\<exists>w. e = name @ 61 # w")
    case True
    then obtain w where e: "e = name @ 61 # w" by blast
    then have "split_once 61 e = Some (name, w)" using assms by (simp add: split_once_iff)
    then have "?get (entries @ [e]) \<longleftrightarrow> w = v" by (auto simp: mf)
    moreover have "?last (entries @ [e]) \<longleftrightarrow> w = v"
    proof
      assume "?last (entries @ [e])"
      then obtain before after where
        d: "entries @ [e] = before @ (name @ 61 # v) # after" "\<forall>w. name @ 61 # w \<notin> set after" by blast
      have "after = []"
      proof (rule ccontr)
        assume "after \<noteq> []"
        then have "e \<in> set after" using d(1) by (cases after rule: rev_cases) auto
        with d(2) e show False by blast
      qed
      with d(1) e show "w = v" by simp
    next
      assume "w = v"
      with e have "entries @ [e] = entries @ (name @ 61 # v) # []" by simp
      then show "?last (entries @ [e])" by (metis empty_iff list.set(1))
    qed
    ultimately show ?thesis by simp
  next
    case False
    have "?get (entries @ [e]) \<longleftrightarrow> ?get entries"
    proof (cases "split_once 61 e")
      case (Some kv)
      then have "fst kv \<noteq> name" using False by (cases kv) (auto simp: split_once_iff)
      then show ?thesis by (cases kv) (simp add: mf Some)
    qed (simp add: mf)
    moreover have "?last (entries @ [e]) \<longleftrightarrow> ?last entries"
    proof
      assume "?last (entries @ [e])"
      then obtain before after where
        d: "entries @ [e] = before @ (name @ 61 # v) # after" "\<forall>w. name @ 61 # w \<notin> set after" by blast
      with False obtain after' where "after = after' @ [e]"
        by (cases after rule: rev_cases) auto
      with d show "?last entries" by auto
    next
      assume "?last entries"
      then obtain before after where
        d: "entries = before @ (name @ 61 # v) # after" "\<forall>w. name @ 61 # w \<notin> set after" by blast
      then have "entries @ [e] = before @ (name @ 61 # v) # (after @ [e])" by simp
      moreover have "\<forall>w. name @ 61 # w \<notin> set (after @ [e])" using d(2) False by auto
      ultimately show "?last (entries @ [e])" by blast
    qed
    ultimately show ?thesis using snoc by simp
  qed
qed simp

lemma no_entry:
  assumes "61 \<in> set name"
  shows "map_of (rev (List.map_filter (split_once 61) entries)) name = None"
proof -
  have "name \<notin> fst ` set (List.map_filter (split_once 61) entries)"
  proof
    assume "name \<in> fst ` set (List.map_filter (split_once 61) entries)"
    then obtain e v where "split_once 61 e = Some (name, v)"
      by (auto simp: List.map_filter_def)
    with assms show False by (simp add: split_once_iff)
  qed
  then show ?thesis by (simp add: map_of_eq_None_iff)
qed

text \<open>
  The environment of an image: a variable has the value of the last entry \<open>name=value\<close> of that
  name, split at the first equals sign; entries without one count for nothing.
\<close>

theorem image_environment:
  "get_env_var name (config_from_oci (Some entries) dir usr) = Some v \<longleftrightarrow>
     61 \<notin> set name \<and>
     (\<exists>before after. entries = before @ (name @ 61 # v) # after \<and>
        (\<forall>w. name @ 61 # w \<notin> set after))"
  using last_entry [of name entries v] no_entry [of name entries]
  by (cases "61 \<in> set name") (simp_all add: get_env_var_def config_from_oci_def bt_get_collect)

definition service_node :: "ustr \<times> service_state \<Rightarrow> topology_node" where
  "service_node hs = \<lparr>state = Service (snd hs), hostname = Some (fst hs), cmd = None\<rparr>"

text \<open>The services a container starts, each attachment once, with their host names.\<close>

fun attached :: "container_state \<Rightarrow> (ustr \<times> service_state) list"
and attached_service :: "service_state \<Rightarrow> (ustr \<times> service_state) list" where
  "attached (ContainerState snap (ContainerConfig e w u svcs)) =
     concat (map (\<lambda>(h, s). (h, s) # attached_service s) svcs)"
| "attached_service (ServiceState c sc) = attached c"

lemma preorder_with_children:
  "mset (preorder (with_children d cs)) = add_mset d (mset (concat (map preorder cs)))"
proof -
  have "mset (concat (map preorder (sort_key brackets cs))) = sum_mset (image_mset (mset \<circ> preorder) (mset cs))"
    by (simp add: mset_concat flip: sum_mset_sum_list)
  also have "\<dots> = mset (concat (map preorder cs))" by (simp add: mset_concat flip: sum_mset_sum_list)
  finally show ?thesis by (simp add: with_children_def sort_children_key)
qed

lemma service_topology_nodes:
  "mset (preorder (service_topology h s)) = image_mset service_node (mset ((h, s) # attached_service s))"
proof (induction h s rule: service_topology.induct)
  case (1 host snap e w u svcs sc)
  have "mset (concat (map preorder (map (\<lambda>(h, s). service_topology h s) svcs)))
      = image_mset service_node (mset (concat (map (\<lambda>(h, s). (h, s) # attached_service s) svcs)))"
    using 1 by (induction svcs) (auto split: prod.split)
  then show ?case
    by (simp add: preorder_with_children) (simp add: service_node_def)
qed

lemma service_topology_canonical: "canonical (service_topology h s)"
  by (induction h s rule: service_topology.induct) (auto intro!: canonical_with_children)

text \<open>
  The topology of a container has the container at its root, running the given command under the
  host name \<open>step\<close>, and below it exactly one node per service attached to it, directly or through
  another service, running its own entry point under the name it was attached with; the fallback
  shell of \<open>get_cmd\<close> is not used, and the children are sorted at every level.
\<close>

theorem container_topology_nodes:
  "canonical (container_topology command c)
   \<and> mset (map (\<lambda>n. (get_hostname n, like_deref (state n), get_cmd n)) (flat_data (container_topology command c)))
     = add_mset (ustr ''step'', c, command)
         (mset (map (\<lambda>(h, s). (h, svc_container s, entrypoint (svc_config s))) (attached c)))"
proof
  show "canonical (container_topology command c)"
    by (auto simp: container_topology_def service_topology_canonical intro!: canonical_with_children)
  let ?view = "\<lambda>n. (get_hostname n, like_deref (state n), get_cmd n)"
  let ?root = "\<lparr>state = Container c, hostname = None, cmd = Some command\<rparr>"
  obtain snap e w u svcs where c: "c = ContainerState snap (ContainerConfig e w u svcs)"
    by (metis container_config.exhaust container_state.exhaust)
  have "mset (concat (map preorder (map (\<lambda>(h, s). service_topology h s) svcs)))
      = image_mset service_node (mset (concat (map (\<lambda>(h, s). (h, s) # attached_service s) svcs)))"
    by (induction svcs) (auto simp: service_topology_nodes)
  then have "mset (flat_data (container_topology command c)) = add_mset ?root (image_mset service_node (mset (attached c)))"
    by (simp add: flat_data_def iter_collect_complete container_topology_def preorder_with_children c)
  then have "mset (map ?view (flat_data (container_topology command c)))
      = image_mset ?view (add_mset ?root (image_mset service_node (mset (attached c))))"
    by simp
  also have "\<dots> = add_mset (ustr ''step'', c, command)
      (image_mset (?view \<circ> service_node) (mset (attached c)))"
    by (simp add: get_hostname_def get_cmd_def multiset.map_comp)
  also have "?view \<circ> service_node = (\<lambda>(h, s). (h, svc_container s, entrypoint (svc_config s)))"
    by (auto simp: service_node_def get_hostname_def get_cmd_def)
  finally show "mset (map ?view (flat_data (container_topology command c))) = add_mset (ustr ''step'', c, command)
      (mset (map (\<lambda>(h, s). (h, svc_container s, entrypoint (svc_config s))) (attached c)))"
    by simp
qed

end
