(* ===== verification/Data_Model.thy ===== *)
theory Data_Model
  imports Containers Spans
begin

text \<open>
  \<^verbatim>\<open>serpentine/src/engine/data_model.rs\<close>: the values nodes compute, their types, push-only stores
  and the graph. A \<open>FileSystem\<close> holds a provider behind a trait object, which is the type parameter
  \<open>'p\<close> here; its memoised content hash is left out, since it is determined by the provider. A
  \<open>StoreId\<close> is its index. An \<open>i128\<close> is an \<open>int\<close>.
\<close>

record 'p file_system =
  provider :: 'p
  producer :: "span option"

datatype 'p data =
    DInt int
  | DString ustr
  | DContainer container_state
  | DService service_state
  | DFileSystem "'p file_system"

datatype cacheable_data =
    CInt int
  | CString ustr
  | CContainer container_state
  | CService service_state

datatype data_type = TInt | TString | TContainer | TService | TFileSystem

fun data_type_of :: "'p data \<Rightarrow> data_type" where
  "data_type_of (DInt _) = TInt"
| "data_type_of (DString _) = TString"
| "data_type_of (DContainer _) = TContainer"
| "data_type_of (DService _) = TService"
| "data_type_of (DFileSystem _) = TFileSystem"

fun cacheable :: "'p data \<Rightarrow> cacheable_data option" where
  "cacheable (DInt i) = Some (CInt i)"
| "cacheable (DString s) = Some (CString s)"
| "cacheable (DContainer c) = Some (CContainer c)"
| "cacheable (DService s) = Some (CService s)"
| "cacheable (DFileSystem _) = None"

fun from_cacheable :: "cacheable_data \<Rightarrow> 'p data" where
  "from_cacheable (CInt i) = DInt i"
| "from_cacheable (CString s) = DString s"
| "from_cacheable (CContainer c) = DContainer c"
| "from_cacheable (CService s) = DService s"

definition fs_set_producer :: "span \<Rightarrow> 'p file_system \<Rightarrow> 'p file_system" where
  "fs_set_producer sp fs = (if producer fs = None then fs\<lparr>producer := Some sp\<rparr> else fs)"

fun set_producer :: "span \<Rightarrow> 'p data \<Rightarrow> 'p data" where
  "set_producer sp (DFileSystem fs) = DFileSystem (fs_set_producer sp fs)"
| "set_producer sp d = d"

fun describe_type :: "data_type \<Rightarrow> string" where
  "describe_type TInt = ''integer''"
| "describe_type TString = ''string''"
| "describe_type TContainer = ''container''"
| "describe_type TService = ''service''"
| "describe_type TFileSystem = ''file/folder''"

fun is_cacheable :: "data_type \<Rightarrow> bool" where
  "is_cacheable TFileSystem = False"
| "is_cacheable t = True"

lemma set_producer_type [simp]: "data_type_of (set_producer sp d) = data_type_of d"
  by (cases d) simp_all

section \<open>Stores\<close>

text \<open>
  What the compiler relies on when it keeps ids: pushing gives a fresh id, and every id given out
  before still denotes the same item.
\<close>

locale push_only_store =
  fixes empty :: 's
    and push :: "'a \<Rightarrow> 's \<Rightarrow> 's \<times> nat"
    and item :: "'s \<Rightarrow> nat \<Rightarrow> 'a option"
    and count :: "'s \<Rightarrow> nat"
  assumes count_empty: "count empty = 0"
    and count_push: "push x s = (s', i) \<Longrightarrow> count s' = Suc (count s)"
    and push_fresh: "push x s = (s', i) \<Longrightarrow> i = count s"
    and item_push: "push x s = (s', i) \<Longrightarrow> item s' j = (if j = i then Some x else item s j)"
    and item_valid: "item s j \<noteq> None \<longleftrightarrow> j < count s"
begin

lemma push_new: "push x s = (s', i) \<Longrightarrow> item s' i = Some x"
  by (simp add: item_push)

lemma push_keeps: "push x s = (s', i) \<Longrightarrow> j < count s \<Longrightarrow> item s' j = item s j"
  using item_push push_fresh by auto

fun push_all :: "'a list \<Rightarrow> 's \<Rightarrow> 's" where
  "push_all [] s = s"
| "push_all (x # xs) s = push_all xs (fst (push x s))"

lemma push_all_keeps: "j < count s \<Longrightarrow> item (push_all xs s) j = item s j"
proof (induction xs arbitrary: s)
  case (Cons x xs)
  obtain s' i where p: "push x s = (s', i)" by (cases "push x s")
  then have "j < count s'" using Cons.prems by (simp add: count_push)
  with Cons p show ?case by (simp add: push_keeps)
qed simp

end

type_synonym 'a store = "'a list"

definition store_new :: "'a store" where
  "store_new = []"

definition store_push :: "'a \<Rightarrow> 'a store \<Rightarrow> 'a store \<times> nat" where
  "store_push x s = (s @ [x], length s)"

definition store_item :: "'a store \<Rightarrow> nat \<Rightarrow> 'a option" where
  "store_item s i = (if i < length s then Some (s ! i) else None)"

text \<open>\<open>get\<close> panics on an id that is out of bounds.\<close>

definition store_get :: "'a store \<Rightarrow> nat \<Rightarrow> ('e, 'a) outcome" where
  "store_get s i = expect_some (store_item s i)"

definition store_len :: "'a store \<Rightarrow> nat" where
  "store_len s = length s"

interpretation st: push_only_store store_new store_push store_item store_len
  by unfold_locales (auto simp: store_new_def store_push_def store_item_def store_len_def nth_append)

lemma store_get_Ok_iff [outcome_simps]: "store_get s i = Ok x \<longleftrightarrow> i < length s \<and> s ! i = x"
  by (auto simp: store_get_def store_item_def expect_some_def)

lemma store_get_valid [simp]: "i < length s \<Longrightarrow> store_get s i = Ok (s ! i)"
  by (simp add: store_get_Ok_iff)

lemma store_get_not [simp]:
  "store_get s i \<noteq> Err e" "store_get s i \<noteq> NoFuel" "store_get s i = Panic \<longleftrightarrow> length s \<le> i"
  by (auto simp: store_get_def store_item_def expect_some_def)

section \<open>The graph\<close>

record node =
  kind :: nat
  inputs :: "nat list"
  phantom_inputs :: "nat list"

record node_metadata =
  location :: span
  stack_trace :: "span list"

type_synonym graph = "(node \<times> node_metadata) store"

section \<open>Properties\<close>

text \<open>
  The cacheable part of the data: \<open>from_cacheable\<close> undoes \<open>cacheable\<close> and reaches exactly the
  values that have a cacheable form, and a value has one exactly when its type says so, so nothing
  that \<open>Wrap\<close> decides to cache from the type is then refused, or the other way round.
\<close>

theorem cacheable_roundtrip:
  "(cacheable d = Some c \<longleftrightarrow> from_cacheable c = d)
   \<and> (cacheable d = None \<longleftrightarrow> \<not> is_cacheable (data_type_of d))"
  by (cases d; cases c) auto

text \<open>
  Ids of a push-only store stay valid: whatever is pushed afterwards, an id still gives the item
  it was issued for, without a panic.
\<close>

theorem store_ids_stable:
  assumes "i < store_len s"
  shows "store_get (fold (\<lambda>x s. fst (store_push x s)) xs s) i = (store_get s i :: ('e, 'a) outcome)"
proof -
  have "fold (\<lambda>x s. fst (store_push x s)) xs s = st.push_all xs s" by (induction xs arbitrary: s) simp_all
  then show ?thesis using st.push_all_keeps [OF assms, of xs] by (simp add: store_get_def)
qed

theorem store_ids_stable_witness:
  "store_get (fold (\<lambda>x s. fst (store_push x s)) [7, 8] [5::nat]) 0 = (Ok 5 :: (unit, nat) outcome)"
  using store_ids_stable [of 0 "[5::nat]" "[7, 8]", where ?'e = unit] by (simp add: store_len_def)

end
