(* ===== verification/Nodes.thy ===== *)
theory Nodes
  imports Data_Model
begin

text \<open>
  \<^verbatim>\<open>serpentine/src/engine/nodes.rs\<close>: the node implementations. The trait object \<open>Box<dyn NodeImpl>\<close>
  is the datatype \<open>node_impl\<close>; \<open>Wrap\<close> carries the function it wraps, the \<open>RawData\<close> types of its
  parameters and result that Rust's type inference picks from the function's signature, and its two
  flags. What the functions ask of containerd, the host and other crates is the record \<open>client\<close>:
  each operation takes and returns the state \<open>'w\<close> of the world and may fail with a report of its own.
\<close>

datatype return_type_error =
    RTypeMismatch (rt_expected: string) (rt_got: string) (argument_index: nat)
  | RArgumentCountMismatch string nat

section \<open>Raw data\<close>

datatype raw = RInt | RString | RContainer | RFileSystem | RService | RContainerLike

datatype 'p raw_value =
    VInt int
  | VString ustr
  | VContainer container_state
  | VFileSystem "'p file_system"
  | VService service_state
  | VContainerLike container_like

fun raw_kind :: "raw \<Rightarrow> data_type" where
  "raw_kind RInt = TInt"
| "raw_kind RString = TString"
| "raw_kind RContainer = TContainer"
| "raw_kind RFileSystem = TFileSystem"
| "raw_kind RService = TService"
| "raw_kind RContainerLike = TContainer"

fun raw_accepts :: "raw \<Rightarrow> data_type \<Rightarrow> bool" where
  "raw_accepts RContainerLike t = (t = TContainer \<or> t = TService)"
| "raw_accepts r t = (t = raw_kind r)"

fun from_data :: "raw \<Rightarrow> 'p data \<Rightarrow> 'p raw_value option" where
  "from_data RInt (DInt i) = Some (VInt i)"
| "from_data RString (DString s) = Some (VString s)"
| "from_data RContainer (DContainer c) = Some (VContainer c)"
| "from_data RFileSystem (DFileSystem fs) = Some (VFileSystem fs)"
| "from_data RService (DService s) = Some (VService s)"
| "from_data RContainerLike (DContainer c) = Some (VContainerLike (Container c))"
| "from_data RContainerLike (DService s) = Some (VContainerLike (Service s))"
| "from_data _ _ = None"

fun into_data :: "'p raw_value \<Rightarrow> 'p data" where
  "into_data (VInt i) = DInt i"
| "into_data (VString s) = DString s"
| "into_data (VContainer c) = DContainer c"
| "into_data (VFileSystem fs) = DFileSystem fs"
| "into_data (VService s) = DService s"
| "into_data (VContainerLike (Container c)) = DContainer c"
| "into_data (VContainerLike (Service s)) = DService s"

lemma from_data_accepts: "(\<exists>v. from_data r d = Some v) \<longleftrightarrow> raw_accepts r (data_type_of d)"
  by (cases r; cases d) auto

lemma into_from_data: "from_data r d = Some v \<Longrightarrow> into_data v = d"
  by (cases r; cases d) auto

section \<open>Implementations\<close>

datatype node_fn =
    F_image | F_image_service | F_exec | F_exec_output | F_from_host | F_export | F_to_host
  | F_with | F_with_working_dir | F_env | F_get_env | F_set_user | F_to_service | F_with_service
  | F_healthcheck | F_shell_escape

datatype 'p node_impl =
    Noop
  | LiteralNode "'p data"
  | All
  | Join
  | Wrap (wrap_function: node_fn) (wrap_args: "raw list") (wrap_return: raw)
      (passthrough_return: bool) (wrap_cache: bool)

definition wrap_new :: "node_fn \<Rightarrow> raw list \<Rightarrow> raw \<Rightarrow> 'p node_impl" where
  "wrap_new f args ret = Wrap f args ret False True"

fun passthrough :: "'p node_impl \<Rightarrow> 'p node_impl" where
  "passthrough (Wrap f args ret p c) = Wrap f args ret True c"
| "passthrough impl = impl"

fun uncached :: "'p node_impl \<Rightarrow> 'p node_impl" where
  "uncached (Wrap f args ret p c) = Wrap f args ret p False"
| "uncached impl = impl"

fun should_be_cached :: "'p node_impl \<Rightarrow> bool" where
  "should_be_cached (Wrap f args ret p c) = (c \<and> is_cacheable (raw_kind ret))"
| "should_be_cached _ = False"

text \<open>The argument checks that the macro unrolls, with \<open>first_type\<close> and \<open>argument_index\<close>.\<close>

fun check_arguments :: "raw list \<Rightarrow> data_type list \<Rightarrow> nat \<Rightarrow> data_type option \<Rightarrow>
    (return_type_error, data_type option) outcome" where
  "check_arguments [] arguments index first_type = Ok first_type"
| "check_arguments (r # rs) [] index first_type = check_arguments rs [] index first_type"
| "check_arguments (r # rs) (t # ts) index first_type =
     (if \<not> raw_accepts r t then
        Err (RTypeMismatch (describe_type (raw_kind r)) (describe_type t) index)
      else check_arguments rs ts (index + 1) (if first_type = None then Some t else first_type))"

fun join_check :: "data_type list \<Rightarrow> nat \<Rightarrow> (return_type_error, data_type) outcome" where
  "join_check [] index = Ok TString"
| "join_check (t # ts) index =
     (if t \<noteq> TString then Err (RTypeMismatch (describe_type TString) (describe_type t) index)
      else join_check ts (index + 1))"

definition wrap_return_type :: "raw list \<Rightarrow> raw \<Rightarrow> bool \<Rightarrow> data_type list \<Rightarrow> (return_type_error, data_type) outcome" where
  [simp]: "wrap_return_type args ret pass arguments =
     (if length arguments \<noteq> length args then
        Err (RArgumentCountMismatch (dec (length args)) (length arguments))
      else and_then (check_arguments args arguments 0 None) (\<lambda>first_type.
        if pass then ok_or first_type (RArgumentCountMismatch ''1+'' 0)
        else Ok (raw_kind ret)))"

definition noop_return_type :: "data_type list \<Rightarrow> (return_type_error, data_type) outcome" where
  [simp]: "noop_return_type arguments = (case arguments of
       [t] \<Rightarrow> Ok t
     | _ \<Rightarrow> Err (RArgumentCountMismatch ''1'' (length arguments)))"

definition literal_return_type :: "'p data \<Rightarrow> data_type list \<Rightarrow> (return_type_error, data_type) outcome" where
  [simp]: "literal_return_type d arguments = Ok (data_type_of d)"

definition all_return_type :: "data_type list \<Rightarrow> (return_type_error, data_type) outcome" where
  [simp]: "all_return_type arguments = (case arguments of
       t # _ \<Rightarrow> Ok t
     | [] \<Rightarrow> Err (RArgumentCountMismatch ''1+'' 0))"

fun return_type :: "'p node_impl \<Rightarrow> data_type list \<Rightarrow> (return_type_error, data_type) outcome" where
  "return_type (Wrap f args ret pass c) arguments = wrap_return_type args ret pass arguments"
| "return_type Noop arguments = noop_return_type arguments"
| "return_type (LiteralNode d) arguments = literal_return_type d arguments"
| "return_type All arguments = all_return_type arguments"
| "return_type Join arguments = join_check arguments 0"

section \<open>The prelude\<close>

definition NOOP_NAME :: ustr where
  "NOOP_NAME = ustr ''Noop''"

definition prelude :: "(ustr \<times> 'p node_impl) list" where
  "prelude =
    [(NOOP_NAME, Noop),
     (ustr ''Image'', wrap_new F_image [RString] RContainer),
     (ustr ''ImageService'', wrap_new F_image_service [RString] RService),
     (ustr ''Exec'', passthrough (wrap_new F_exec [RContainerLike, RString] RContainerLike)),
     (ustr ''ExecOutput'', wrap_new F_exec_output [RContainerLike, RString] RString),
     (ustr ''FromHost'', uncached (wrap_new F_from_host [RString] RFileSystem)),
     (ustr ''Export'', uncached (wrap_new F_export [RContainerLike, RString] RFileSystem)),
     (ustr ''ToHost'', uncached (wrap_new F_to_host [RFileSystem, RString] RInt)),
     (ustr ''With'', passthrough (wrap_new F_with [RContainerLike, RFileSystem, RString] RContainerLike)),
     (ustr ''WorkingDir'', uncached (passthrough
        (wrap_new F_with_working_dir [RContainerLike, RString] RContainerLike))),
     (ustr ''Env'', uncached (passthrough (wrap_new F_env [RContainerLike, RString, RString] RContainerLike))),
     (ustr ''GetEnv'', uncached (wrap_new F_get_env [RContainerLike, RString] RString)),
     (ustr ''User'', uncached (passthrough (wrap_new F_set_user [RContainerLike, RString] RContainerLike))),
     (ustr ''Join'', Join),
     (ustr ''All'', All),
     (ustr ''ToService'', uncached (wrap_new F_to_service [RContainer, RString] RService)),
     (ustr ''WithService'', uncached (passthrough
        (wrap_new F_with_service [RContainerLike, RService, RString] RContainerLike))),
     (ustr ''HealthCheck'', uncached (wrap_new F_healthcheck [RService, RString, RInt] RService)),
     (ustr ''ShellEscape'', uncached (wrap_new F_shell_escape [RString] RString))]"

section \<open>Execution\<close>

datatype 'e report =
    Internal string
  | TimeoutOutOfRange int
  | External 'e

type_synonym ('w, 'e, 'a) effect = "'w \<Rightarrow> ('e report, 'a) outcome \<times> 'w"

record ('w, 'e, 'p) client =
  pull_image :: "ustr \<Rightarrow> 'w \<Rightarrow> ('e + container_state) \<times> 'w"
  pull_service :: "ustr \<Rightarrow> 'w \<Rightarrow> ('e + service_state) \<times> 'w"
  client_exec :: "container_state \<Rightarrow> ustr \<Rightarrow> 'w \<Rightarrow> ('e + container_state) \<times> 'w"
  exec_get_output :: "container_state \<Rightarrow> ustr \<Rightarrow> 'w \<Rightarrow> ('e + ustr) \<times> 'w"
  export_path :: "container_state \<Rightarrow> ustr \<Rightarrow> 'w \<Rightarrow> ('e + 'p file_system) \<times> 'w"
  copy_fs_into_container :: "container_state \<Rightarrow> 'p file_system \<Rightarrow> ustr \<Rightarrow> 'w \<Rightarrow> ('e + container_state) \<times> 'w"
  write_to_host :: "'p file_system \<Rightarrow> ustr \<Rightarrow> 'w \<Rightarrow> ('e + unit) \<times> 'w"
  local_files :: "ustr \<Rightarrow> 'p"
  path_join :: "ustr \<Rightarrow> ustr \<Rightarrow> ustr"
  shell_quote :: "ustr \<Rightarrow> ustr"

text \<open>Calling the client: its failure is the node's failure (\<open>?\<close>), its value is used further.\<close>

definition call :: "('e + 'a) \<times> 'w \<Rightarrow> ('a \<Rightarrow> 'b) \<Rightarrow> ('e report, 'b) outcome \<times> 'w" where
  "call rw f = (case rw of (Inl e, w) \<Rightarrow> (Err (External e), w) | (Inr x, w) \<Rightarrow> (Ok (f x), w))"

text \<open>The functions behind the nodes, one definition per function.\<close>

definition fn_image :: "('w, 'e, 'p) client \<Rightarrow> ustr \<Rightarrow> ('w, 'e, container_state) effect" where
  [simp]: "fn_image cl img w = call (pull_image cl img w) id"

definition fn_image_service :: "('w, 'e, 'p) client \<Rightarrow> ustr \<Rightarrow> ('w, 'e, service_state) effect" where
  [simp]: "fn_image_service cl img w = call (pull_service cl img w) id"

definition fn_exec :: "('w, 'e, 'p) client \<Rightarrow> container_like \<Rightarrow> ustr \<Rightarrow> ('w, 'e, container_like) effect" where
  [simp]: "fn_exec cl c command w = call (client_exec cl (like_deref c) command w) (\<lambda>s. like_assign s c)"

definition fn_exec_output :: "('w, 'e, 'p) client \<Rightarrow> container_like \<Rightarrow> ustr \<Rightarrow> ('w, 'e, ustr) effect" where
  [simp]: "fn_exec_output cl c command w = call (exec_get_output cl (like_deref c) command w) id"

definition fn_from_host :: "('w, 'e, 'p) client \<Rightarrow> ustr \<Rightarrow> ('w, 'e, 'p file_system) effect" where
  [simp]: "fn_from_host cl src w = (Ok \<lparr>provider = local_files cl src, producer = None\<rparr>, w)"

definition fn_export :: "('w, 'e, 'p) client \<Rightarrow> container_like \<Rightarrow> ustr \<Rightarrow> ('w, 'e, 'p file_system) effect" where
  [simp]: "fn_export cl c path w = call (export_path cl (like_deref c) path w) id"

definition fn_to_host :: "('w, 'e, 'p) client \<Rightarrow> 'p file_system \<Rightarrow> ustr \<Rightarrow> ('w, 'e, int) effect" where
  [simp]: "fn_to_host cl fs path w = call (write_to_host cl fs path w) (\<lambda>_. 0)"

definition fn_with :: "('w, 'e, 'p) client \<Rightarrow> container_like \<Rightarrow> 'p file_system \<Rightarrow> ustr \<Rightarrow>
    ('w, 'e, container_like) effect" where
  [simp]: "fn_with cl c fs path w =
     call (copy_fs_into_container cl (like_deref c) fs path w) (\<lambda>s. like_assign s c)"

definition fn_with_working_dir :: "('w, 'e, 'p) client \<Rightarrow> container_like \<Rightarrow> ustr \<Rightarrow>
    ('w, 'e, container_like) effect" where
  [simp]: "fn_with_working_dir cl c dir w =
     (Ok (like_update_config (set_working_dir (path_join cl) dir) c), w)"

definition fn_env :: "container_like \<Rightarrow> ustr \<Rightarrow> ustr \<Rightarrow> ('w, 'e, container_like) effect" where
  [simp]: "fn_env c name val w = (Ok (like_update_config (set_env_var name val) c), w)"

definition fn_get_env :: "container_like \<Rightarrow> ustr \<Rightarrow> ('w, 'e, ustr) effect" where
  [simp]: "fn_get_env c name w =
     (Ok (case get_env_var name (config (like_deref c)) of Some v \<Rightarrow> v | None \<Rightarrow> []), w)"

definition fn_set_user :: "container_like \<Rightarrow> ustr \<Rightarrow> ('w, 'e, container_like) effect" where
  [simp]: "fn_set_user c u w = (Ok (like_update_config (set_user u) c), w)"

definition fn_to_service :: "container_state \<Rightarrow> ustr \<Rightarrow> ('w, 'e, service_state) effect" where
  [simp]: "fn_to_service c entry w = (Ok (into_service entry c), w)"

definition fn_with_service :: "container_like \<Rightarrow> service_state \<Rightarrow> ustr \<Rightarrow> ('w, 'e, container_like) effect" where
  [simp]: "fn_with_service c s host w = (Ok (like_update_config (with_service s host) c), w)"

definition fn_healthcheck :: "service_state \<Rightarrow> ustr \<Rightarrow> int \<Rightarrow> ('w, 'e, service_state) effect" where
  [simp]: "fn_healthcheck s command timeout_seconds w =
     (if 0 \<le> timeout_seconds \<and> timeout_seconds < 2 ^ 64 then
        (Ok (update_service_config (set_healthcheck command (nat timeout_seconds)) s), w)
      else (Err (TimeoutOutOfRange timeout_seconds), w))"

definition fn_shell_escape :: "('w, 'e, 'p) client \<Rightarrow> ustr \<Rightarrow> ('w, 'e, ustr) effect" where
  [simp]: "fn_shell_escape cl input w = (Ok (shell_quote cl input), w)"

text \<open>
  The call \<open>(self.function)(context, A, B, C)\<close> of the macro, with its result wrapped into the type of
  all values. The macro only builds wraps whose argument types are the function's, so that other argument
  lists cannot occur (\<open>run_function_sound\<close>).
\<close>

definition returning :: "('a \<Rightarrow> 'b) \<Rightarrow> ('w, 'e, 'a) effect \<Rightarrow> ('w, 'e, 'b) effect" where
  "returning f m w = (case m w of
       (Ok v, w) \<Rightarrow> (Ok (f v), w)
     | (Err e, w) \<Rightarrow> (Err e, w)
     | (Panic, w) \<Rightarrow> (Panic, w)
     | (NoFuel, w) \<Rightarrow> (NoFuel, w))"

definition run_function :: "('w, 'e, 'p) client \<Rightarrow> node_fn \<Rightarrow> 'p raw_value list \<Rightarrow> ('w, 'e, 'p raw_value) effect" where
  "run_function cl f vs = (case f of
       F_image \<Rightarrow> (case vs of [VString img] \<Rightarrow>
           returning VContainer (fn_image cl img)
         | _ \<Rightarrow> (\<lambda>w. (Panic, w)))
     | F_image_service \<Rightarrow> (case vs of [VString img] \<Rightarrow>
           returning VService (fn_image_service cl img)
         | _ \<Rightarrow> (\<lambda>w. (Panic, w)))
     | F_exec \<Rightarrow> (case vs of [VContainerLike c, VString command] \<Rightarrow>
           returning VContainerLike (fn_exec cl c command)
         | _ \<Rightarrow> (\<lambda>w. (Panic, w)))
     | F_exec_output \<Rightarrow> (case vs of [VContainerLike c, VString command] \<Rightarrow>
           returning VString (fn_exec_output cl c command)
         | _ \<Rightarrow> (\<lambda>w. (Panic, w)))
     | F_from_host \<Rightarrow> (case vs of [VString src] \<Rightarrow>
           returning VFileSystem (fn_from_host cl src)
         | _ \<Rightarrow> (\<lambda>w. (Panic, w)))
     | F_export \<Rightarrow> (case vs of [VContainerLike c, VString path] \<Rightarrow>
           returning VFileSystem (fn_export cl c path)
         | _ \<Rightarrow> (\<lambda>w. (Panic, w)))
     | F_to_host \<Rightarrow> (case vs of [VFileSystem fs, VString path] \<Rightarrow>
           returning VInt (fn_to_host cl fs path)
         | _ \<Rightarrow> (\<lambda>w. (Panic, w)))
     | F_with \<Rightarrow> (case vs of [VContainerLike c, VFileSystem fs, VString path] \<Rightarrow>
           returning VContainerLike (fn_with cl c fs path)
         | _ \<Rightarrow> (\<lambda>w. (Panic, w)))
     | F_with_working_dir \<Rightarrow> (case vs of [VContainerLike c, VString dir] \<Rightarrow>
           returning VContainerLike (fn_with_working_dir cl c dir)
         | _ \<Rightarrow> (\<lambda>w. (Panic, w)))
     | F_env \<Rightarrow> (case vs of [VContainerLike c, VString name, VString val] \<Rightarrow>
           returning VContainerLike (fn_env c name val)
         | _ \<Rightarrow> (\<lambda>w. (Panic, w)))
     | F_get_env \<Rightarrow> (case vs of [VContainerLike c, VString name] \<Rightarrow>
           returning VString (fn_get_env c name)
         | _ \<Rightarrow> (\<lambda>w. (Panic, w)))
     | F_set_user \<Rightarrow> (case vs of [VContainerLike c, VString u] \<Rightarrow>
           returning VContainerLike (fn_set_user c u)
         | _ \<Rightarrow> (\<lambda>w. (Panic, w)))
     | F_to_service \<Rightarrow> (case vs of [VContainer c, VString entry] \<Rightarrow>
           returning VService (fn_to_service c entry)
         | _ \<Rightarrow> (\<lambda>w. (Panic, w)))
     | F_with_service \<Rightarrow> (case vs of [VContainerLike c, VService s, VString host] \<Rightarrow>
           returning VContainerLike (fn_with_service c s host)
         | _ \<Rightarrow> (\<lambda>w. (Panic, w)))
     | F_healthcheck \<Rightarrow> (case vs of [VService s, VString command, VInt timeout_seconds] \<Rightarrow>
           returning VService (fn_healthcheck s command timeout_seconds)
         | _ \<Rightarrow> (\<lambda>w. (Panic, w)))
     | F_shell_escape \<Rightarrow> (case vs of [VString input] \<Rightarrow>
           returning VString (fn_shell_escape cl input)
         | _ \<Rightarrow> (\<lambda>w. (Panic, w))))"

fun take_inputs :: "raw list \<Rightarrow> 'p data list \<Rightarrow> ('e report, 'p data list) outcome" where
  "take_inputs [] ds = Ok []"
| "take_inputs (r # rs) [] = Err (Internal ''Missing arguments at runtime'')"
| "take_inputs (r # rs) (d # ds) = and_then (take_inputs rs ds) (\<lambda>ds'. Ok (d # ds'))"

fun unwrap_inputs :: "raw list \<Rightarrow> 'p data list \<Rightarrow> ('e report, 'p raw_value list) outcome" where
  "unwrap_inputs (r # rs) (d # ds) =
     and_then (ok_or (from_data r d) (Internal ''Type mismatch at runtime'')) (\<lambda>v.
     and_then (unwrap_inputs rs ds) (\<lambda>vs. Ok (v # vs)))"
| "unwrap_inputs _ _ = Ok []"

fun join_strings :: "'p data list \<Rightarrow> ustr \<Rightarrow> ('e report, ustr) outcome" where
  "join_strings [] result = Ok result"
| "join_strings (DString s # ds) result = join_strings ds (result @ s)"
| "join_strings (d # ds) result = Err (Internal ''Type mismatch at runtime'')"

definition wrap_execute :: "('w, 'e, 'p) client \<Rightarrow> node_fn \<Rightarrow> raw list \<Rightarrow> 'p data list \<Rightarrow>
    ('w, 'e, 'p data) effect" where
  "wrap_execute cl f args ins w = (case and_then (take_inputs args ins) (unwrap_inputs args) of
       Ok vs \<Rightarrow> returning into_data (run_function cl f vs) w
     | Err e \<Rightarrow> (Err e, w)
     | Panic \<Rightarrow> (Panic, w)
     | NoFuel \<Rightarrow> (NoFuel, w))"

definition noop_execute :: "'p data list \<Rightarrow> ('w, 'e, 'p data) effect" where
  [simp]: "noop_execute ins w =
     (case ins of d # _ \<Rightarrow> (Ok d, w) | [] \<Rightarrow> (Err (Internal ''Argument count mismatch at runtime''), w))"

definition literal_execute :: "'p data \<Rightarrow> 'p data list \<Rightarrow> ('w, 'e, 'p data) effect" where
  [simp]: "literal_execute d ins w = (Ok d, w)"

definition all_execute :: "'p data list \<Rightarrow> ('w, 'e, 'p data) effect" where
  [simp]: "all_execute ins w =
     (case ins of d # _ \<Rightarrow> (Ok d, w) | [] \<Rightarrow> (Err (Internal ''All node ran with no arguments''), w))"

definition join_execute :: "'p data list \<Rightarrow> ('w, 'e, 'p data) effect" where
  [simp]: "join_execute ins w = (and_then (join_strings ins []) (\<lambda>s. Ok (DString s)), w)"

fun execute :: "('w, 'e, 'p) client \<Rightarrow> 'p node_impl \<Rightarrow> 'p data list \<Rightarrow> ('w, 'e, 'p data) effect" where
  "execute cl (Wrap f args ret pass c) ins = wrap_execute cl f args ins"
| "execute cl Noop ins = noop_execute ins"
| "execute cl (LiteralNode d) ins = literal_execute d ins"
| "execute cl All ins = all_execute ins"
| "execute cl Join ins = join_execute ins"

section \<open>Types\<close>

lemma check_arguments_Ok:
  "check_arguments rs ts i ft = Ok ft' \<Longrightarrow> length ts = length rs \<Longrightarrow>
    list_all2 raw_accepts rs ts \<and> ft' = (if ft \<noteq> None then ft else if ts = [] then None else Some (hd ts))"
  by (induction rs ts i ft rule: check_arguments.induct) (auto split: if_split_asm)

lemma check_arguments_all:
  "list_all2 raw_accepts rs ts \<Longrightarrow>
    check_arguments rs ts i ft = Ok (if ft \<noteq> None then ft else if ts = [] then None else Some (hd ts))"
  by (induction rs ts arbitrary: i ft rule: list_all2_induct) auto

lemma check_arguments_Err:
  "check_arguments rs ts i ft = Err e \<Longrightarrow> length ts = length rs \<Longrightarrow>
    \<exists>k < length ts. \<not> raw_accepts (rs ! k) (ts ! k) \<and> list_all2 raw_accepts (take k rs) (take k ts) \<and>
      e = RTypeMismatch (describe_type (raw_kind (rs ! k))) (describe_type (ts ! k)) (i + k)"
proof (induction rs ts i ft rule: check_arguments.induct)
  case (3 r rs t ts i ft)
  show ?case
  proof (cases "raw_accepts r t")
    case True
    with 3 obtain k where "k < length ts" "\<not> raw_accepts (rs ! k) (ts ! k)"
        "list_all2 raw_accepts (take k rs) (take k ts)"
        "e = RTypeMismatch (describe_type (raw_kind (rs ! k))) (describe_type (ts ! k)) (i + 1 + k)"
      by auto
    with True show ?thesis by (intro exI [of _ "Suc k"]) simp
  next
    case False
    with 3 show ?thesis by (intro exI [of _ 0]) simp
  qed
qed simp_all

lemma check_arguments_returns [simp]: "check_arguments rs ts i ft \<noteq> Panic" "check_arguments rs ts i ft \<noteq> NoFuel"
  by (induction rs ts i ft rule: check_arguments.induct) simp_all

lemma join_check_Ok: "join_check ts i = Ok t \<longleftrightarrow> (\<forall>x \<in> set ts. x = TString) \<and> t = TString"
  by (induction ts i rule: join_check.induct) auto

lemma join_check_Err:
  "join_check ts i = Err e \<Longrightarrow> \<exists>k < length ts. ts ! k \<noteq> TString \<and> (\<forall>j < k. ts ! j = TString) \<and>
     e = RTypeMismatch (describe_type TString) (describe_type (ts ! k)) (i + k)"
proof (induction ts i rule: join_check.induct)
  case (2 t ts i)
  show ?case
  proof (cases "t = TString")
    case True
    with 2 obtain k where "k < length ts" "ts ! k \<noteq> TString" "\<forall>j < k. ts ! j = TString"
        "e = RTypeMismatch (describe_type TString) (describe_type (ts ! k)) (i + 1 + k)"
      by auto
    with True show ?thesis by (intro exI [of _ "Suc k"]) (auto simp: less_Suc_eq_0_disj)
  next
    case False
    with 2 show ?thesis by (intro exI [of _ 0]) simp
  qed
qed simp

lemma join_check_returns [simp]: "join_check ts i \<noteq> Panic" "join_check ts i \<noteq> NoFuel"
  by (induction ts i rule: join_check.induct) simp_all

lemma take_inputs_all: "length ds = length rs \<Longrightarrow> take_inputs rs ds = Ok ds"
  by (induction rs ds rule: take_inputs.induct) auto

fun is_raw :: "raw \<Rightarrow> 'p raw_value \<Rightarrow> bool" where
  "is_raw RInt (VInt _) = True"
| "is_raw RString (VString _) = True"
| "is_raw RContainer (VContainer _) = True"
| "is_raw RFileSystem (VFileSystem _) = True"
| "is_raw RService (VService _) = True"
| "is_raw RContainerLike (VContainerLike _) = True"
| "is_raw _ _ = False"

lemma from_data_is_raw: "from_data r d = Some v \<Longrightarrow> is_raw r v"
  by (cases r; cases d) auto

lemma raw_accepts_from_data:
  assumes "raw_accepts r (data_type_of d)"
  obtains v where "from_data r d = Some v" "is_raw r v" "into_data v = d"
  using assms from_data_accepts [of r d] from_data_is_raw into_from_data by blast

lemma unwrap_inputs_all:
  assumes "list_all2 (\<lambda>r d. raw_accepts r (data_type_of d)) rs (ds :: 'p data list)"
  shows "\<exists>vs. (unwrap_inputs rs ds :: ('e report, 'p raw_value list) outcome) = Ok vs
    \<and> list_all2 is_raw rs vs \<and> map into_data vs = ds"
  using assms
proof (induction rs ds rule: list_all2_induct)
  case (Cons r rs d ds)
  from Cons.IH obtain vs where vs: "(unwrap_inputs rs ds :: ('e report, 'p raw_value list) outcome) = Ok vs"
    "list_all2 is_raw rs vs" "map into_data vs = ds" by blast
  from Cons.hyps(1) obtain v where "from_data r d = Some v" "is_raw r v" "into_data v = d"
    by (rule raw_accepts_from_data)
  with vs show ?case by simp
qed simp

lemma return_type_returns [simp]: "return_type impl ts \<noteq> Panic" "return_type impl ts \<noteq> NoFuel"
  by (cases impl; auto simp: outcome_simps ok_or_def split: list.split option.split_asm)+

text \<open>What the wrapped functions do with arguments of their parameters' types.\<close>

fun signature :: "node_fn \<Rightarrow> raw list \<times> raw \<times> bool" where
  "signature F_image = ([RString], RContainer, False)"
| "signature F_image_service = ([RString], RService, False)"
| "signature F_exec = ([RContainerLike, RString], RContainerLike, True)"
| "signature F_exec_output = ([RContainerLike, RString], RString, False)"
| "signature F_from_host = ([RString], RFileSystem, False)"
| "signature F_export = ([RContainerLike, RString], RFileSystem, False)"
| "signature F_to_host = ([RFileSystem, RString], RInt, False)"
| "signature F_with = ([RContainerLike, RFileSystem, RString], RContainerLike, True)"
| "signature F_with_working_dir = ([RContainerLike, RString], RContainerLike, True)"
| "signature F_env = ([RContainerLike, RString, RString], RContainerLike, True)"
| "signature F_get_env = ([RContainerLike, RString], RString, False)"
| "signature F_set_user = ([RContainerLike, RString], RContainerLike, True)"
| "signature F_to_service = ([RContainer, RString], RService, False)"
| "signature F_with_service = ([RContainerLike, RService, RString], RContainerLike, True)"
| "signature F_healthcheck = ([RService, RString, RInt], RService, False)"
| "signature F_shell_escape = ([RString], RString, False)"

definition well_signed :: "'p node_impl \<Rightarrow> bool" where
  "well_signed impl = (case impl of Wrap f args ret p c \<Rightarrow> signature f = (args, ret, p) | _ \<Rightarrow> True)"

lemma prelude_well_signed: "impl \<in> snd ` set prelude \<Longrightarrow> well_signed impl"
  by (auto simp: prelude_def wrap_new_def well_signed_def)

text \<open>Outcomes of a node that is run with inputs of the right types: no internal error.\<close>

fun ran_well :: "('a \<Rightarrow> bool) \<Rightarrow> ('e report, 'a) outcome \<Rightarrow> bool" where
  "ran_well P (Ok x) = P x"
| "ran_well P (Err (Internal msg)) = False"
| "ran_well P (Err _) = True"
| "ran_well P _ = False"

lemma ran_well_iff:
  "ran_well P r \<longleftrightarrow> (case r of Ok x \<Rightarrow> P x | Err e \<Rightarrow> (case e of Internal _ \<Rightarrow> False | _ \<Rightarrow> True) | _ \<Rightarrow> False)"
  by (cases r) (auto split: report.split)

lemma ran_well_call [simp]: "ran_well P (fst (call rw f)) \<longleftrightarrow> (\<forall>x. fst rw = Inr x \<longrightarrow> P (f x))"
  by (auto simp: call_def split: prod.split sum.split)

lemma ran_well_returning [simp]: "ran_well P (fst (returning f m w)) \<longleftrightarrow> ran_well (\<lambda>x. P (f x)) (fst (m w))"
  by (auto simp: returning_def ran_well_iff split: prod.split outcome.split report.split)

lemma into_data_like [simp]:
  "data_type_of (into_data (VContainerLike (like_assign s c))) = data_type_of (into_data (VContainerLike c))"
  "data_type_of (into_data (VContainerLike (like_update_config g c))) = data_type_of (into_data (VContainerLike c))"
  by (cases c; simp)+

lemma run_function_sound:
  assumes "signature f = (args, ret, p)" and "list_all2 is_raw args vs"
  shows "ran_well (\<lambda>v. data_type_of (into_data v) =
    (if p then data_type_of (into_data (hd vs)) else raw_kind ret)) (fst (run_function cl f vs w))"
proof -
  have one: "\<exists>v. vs = [v] \<and> is_raw r v" if "list_all2 is_raw [r] vs" for r
    using that by (auto simp: list_all2_Cons1)
  have two: "\<exists>v v'. vs = [v, v'] \<and> is_raw r v \<and> is_raw r' v'" if "list_all2 is_raw [r, r'] vs" for r r'
    using that by (auto simp: list_all2_Cons1)
  have three: "\<exists>v v' v''. vs = [v, v', v''] \<and> is_raw r v \<and> is_raw r' v' \<and> is_raw r'' v''"
    if "list_all2 is_raw [r, r', r''] vs" for r r' r''
    using that by (auto simp: list_all2_Cons1)
  have raws: "is_raw RInt v \<longleftrightarrow> (\<exists>x. v = VInt x)" "is_raw RString v \<longleftrightarrow> (\<exists>x. v = VString x)"
    "is_raw RContainer v \<longleftrightarrow> (\<exists>x. v = VContainer x)" "is_raw RFileSystem v \<longleftrightarrow> (\<exists>x. v = VFileSystem x)"
    "is_raw RService v \<longleftrightarrow> (\<exists>x. v = VService x)" "is_raw RContainerLike v \<longleftrightarrow> (\<exists>x. v = VContainerLike x)" for v
    by (cases v; simp)+
  show ?thesis
    using assms
    by (cases f) (auto dest!: one two three simp: raws run_function_def simp del: into_data.simps, (simp; fail)+)
qed

lemma wrap_execute_sound:
  fixes cl :: "('w, 'e, 'p) client"
  assumes "signature f = (args, ret, p)" and "return_type (Wrap f args ret p c) (map data_type_of ds) = Ok t"
  shows "ran_well (\<lambda>d. data_type_of d = t) (fst (execute cl (Wrap f args ret p c) ds w))"
proof -
  have len: "length ds = length args"
    using assms(2) by (auto split: if_split_asm)
  then obtain ft where ft: "check_arguments args (map data_type_of ds) 0 None = Ok ft"
    using assms(2) by (auto simp: outcome_simps)
  have acc: "list_all2 raw_accepts args (map data_type_of ds)"
    and t: "if p then ds \<noteq> [] \<and> t = data_type_of (hd ds) else t = raw_kind ret"
    using check_arguments_Ok [OF ft] assms(2) len ft
    by (auto simp: ok_or_def hd_map split: if_split_asm option.split_asm)
  then obtain vs where vs: "(unwrap_inputs args ds :: ('e report, 'p raw_value list) outcome) = Ok vs"
    "list_all2 is_raw args vs" "map into_data vs = ds"
    using unwrap_inputs_all [of args ds] by (auto simp: list_all2_map2)
  have hd: "data_type_of (into_data (hd vs)) = data_type_of (hd ds)" if "ds \<noteq> []"
    using vs(3) that by (cases vs) auto
  have "ran_well (\<lambda>v. data_type_of (into_data v) = t) (fst (run_function cl f vs w))"
    using run_function_sound [OF assms(1) vs(2), of cl w] t hd by (cases p) auto
  then show ?thesis
    by (simp add: wrap_execute_def take_inputs_all len vs)
qed

lemma execute_sound:
  fixes cl :: "('w, 'e, 'p) client"
  assumes "well_signed impl" and "return_type impl (map data_type_of ds) = Ok t"
  shows "ran_well (\<lambda>d. data_type_of d = t) (fst (execute cl impl ds w))"
proof (cases impl)
  case Noop
  with assms(2) show ?thesis by (auto split: list.split_asm)
next
  case All
  with assms(2) show ?thesis by (auto split: list.split_asm)
next
  case Join
  have "\<exists>s'. (join_strings ds s :: ('e report, ustr) outcome) = Ok s'"
    if "\<forall>x \<in> set ds. data_type_of x = TString" for s
    using that
  proof (induction ds arbitrary: s)
    case (Cons d ds)
    then obtain u where "d = DString u" by (cases d) auto
    with Cons show ?case by auto
  qed simp
  with Join assms(2) show ?thesis
    by (auto simp: join_check_Ok) (metis and_then.simps(1) data_type_of.simps(2) ran_well.simps(1))
next
  case (Wrap f args ret p c)
  with assms have "signature f = (args, ret, p)" by (simp add: well_signed_def)
  from wrap_execute_sound [OF this assms(2) [unfolded Wrap]] show ?thesis unfolding Wrap .
qed (use assms in auto)

section \<open>Properties\<close>

definition example_client :: "(nat, unit, nat) client" where
  "example_client =
    \<lparr>pull_image = \<lambda>img w. (Inr (ContainerState img (config_from_oci None None None)), w + 1),
     pull_service = \<lambda>img w. (Inl (), w),
     client_exec = \<lambda>c command w. (Inr c, w + 1),
     exec_get_output = \<lambda>c command w. (Inr command, w + 1),
     export_path = \<lambda>c path w. (Inl (), w),
     copy_fs_into_container = \<lambda>c fs path w. (Inr c, w + 1),
     write_to_host = \<lambda>fs path w. (Inr (), w + 1),
     local_files = length,
     path_join = (@),
     shell_quote = id\<rparr>"

text \<open>
  C32: type soundness of the nodes: a node of the prelude, or a literal, that \<open>return_type\<close> accepted for
  the types of its inputs runs without an internal error (\<open>Type mismatch at runtime\<close> and the like) and
  without a panic; what it returns has the announced type. It fails only with an error of the client
  or for a health-check timeout out of range.
\<close>

theorem node_type_soundness:
  assumes "impl \<in> snd ` set prelude \<or> (\<exists>d. impl = LiteralNode d)"
    and "return_type impl (map data_type_of ds) = Ok t"
  shows "ran_well (\<lambda>d. data_type_of d = t) (fst (execute cl impl ds w))"
proof -
  have "well_signed impl" using assms(1) prelude_well_signed [of impl] by (auto simp: well_signed_def)
  then show ?thesis using assms(2) by (rule execute_sound)
qed

theorem node_type_soundness_witness:
  "ran_well (\<lambda>d. data_type_of d = TContainer)
    (fst (execute example_client (wrap_new F_image [RString] RContainer) [DString (ustr ''alpine'')] 0))"
  by (rule node_type_soundness) (simp_all add: prelude_def wrap_new_def)

text \<open>
  The typing rule of a wrapped function on every branch: it accepts exactly the argument lists of
  its arity whose types its parameters accept, and announces the type of the first argument if it
  passes it through, else the kind of its result.
\<close>

theorem wrap_return_type:
  "return_type (Wrap f args ret pass c) ts = Ok t \<longleftrightarrow>
     list_all2 raw_accepts args ts \<and> (if pass then ts \<noteq> [] \<and> t = hd ts else t = raw_kind ret)"
  using check_arguments_Ok [of args ts 0 None] check_arguments_all [of args ts 0 None]
  by (auto simp: outcome_simps dest: list_all2_lengthD split: if_split_asm)

definition expected_raw :: "'p node_impl \<Rightarrow> nat \<Rightarrow> raw" where
  "expected_raw impl i = (case impl of Wrap f args ret p c \<Rightarrow> args ! i | _ \<Rightarrow> RString)"

text \<open>
  A type mismatch names the first argument that does not fit: its index is in range, so the
  compiler finds the argument to blame, its type is the one reported as found, and all arguments
  before it were accepted.
\<close>

theorem return_type_mismatch_index:
  assumes "return_type impl ts = Err (RTypeMismatch exp got i)"
  shows "i < length ts \<and> \<not> raw_accepts (expected_raw impl i) (ts ! i)
    \<and> (\<forall>j < i. raw_accepts (expected_raw impl j) (ts ! j))
    \<and> exp = describe_type (raw_kind (expected_raw impl i)) \<and> got = describe_type (ts ! i)"
proof (cases impl)
  case Join
  with assms join_check_Err [of ts 0 "RTypeMismatch exp got i"] show ?thesis
    by (auto simp: expected_raw_def)
next
  case (Wrap f args ret p c)
  with assms have "length ts = length args"
    "check_arguments args ts 0 None = Err (RTypeMismatch exp got i)"
    by (auto simp: outcome_simps ok_or_def split: if_split_asm option.split_asm)
  from check_arguments_Err [OF this(2,1)] show ?thesis
    by (auto simp: expected_raw_def Wrap list_all2_conv_all_nth)
qed (use assms in \<open>auto split: list.split_asm\<close>)

theorem return_type_mismatch_index_witness:
  "\<not> raw_accepts (expected_raw (Join :: nat node_impl) 1) ([TString, TInt] ! 1)"
  using return_type_mismatch_index [of "Join :: nat node_impl" "[TString, TInt]" "''string''" "''integer''" 1]
  by simp

text \<open>
  The data cache is only used where it can be: whatever a cached node of the prelude returns on
  accepted inputs has a cacheable form.
\<close>

theorem cached_nodes_cacheable:
  assumes "impl \<in> snd ` set prelude" and "should_be_cached impl"
    and "return_type impl (map data_type_of ds) = Ok t"
    and "execute cl impl ds w = (Ok d, w')"
  shows "cacheable d \<noteq> None"
proof -
  have "data_type_of d = t"
    using execute_sound [OF prelude_well_signed [OF assms(1)] assms(3), of cl w] assms(4) by simp
  moreover have "is_cacheable t"
    using assms(1-3)
    by (auto simp: prelude_def wrap_new_def outcome_simps ok_or_def list_all2_Cons1 split: if_split_asm option.split_asm
        dest!: check_arguments_Ok)
  ultimately show ?thesis by (cases d) auto
qed

theorem cached_nodes_cacheable_witness:
  "cacheable (DContainer (ContainerState (ustr ''alpine'') (config_from_oci None None None)) :: nat data) \<noteq> None"
  by (rule cached_nodes_cacheable [where cl = example_client and ds = "[DString (ustr ''alpine'')]" and w = 0
        and impl = "wrap_new F_image [RString] RContainer" and t = TContainer and w' = 1])
    (simp_all add: prelude_def wrap_new_def example_client_def run_function_def call_def wrap_execute_def returning_def)

end
