(* ===== verification/Ir.thy ===== *)
theory Ir
  imports Data_Model
begin

text \<open>
  \<^verbatim>\<open>serpentine/src/snek/ir.rs\<close>: a program whose names are resolved. A \<open>Symbol\<close> and a \<open>FunctionId\<close> are
  their numbers, a \<open>Body\<close> is its list of nodes.
\<close>

record ir_node =
  ir_name :: nat
  ir_function :: nat
  ir_arguments :: "nat list"
  ir_phantom_inputs :: "nat list"
  ir_span :: span

datatype ir_function =
    BuiltinFunction nat
  | Custom (required_parameters: "nat list") (default_parameters: "(nat \<times> nat \<times> ir_node list) list")
      (fn_body: "ir_node list") (return_value: nat)

record pipeline =
  top_level :: "ir_node list"
  pl_functions :: "ir_function store"
  start_point :: nat

section \<open>Printing\<close>

definition pretty_symbol :: "nat \<Rightarrow> string" where
  "pretty_symbol s = ''%'' @ dec s"

definition pretty_node :: "ir_node \<Rightarrow> string" where
  "pretty_node n = pretty_symbol (ir_name n)
     @ '' = !('' @ join_with '', '' (map pretty_symbol (ir_phantom_inputs n))
     @ '') $'' @ dec (ir_function n)
     @ ''('' @ join_with '', '' (map pretty_symbol (ir_arguments n)) @ '');''"

definition newline :: string where
  "newline = [CHR 0x0A]"

definition tab :: string where
  "tab = [CHR 0x09]"

fun pretty_function :: "ir_function \<Rightarrow> string" where
  "pretty_function (BuiltinFunction i) = ''(...) {/* builtin '' @ dec i @ '' */}''"
| "pretty_function (Custom required defaults body ret) =
     (let params = map pretty_symbol required @
            map (\<lambda>(param, default_symbol, default_body).
              pretty_symbol param @ '' = '' @ pretty_symbol default_symbol
              @ '' { '' @ concat (map (\<lambda>n. pretty_node n @ '' '') default_body) @ ''}'') defaults;
          body_repr = concat (map (\<lambda>n. tab @ pretty_node n @ newline) body)
            @ tab @ ''return '' @ pretty_symbol ret @ '';'' @ newline
      in ''('' @ join_with '', '' params @ '') {'' @ newline @ body_repr @ ''}'')"

definition pretty_pipeline :: "pipeline \<Rightarrow> string" where
  "pretty_pipeline p =
     concat (map (\<lambda>(i, f). ''def $'' @ dec i @ pretty_function f @ newline)
       (zip [0..<length (pl_functions p)] (pl_functions p)))
     @ concat (map (\<lambda>n. pretty_node n @ newline) (top_level p))"

end
