(* ===== verification/Paths.thy ===== *)
theory Paths
  imports Base
begin

text \<open>
  The operations of \<open>std::path::Path\<close> that module resolution uses, on Unix paths given as text.
  A path is cut into an optional start (the root, or a leading \<open>.\<close>) and the pieces between slashes;
  empty pieces and further \<open>.\<close> pieces are no components. Two paths are equal (as keys of a
  \<open>HashMap\<close>) when their components are.
\<close>

text \<open>\<open>str::split\<close> at a character.\<close>

fun split_pieces :: "uchar \<Rightarrow> ustr \<Rightarrow> ustr list" where
  "split_pieces d [] = [[]]"
| "split_pieces d (c # cs) =
     (if c = d then [] # split_pieces d cs
      else (case split_pieces d cs of p # ps \<Rightarrow> (c # p) # ps | [] \<Rightarrow> [[c]]))"

definition slash :: uchar where
  "slash = 47"

datatype path_start = RootDir | CurDir | NoStart

fun path_cut :: "ustr \<Rightarrow> path_start \<times> ustr list" where
  "path_cut [] = (NoStart, [])"
| "path_cut (c # cs) =
     (if c = slash then (RootDir, split_pieces slash cs)
      else if c = 46 \<and> cs = [] then (CurDir, [])
      else if c = 46 \<and> hd cs = slash then (CurDir, split_pieces slash (tl cs))
      else (NoStart, split_pieces slash (c # cs)))"

definition is_component :: "ustr \<Rightarrow> bool" where
  "is_component piece \<longleftrightarrow> piece \<noteq> [] \<and> piece \<noteq> [46]"

fun start_components :: "path_start \<Rightarrow> ustr list" where
  "start_components RootDir = [[slash]]"
| "start_components CurDir = [[46]]"
| "start_components NoStart = []"

definition components :: "ustr \<Rightarrow> ustr list" where
  "components p = (case path_cut p of (start, pieces) \<Rightarrow>
     start_components start @ filter is_component pieces)"

fun path_text :: "path_start \<Rightarrow> ustr list \<Rightarrow> ustr" where
  "path_text RootDir pieces = slash # join_with [slash] pieces"
| "path_text CurDir pieces = join_with [slash] ([46] # pieces)"
| "path_text NoStart pieces = join_with [slash] pieces"

text \<open>Dropping the trailing pieces that are no components.\<close>

definition trim_pieces :: "ustr list \<Rightarrow> ustr list" where
  "trim_pieces pieces = rev (dropWhile (\<lambda>p. \<not> is_component p) (rev pieces))"

definition parent :: "ustr \<Rightarrow> ustr option" where
  "parent p = (case path_cut p of (start, pieces) \<Rightarrow>
     (let body = trim_pieces pieces in
      if body \<noteq> [] then Some (path_text start (trim_pieces (butlast body)))
      else if start = CurDir then Some []
      else None))"

definition std_join :: "ustr \<Rightarrow> ustr \<Rightarrow> ustr" where
  "std_join p q =
     (if q \<noteq> [] \<and> hd q = slash then q
      else if p \<noteq> [] \<and> last p \<noteq> slash then p @ slash # q
      else p @ q)"

lemma trim_pieces_filter: "filter is_component (trim_pieces ps) = filter is_component ps"
proof -
  have "filter P (dropWhile (\<lambda>x. \<not> P x) xs) = filter P xs" for P and xs :: "ustr list"
    by (induction xs) auto
  then show ?thesis by (simp add: trim_pieces_def flip: rev_filter)
qed

lemma components_example:
  "components (ustr ''/a//./b/../c/'') = map ustr [''/'', ''a'', ''b'', ''..'', ''c'']"
  "components (ustr ''./a'') = map ustr [''.'', ''a'']"
  "parent (ustr ''@/lib/x.snek'') = Some (ustr ''@/lib'')"
  "parent (ustr ''/a//.'') = Some (ustr ''/'')" "parent (ustr ''/'') = None" "parent (ustr ''a'') = Some []"
  "std_join (ustr ''@/lib'') (ustr ''./y.snek'') = ustr ''@/lib/./y.snek''"
  by code_simp+

end
