(* ===== verification/Resolver.thy ===== *)
theory Resolver
  imports Parser Nodes Ir Paths
begin

text \<open>
  \<^verbatim>\<open>serpentine/src/snek/resolver.rs\<close>: from the entry file to the intermediate representation of the
  whole program. What a method changes through \<open>&mut self\<close> is the record \<open>resolver\<close>, threaded
  through; the top-level body, which the code passes along as a separate \<open>&mut Vec\<close>, is a field of
  it. The virtual file is shared by reference and grows by \<open>push\<close>; it is a field too.

  A \<open>Scope\<close> is the list of its hash maps from the innermost outwards. The module cache is keyed by
  \<open>PathBuf\<close>, hence by the components of the path. The file system and the embedded standard library
  are the parameter \<open>host\<close>; an unreadable file (or one that is not UTF-8) is \<open>None\<close>.
\<close>

record host =
  canonicalize :: "ustr \<Rightarrow> ustr option"
  read_to_string :: "ustr \<Rightarrow> ustr option"
  stdlib_get :: "ustr \<Rightarrow> ustr option"

definition is_stdlib_path :: "ustr \<Rightarrow> bool" where
  "is_stdlib_path p \<longleftrightarrow> (case components p of root # _ \<Rightarrow> root = ustr ''@'' | [] \<Rightarrow> False)"

section \<open>Scopes\<close>

datatype scope_item = Label nat | Function nat | Module nat

type_synonym items = "ustr \<rightharpoonup> scope_item"
type_synonym scope = "items list"

fun item_kind :: "scope_item \<Rightarrow> string" where
  "item_kind (Module _) = ''module''"
| "item_kind (Label _) = ''label''"
| "item_kind (Function _) = ''function''"

fun try_into_module :: "span \<Rightarrow> scope_item \<Rightarrow> nat compile_result" where
  "try_into_module sp (Module m) = Ok m"
| "try_into_module sp item = Err (WrongItemKind ''module'' (item_kind item) sp)"

fun try_into_label :: "span \<Rightarrow> scope_item \<Rightarrow> nat compile_result" where
  "try_into_label sp (Label s) = Ok s"
| "try_into_label sp item = Err (WrongItemKind ''label'' (item_kind item) sp)"

fun try_into_function :: "span \<Rightarrow> scope_item \<Rightarrow> nat compile_result" where
  "try_into_function sp (Function f) = Ok f"
| "try_into_function sp item = Err (WrongItemKind ''function'' (item_kind item) sp)"

definition scope_root :: scope where
  "scope_root = [Map.empty]"

definition scope_child :: "scope \<Rightarrow> scope" where
  "scope_child sc = Map.empty # sc"

fun scope_insert :: "ustr \<Rightarrow> scope_item \<Rightarrow> scope \<Rightarrow> scope" where
  "scope_insert name item [] = []"
| "scope_insert name item (m # sc) = m(name \<mapsto> item) # sc"

fun lookup :: "scope \<Rightarrow> ustr \<Rightarrow> span \<Rightarrow> scope_item compile_result" where
  "lookup [] name sp = Err (ItemNotFound name sp)"
| "lookup (m # sc) name sp = (case m name of Some item \<Rightarrow> Ok item | None \<Rightarrow> lookup sc name sp)"

section \<open>State\<close>

datatype literal_key = LInt int | LStr ustr

fun literal_data :: "literal_key \<Rightarrow> 'p data" where
  "literal_data (LInt i) = DInt i"
| "literal_data (LStr s) = DString s"

record 'p resolver =
  modules :: "scope store"
  module_cache :: "ustr list \<rightharpoonup> nat option"
  rs_nodes :: "'p node_impl store"
  rs_functions :: "ir_function store"
  vfile :: virtual_file
  next_symbol_id :: nat
  cached_literals :: "literal_key \<rightharpoonup> nat"
  top_level_body :: "ir_node list"

text \<open>\<open>StatementContext\<close>: exports of a module, or return value and body of a function.\<close>

datatype statement_context =
    ModuleContext scope
  | FunctionContext "nat option" "ir_node list"

fun export_item :: "ustr \<Rightarrow> scope_item \<Rightarrow> span \<Rightarrow> statement_context \<Rightarrow> statement_context compile_result" where
  "export_item name item sp (ModuleContext exports) = Ok (ModuleContext (scope_insert name item exports))"
| "export_item name item sp (FunctionContext r b) =
     Err (InvalidStatement ''export'' ''function'' ''return'' sp)"

fun set_return_value :: "nat \<Rightarrow> span \<Rightarrow> statement_context \<Rightarrow> statement_context compile_result" where
  "set_return_value val sp (FunctionContext r b) =
     (if r = None then Ok (FunctionContext (Some val) b) else Err (DoubleReturn sp))"
| "set_return_value val sp (ModuleContext exports) =
     Err (InvalidStatement ''return'' ''module'' ''export'' sp)"

text \<open>Pushing to \<open>body_for_statements\<close>.\<close>

fun emit :: "ir_node \<Rightarrow> statement_context \<Rightarrow> 'p resolver \<Rightarrow> statement_context \<times> 'p resolver" where
  "emit n (ModuleContext exports) rs = (ModuleContext exports, rs\<lparr>top_level_body := top_level_body rs @ [n]\<rparr>)"
| "emit n (FunctionContext r b) rs = (FunctionContext r (b @ [n]), rs)"

definition new_symbol :: "'p resolver \<Rightarrow> nat \<times> 'p resolver" where
  "new_symbol rs = (next_symbol_id rs, rs\<lparr>next_symbol_id := Suc (next_symbol_id rs)\<rparr>)"

definition push_node :: "'p node_impl \<Rightarrow> 'p resolver \<Rightarrow> nat \<times> 'p resolver" where
  "push_node impl rs = (let (s, i) = store_push impl (rs_nodes rs) in (i, rs\<lparr>rs_nodes := s\<rparr>))"

definition push_function :: "ir_function \<Rightarrow> 'p resolver \<Rightarrow> nat \<times> 'p resolver" where
  "push_function f rs = (let (s, i) = store_push f (rs_functions rs) in (i, rs\<lparr>rs_functions := s\<rparr>))"

section \<open>Expressions\<close>

fun follow_path :: "'p resolver \<Rightarrow> scope_item \<Rightarrow> span \<Rightarrow> ident list \<Rightarrow> scope_item compile_result" where
  "follow_path rs item previous_span [] = Ok item"
| "follow_path rs item previous_span (segment # segments) =
     and_then (try_into_module previous_span item) (\<lambda>module_id.
     and_then (store_get (modules rs) module_id) (\<lambda>m.
     and_then (lookup m (sval segment) (sspan segment)) (\<lambda>item.
       follow_path rs item (sspan segment) segments)))"

definition get_item_path :: "'p resolver \<Rightarrow> scope \<Rightarrow> item_path \<Rightarrow> scope_item compile_result" where
  "get_item_path rs sc p =
     and_then (lookup sc (sval (ip_base p)) (sspan (ip_base p))) (\<lambda>item.
       follow_path rs item (sspan (ip_base p)) (ip_rest p))"

definition get_label :: "'p resolver \<Rightarrow> scope \<Rightarrow> item_path spanned \<Rightarrow> nat compile_result" where
  "get_label rs sc p = and_then (get_item_path rs sc (sval p)) (try_into_label (sspan p))"

definition resolve_literal :: "literal_key \<Rightarrow> span \<Rightarrow> 'p resolver \<Rightarrow> nat \<times> 'p resolver" where
  "resolve_literal literal sp rs =
     (case cached_literals rs literal of
        Some cached \<Rightarrow> (cached, rs)
      | None \<Rightarrow>
          let (node_id, rs) = push_node (LiteralNode (literal_data literal)) rs;
              (function_id, rs) = push_function (BuiltinFunction node_id) rs;
              (node_name, rs) = new_symbol rs;
              n = \<lparr>ir_name = node_name, ir_function = function_id, ir_arguments = [],
                   ir_phantom_inputs = [], ir_span = sp\<rparr>
          in (node_name, rs\<lparr>top_level_body := top_level_body rs @ [n],
                cached_literals := (cached_literals rs)(literal \<mapsto> node_name)\<rparr>))"

function (sequential) resolve_expression :: "scope \<Rightarrow> expression \<Rightarrow> statement_context \<Rightarrow> 'p resolver \<Rightarrow>
    (nat \<times> statement_context \<times> 'p resolver) compile_result"
and resolve_node :: "scope \<Rightarrow> ast_node spanned \<Rightarrow> nat option \<Rightarrow> statement_context \<Rightarrow> 'p resolver \<Rightarrow>
    (nat \<times> statement_context \<times> 'p resolver) compile_result"
and resolve_chain :: "scope \<Rightarrow> ast_node spanned list \<Rightarrow> nat \<Rightarrow> statement_context \<Rightarrow> 'p resolver \<Rightarrow>
    (nat \<times> statement_context \<times> 'p resolver) compile_result"
and resolve_arguments :: "scope \<Rightarrow> expression list \<Rightarrow> statement_context \<Rightarrow> 'p resolver \<Rightarrow>
    (nat list \<times> statement_context \<times> 'p resolver) compile_result"
where
  "resolve_expression sc (ENumber n) ctx rs =
     (let (s, rs) = resolve_literal (LInt (sval n)) (sspan n) rs in Ok (s, ctx, rs))"
| "resolve_expression sc (EString t) ctx rs =
     (let (s, rs) = resolve_literal (LStr (sval t)) (sspan t) rs in Ok (s, ctx, rs))"
| "resolve_expression sc (ELabel l) ctx rs =
     and_then (get_label rs sc l) (\<lambda>s. Ok (s, ctx, rs))"
| "resolve_expression sc (ENode n) ctx rs = resolve_node sc n None ctx rs"
| "resolve_expression sc (EChain (Spanned (Chain start nodes) sp)) ctx rs =
     and_then (resolve_expression sc start ctx rs) (\<lambda>(current, ctx, rs).
       resolve_chain sc nodes current ctx rs)"
| "resolve_node sc (Spanned (AstNode name arguments phantoms) node_span) first_argument ctx rs =
     and_then (and_then (get_item_path rs sc (sval name)) (try_into_function (sspan name))) (\<lambda>f.
     and_then (try_map (get_label rs sc) phantoms) (\<lambda>phantom_symbols.
     and_then (resolve_arguments sc arguments ctx rs) (\<lambda>(inline_arguments, ctx, rs).
       let resolved_arguments = (case first_argument of Some a \<Rightarrow> a # inline_arguments | None \<Rightarrow> inline_arguments);
           (symbol, rs) = new_symbol rs;
           (ctx, rs) = emit \<lparr>ir_name = symbol, ir_function = f, ir_arguments = resolved_arguments,
             ir_phantom_inputs = phantom_symbols, ir_span = node_span\<rparr> ctx rs
       in Ok (symbol, ctx, rs))))"
| "resolve_chain sc [] current ctx rs = Ok (current, ctx, rs)"
| "resolve_chain sc (n # nodes) current ctx rs =
     and_then (resolve_node sc n (Some current) ctx rs) (\<lambda>(current, ctx, rs).
       resolve_chain sc nodes current ctx rs)"
| "resolve_arguments sc [] ctx rs = Ok ([], ctx, rs)"
| "resolve_arguments sc (e # es) ctx rs =
     and_then (resolve_expression sc e ctx rs) (\<lambda>(s, ctx, rs).
     and_then (resolve_arguments sc es ctx rs) (\<lambda>(ss, ctx, rs). Ok (s # ss, ctx, rs)))"
  by pat_completeness auto
termination
  by (relation "measure (\<lambda>x. case x of
       Inl (Inl (_, e, _)) \<Rightarrow> size e
     | Inl (Inr (_, n, _)) \<Rightarrow> size_spanned size n
     | Inr (Inl (_, nodes, _)) \<Rightarrow> size_list (size_spanned size) nodes
     | Inr (Inr (_, es, _)) \<Rightarrow> size_list size es)") simp_all

section \<open>Statements\<close>

fun resolve_required :: "ident list \<Rightarrow> scope \<Rightarrow> 'p resolver \<Rightarrow> nat list \<times> scope \<times> 'p resolver" where
  "resolve_required [] sc rs = ([], sc, rs)"
| "resolve_required (parameter # ps) sc rs =
     (let (symbol, rs) = new_symbol rs;
          sc = scope_insert (sval parameter) (Label symbol) sc;
          (symbols, sc, rs) = resolve_required ps sc rs
      in (symbol # symbols, sc, rs))"

fun context_body :: "statement_context \<Rightarrow> ir_node list" where
  "context_body (FunctionContext r b) = b"
| "context_body (ModuleContext exports) = []"

fun context_return :: "statement_context \<Rightarrow> nat option" where
  "context_return (FunctionContext r b) = r"
| "context_return (ModuleContext exports) = None"

fun resolve_defaults :: "(ident \<times> expression) list \<Rightarrow> scope \<Rightarrow> 'p resolver \<Rightarrow>
    ((nat \<times> nat \<times> ir_node list) list \<times> scope \<times> 'p resolver) compile_result" where
  "resolve_defaults [] sc rs = Ok ([], sc, rs)"
| "resolve_defaults ((parameter, dflt) # ps) sc rs =
     and_then (resolve_expression sc dflt (FunctionContext None []) rs) (\<lambda>(default_symbol, ctx, rs).
       let (param_symbol, rs) = new_symbol rs;
           sc = scope_insert (sval parameter) (Label param_symbol) sc
       in and_then (resolve_defaults ps sc rs) (\<lambda>(defaults, sc, rs).
            Ok ((param_symbol, default_symbol, context_body ctx) # defaults, sc, rs)))"

text \<open>The common end of the statements that bind a name.\<close>

definition bind_item :: "span option \<Rightarrow> ustr \<Rightarrow> scope_item \<Rightarrow> scope \<Rightarrow> statement_context \<Rightarrow>
    (scope \<times> statement_context) compile_result" where
  "bind_item export name item sc ctx =
     and_then (case export of Some export_span \<Rightarrow> export_item name item export_span ctx | None \<Rightarrow> Ok ctx)
       (\<lambda>ctx. Ok (scope_insert name item sc, ctx))"

text \<open>The path an import statement names, relative to the file it stands in.\<close>

definition import_path :: "ustr \<Rightarrow> ustr \<Rightarrow> ustr" where
  "import_path current_path p =
     (if is_stdlib_path p then p
      else std_join (case parent current_path of Some d \<Rightarrow> d | None \<Rightarrow> ustr ''/'') p)"

text \<open>Statements call back to \<open>get_module\<close>, which is a parameter here and tied up below.\<close>

type_synonym 'p module_getter = "ustr \<Rightarrow> 'p resolver \<Rightarrow> (nat \<times> 'p resolver) compile_result"

fun resolve_statement :: "'p module_getter \<Rightarrow> ustr \<Rightarrow> statement \<Rightarrow> scope \<Rightarrow> statement_context \<Rightarrow>
    'p resolver \<Rightarrow> (scope \<times> statement_context \<times> 'p resolver) compile_result"
and resolve_statements :: "'p module_getter \<Rightarrow> ustr \<Rightarrow> statement list \<Rightarrow> scope \<Rightarrow> statement_context \<Rightarrow>
    'p resolver \<Rightarrow> (scope \<times> statement_context \<times> 'p resolver) compile_result"
where
  "resolve_statement getm current_path (SImport export path name) sc ctx rs =
     (let p = import_path current_path (sval path) in
      and_then (map_err (\<lambda>e. ImportError p e (sspan path)) (getm p rs)) (\<lambda>(module_id, rs).
      and_then (bind_item export (sval name) (Module module_id) sc ctx) (\<lambda>(sc, ctx). Ok (sc, ctx, rs))))"
| "resolve_statement getm current_path (SReturn return_kw expression) sc ctx rs =
     and_then (resolve_expression sc expression ctx rs) (\<lambda>(val, ctx, rs).
     and_then (set_return_value val return_kw ctx) (\<lambda>ctx. Ok (sc, ctx, rs)))"
| "resolve_statement getm current_path (SLabel export expression label) sc ctx rs =
     and_then (resolve_expression sc expression ctx rs) (\<lambda>(val, ctx, rs).
     and_then (bind_item export (sval label) (Label val) sc ctx) (\<lambda>(sc, ctx). Ok (sc, ctx, rs)))"
| "resolve_statement getm current_path (SFunction export name required defaults statements) sc ctx rs =
     (let (required_symbols, fsc, rs) = resolve_required required (scope_child sc) rs in
      and_then (resolve_defaults defaults fsc rs) (\<lambda>(default_symbols, fsc, rs).
      and_then (resolve_statements getm current_path statements fsc (FunctionContext None []) rs)
        (\<lambda>(fsc, fctx, rs).
      and_then (ok_or (context_return fctx) (ReturnNotFound (sspan name))) (\<lambda>ret.
        let (function_id, rs) = push_function
              (Custom required_symbols default_symbols (context_body fctx) ret) rs
        in and_then (bind_item export (sval name) (Function function_id) sc ctx) (\<lambda>(sc, ctx).
             Ok (sc, ctx, rs))))))"
| "resolve_statements getm current_path [] sc ctx rs = Ok (sc, ctx, rs)"
| "resolve_statements getm current_path (s # ss) sc ctx rs =
     and_then (resolve_statement getm current_path s sc ctx rs) (\<lambda>(sc, ctx, rs).
       resolve_statements getm current_path ss sc ctx rs)"

section \<open>Modules\<close>

definition load_file :: "host \<Rightarrow> ustr \<Rightarrow> ustr compile_result" where
  "load_file h path = ok_or (if is_stdlib_path path then stdlib_get h path else read_to_string h path)
     (FileReading path)"

fun exports_of :: "statement_context \<Rightarrow> scope" where
  "exports_of (ModuleContext exports) = exports"
| "exports_of (FunctionContext r b) = scope_root"

definition resolve_module :: "unicode \<Rightarrow> host \<Rightarrow> items \<Rightarrow> 'p module_getter \<Rightarrow> ustr \<Rightarrow> 'p resolver \<Rightarrow>
    (scope \<times> 'p resolver) compile_result" where
  "resolve_module u h prelude_items getm path rs =
     and_then (load_file h path) (\<lambda>code.
       let (vf, fid) = vf_push (vfile rs) path code; rs = rs\<lparr>vfile := vf\<rparr> in
       and_then (tokenize u fid code) (\<lambda>tokens.
       and_then (parse_file tokens) (\<lambda>statements.
       and_then (resolve_statements getm path statements (scope_child [prelude_items])
         (ModuleContext scope_root) rs) (\<lambda>(sc, ctx, rs). Ok (exports_of ctx, rs)))))"

definition module_key :: "host \<Rightarrow> ustr \<Rightarrow> ustr" where
  "module_key h path =
     (if is_stdlib_path path then path
      else case canonicalize h path of Some p \<Rightarrow> p | None \<Rightarrow> path)"

text \<open>\<open>get_module\<close>, with the depth of nested imports bounded by the fuel.\<close>

fun get_module :: "unicode \<Rightarrow> host \<Rightarrow> items \<Rightarrow> nat \<Rightarrow> 'p module_getter" where
  "get_module u h prelude_items 0 path rs = NoFuel"
| "get_module u h prelude_items (Suc n) path rs =
     (let module_path = module_key h path; key = components module_path in
      case module_cache rs key of
        Some (Some m) \<Rightarrow> Ok (m, rs)
      | Some None \<Rightarrow> Err (CircularImport module_path)
      | None \<Rightarrow>
          and_then (resolve_module u h prelude_items (get_module u h prelude_items n) module_path
              (rs\<lparr>module_cache := (module_cache rs)(key \<mapsto> None)\<rparr>)) (\<lambda>(m, rs).
            let (ms, module_id) = store_push m (modules rs)
            in Ok (module_id, rs\<lparr>modules := ms, module_cache := (module_cache rs)(key \<mapsto> Some module_id)\<rparr>)))"

section \<open>Programs\<close>

definition resolver_new :: "virtual_file \<Rightarrow> 'p resolver" where
  "resolver_new vf = \<lparr>modules = store_new, module_cache = Map.empty, rs_nodes = store_new,
     rs_functions = store_new, vfile = vf, next_symbol_id = 0, cached_literals = Map.empty,
     top_level_body = []\<rparr>"

fun create_prelude_from :: "(ustr \<times> 'p node_impl) list \<Rightarrow> items \<Rightarrow> nat option \<Rightarrow> 'p resolver \<Rightarrow>
    items \<times> nat option \<times> 'p resolver" where
  "create_prelude_from [] items noop rs = (items, noop, rs)"
| "create_prelude_from ((name, impl) # ps) items noop rs =
     (let (i, rs) = push_node impl rs;
          noop = (if name = NOOP_NAME then Some i else noop);
          (function_id, rs) = push_function (BuiltinFunction i) rs
      in create_prelude_from ps (items(name \<mapsto> Function function_id)) noop rs)"

definition create_prelude :: "'p resolver \<Rightarrow> (items \<times> nat \<times> 'p resolver) compile_result" where
  "create_prelude rs =
     (let (items, noop, rs) = create_prelude_from prelude Map.empty None rs in
      and_then (expect_some noop) (\<lambda>noop. Ok (items, noop, rs)))"

record 'p resolve_result =
  rr_ir :: pipeline
  rr_nodes :: "'p node_impl store"
  rr_noop :: nat

definition resolve :: "unicode \<Rightarrow> host \<Rightarrow> nat \<Rightarrow> virtual_file \<Rightarrow> ustr \<Rightarrow> ustr \<Rightarrow> 'p resolve_result compile_result" where
  "resolve u h fuel vf file entry_point =
     and_then (create_prelude (resolver_new vf)) (\<lambda>(prelude_items, noop, rs).
       let (vf, cli_file_id) = vf_push (vfile rs) (ustr ''<cli>'') entry_point;
           rs = rs\<lparr>vfile := vf\<rparr>;
           cli_span = span_new cli_file_id 0 (blen entry_point)
       in
       and_then (get_module u h prelude_items fuel file rs) (\<lambda>(start_module, rs).
       and_then (store_get (modules rs) start_module) (\<lambda>m.
       and_then (and_then (lookup m entry_point cli_span) (try_into_label cli_span)) (\<lambda>start_symbol.
         Ok \<lparr>rr_ir = \<lparr>top_level = top_level_body rs, pl_functions = rs_functions rs, start_point = start_symbol\<rparr>,
             rr_nodes = rs_nodes rs, rr_noop = noop\<rparr>))))"

end
