(* ===== verification/Resolver_Props.thy ===== *)
theory Resolver_Props
  imports Resolver Parser_Props Token_Layout "HOL-Library.Sublist"
begin

text \<open>
  What resolution promises: it ends, it fails only with errors that blame the program, and the
  intermediate representation it returns is closed: every node uses only symbols that are defined
  when it is reached, whatever path of calls leads there. That is the property the compiler rests
  on when it looks up symbols with \<open>expect\<close>.

  Closedness is stated with one set of symbols per function, \<open>R ! f\<close>, that must be defined where
  \<open>f\<close> is called. A function may only call functions with smaller numbers.
\<close>

section \<open>Closed code\<close>

definition names :: "ir_node list \<Rightarrow> nat set" where
  "names ns = ir_name ` set ns"

fun nodes_ok :: "nat set list \<Rightarrow> nat set \<Rightarrow> ir_node list \<Rightarrow> bool" where
  "nodes_ok R D [] = True"
| "nodes_ok R D (n # ns) \<longleftrightarrow>
     ir_function n < length R \<and> R ! ir_function n \<subseteq> D \<and> set (ir_arguments n) \<subseteq> D \<and>
     set (ir_phantom_inputs n) \<subseteq> D \<and> nodes_ok R (insert (ir_name n) D) ns"

fun defaults_ok :: "nat set list \<Rightarrow> nat set \<Rightarrow> (nat \<times> nat \<times> ir_node list) list \<Rightarrow> bool" where
  "defaults_ok R D [] = True"
| "defaults_ok R D ((p, s, b) # ds) \<longleftrightarrow>
     nodes_ok R D b \<and> s \<in> D \<union> names b \<and> defaults_ok R (insert p D) ds"

fun function_ok :: "nat set list \<Rightarrow> nat set \<Rightarrow> nat \<Rightarrow> ir_function \<Rightarrow> bool" where
  "function_ok R D k (BuiltinFunction i) \<longleftrightarrow> i < k"
| "function_ok R D k (Custom required defaults body ret) \<longleftrightarrow>
     (let D1 = D \<union> set required; D2 = D1 \<union> fst ` set defaults in
      defaults_ok R D1 defaults \<and> nodes_ok R D2 body \<and> ret \<in> D2 \<union> names body)"

definition functions_ok :: "nat set list \<Rightarrow> nat \<Rightarrow> ir_function list \<Rightarrow> bool" where
  "functions_ok R k F \<longleftrightarrow> length R = length F \<and> (\<forall>f < length F. function_ok (take f R) (R ! f) k (F ! f))"

lemma names_simps [simp]:
  "names [] = {}" "names (n # ns) = insert (ir_name n) (names ns)" "names (ms @ ns) = names ms \<union> names ns"
  by (auto simp: names_def)

lemma nodes_ok_append [simp]:
  "nodes_ok R D (ms @ ns) \<longleftrightarrow> nodes_ok R D ms \<and> nodes_ok R (D \<union> names ms) ns"
  by (induction ms arbitrary: D) auto

lemma nodes_ok_mono: "nodes_ok R D ns \<Longrightarrow> D \<subseteq> D' \<Longrightarrow> nodes_ok (R @ R') D' ns"
proof (induction ns arbitrary: D D')
  case (Cons n ns)
  have "nodes_ok (R @ R') (insert (ir_name n) D') ns"
    by (rule Cons.IH [of "insert (ir_name n) D"]) (use Cons.prems in auto)
  then show ?case using Cons.prems by (auto simp: nth_append)
qed simp

lemma defaults_ok_mono: "defaults_ok R D ds \<Longrightarrow> D \<subseteq> D' \<Longrightarrow> defaults_ok (R @ R') D' ds"
proof (induction R D ds arbitrary: D' rule: defaults_ok.induct)
  case (2 R D p s b ds)
  have "defaults_ok (R @ R') (insert p D') ds" by (rule "2.IH") (use "2.prems" in auto)
  then show ?case using "2.prems" nodes_ok_mono by auto
qed simp

lemma function_ok_mono: "function_ok R D k fn \<Longrightarrow> D \<subseteq> D' \<Longrightarrow> k \<le> k' \<Longrightarrow> function_ok (R @ R') D' k' fn"
  by (cases fn)
    (auto simp: Let_def intro: nodes_ok_mono [of R "D \<union> _ \<union> _"] defaults_ok_mono [of R "D \<union> _"])

lemma functions_ok_push:
  assumes "functions_ok R k F" "function_ok R D k' fn" "k \<le> k'"
  shows "functions_ok (R @ [D]) k' (F @ [fn])"
proof -
  have "function_ok (take f R) (R ! f) k' (F ! f)" if "f < length F" for f
    using assms(1,3) that function_ok_mono [of "take f R" "R ! f" k "F ! f" "R ! f" k' "[]"]
    by (simp add: functions_ok_def)
  with assms show ?thesis by (auto simp: functions_ok_def nth_append less_Suc_eq)
qed

lemma functions_ok_more: "functions_ok R k F \<Longrightarrow> k \<le> k' \<Longrightarrow> functions_ok R k' F"
  using function_ok_mono [where R' = "[]"] by (fastforce simp: functions_ok_def)

section \<open>Sound states\<close>

fun item_ok :: "nat set list \<Rightarrow> nat \<Rightarrow> nat set \<Rightarrow> scope_item \<Rightarrow> bool" where
  "item_ok R m D (Label s) \<longleftrightarrow> s \<in> D"
| "item_ok R m D (Function f) \<longleftrightarrow> f < length R \<and> R ! f \<subseteq> D"
| "item_ok R m D (Module i) \<longleftrightarrow> i < m"

definition scope_ok :: "nat set list \<Rightarrow> nat \<Rightarrow> nat set \<Rightarrow> scope \<Rightarrow> bool" where
  "scope_ok R m D sc \<longleftrightarrow> sc \<noteq> [] \<and> (\<forall>items \<in> set sc. \<forall>item \<in> ran items. item_ok R m D item)"

abbreviation top_names :: "'p resolver \<Rightarrow> nat set" where
  "top_names rs \<equiv> names (top_level_body rs)"

definition active :: "'p resolver \<Rightarrow> ustr list set" where
  "active rs = {k. module_cache rs k = Some None}"

text \<open>The functions of the prelude, which come first, need nothing.\<close>

definition prelude_ok :: "nat set list \<Rightarrow> bool" where
  "prelude_ok R \<longleftrightarrow> (\<forall>f < length (prelude :: (ustr \<times> unit node_impl) list). f < length R \<and> R ! f = {})"

lemma prelude_ok_append [simp]: "prelude_ok R \<Longrightarrow> prelude_ok (R @ R')"
  by (auto simp: prelude_ok_def nth_append trans_less_add1)

definition state_ok :: "nat set list \<Rightarrow> 'p resolver \<Rightarrow> bool" where
  "state_ok R rs \<longleftrightarrow>
     functions_ok R (length (rs_nodes rs)) (rs_functions rs) \<and>
     prelude_ok R \<and> nodes_ok R {} (top_level_body rs) \<and>
     ran (cached_literals rs) \<subseteq> top_names rs \<and>
     (\<forall>m \<in> set (modules rs). scope_ok R (length (modules rs)) (top_names rs) m) \<and>
     (\<forall>k m. module_cache rs k = Some (Some m) \<longrightarrow> m < length (modules rs)) \<and>
     (\<forall>impl \<in> set (rs_nodes rs). well_signed impl) \<and> (\<exists>ns. rs_nodes rs = Noop # ns)"

text \<open>The symbols that code emitted in a context may use; \<open>L\<close> are those of the enclosing functions.\<close>

definition avail :: "nat set \<Rightarrow> statement_context \<Rightarrow> 'p resolver \<Rightarrow> nat set" where
  "avail L ctx rs = L \<union> top_names rs \<union> names (context_body ctx)"

fun context_ok :: "nat set list \<Rightarrow> nat set \<Rightarrow> statement_context \<Rightarrow> 'p resolver \<Rightarrow> bool" where
  "context_ok R L (ModuleContext exports) rs \<longleftrightarrow> L = {} \<and> scope_ok R (length (modules rs)) (top_names rs) exports"
| "context_ok R L (FunctionContext r b) rs \<longleftrightarrow> nodes_ok R (L \<union> top_names rs) b \<and>
     (\<forall>s. r = Some s \<longrightarrow> s \<in> L \<union> top_names rs \<union> names b)"

definition config_ok :: "nat set list \<Rightarrow> nat set \<Rightarrow> statement_context \<Rightarrow> 'p resolver \<Rightarrow> bool" where
  "config_ok R L ctx rs \<longleftrightarrow> state_ok R rs \<and> context_ok R L ctx rs"

text \<open>How states and contexts grow.\<close>

definition grows :: "'p resolver \<Rightarrow> 'p resolver \<Rightarrow> bool" where
  "grows rs rs' \<longleftrightarrow> top_names rs \<subseteq> top_names rs' \<and> length (modules rs) \<le> length (modules rs') \<and>
     active rs' = active rs"

definition context_grows :: "statement_context \<Rightarrow> statement_context \<Rightarrow> bool" where
  "context_grows ctx ctx' \<longleftrightarrow> names (context_body ctx) \<subseteq> names (context_body ctx')"

lemma grows_refl [simp]: "grows rs rs"
  by (simp add: grows_def)

lemma grows_trans [trans]: "grows rs rs' \<Longrightarrow> grows rs' rs'' \<Longrightarrow> grows rs rs''"
  by (auto simp: grows_def)

lemma context_grows_refl [simp]: "context_grows ctx ctx"
  by (simp add: context_grows_def)

lemma context_grows_trans: "context_grows ctx ctx' \<Longrightarrow> context_grows ctx' ctx'' \<Longrightarrow> context_grows ctx ctx''"
  by (auto simp: context_grows_def)

lemma item_ok_mono: "item_ok R m D item \<Longrightarrow> m \<le> m' \<Longrightarrow> D \<subseteq> D' \<Longrightarrow> item_ok (R @ R') m' D' item"
  by (cases item) (auto simp: nth_append)

lemma scope_ok_mono: "scope_ok R m D sc \<Longrightarrow> m \<le> m' \<Longrightarrow> D \<subseteq> D' \<Longrightarrow> scope_ok (R @ R') m' D' sc"
  using item_ok_mono unfolding scope_ok_def by blast

lemma context_ok_mono: "context_ok R L ctx rs \<Longrightarrow> grows rs rs' \<Longrightarrow> context_ok (R @ R') L ctx rs'"
  by (cases ctx)
    (auto simp: grows_def intro: scope_ok_mono nodes_ok_mono [of R "L \<union> top_names rs"])

lemma avail_mono: "grows rs rs' \<Longrightarrow> context_grows ctx ctx' \<Longrightarrow> avail L ctx rs \<subseteq> avail L ctx' rs'"
  by (auto simp: grows_def context_grows_def avail_def)

lemma scope_ok_grows:
  assumes "scope_ok R (length (modules rs)) (avail L ctx rs) sc" "grows rs rs'" "context_grows ctx ctx'"
  shows "scope_ok (R @ R') (length (modules rs')) (avail L ctx' rs') sc"
  by (rule scope_ok_mono [OF assms(1) _ avail_mono [OF assms(2,3)]]) (use assms(2) in \<open>simp add: grows_def\<close>)

lemma scope_ok_insert [simp]:
  "scope_ok R m D sc \<Longrightarrow> item_ok R m D item \<Longrightarrow> scope_ok R m D (scope_insert name item sc)"
  by (cases sc) (auto simp: scope_ok_def ran_def split: if_split_asm)

lemma scope_ok_child [simp]: "scope_ok R m D sc \<Longrightarrow> scope_ok R m D (scope_child sc)"
  by (auto simp: scope_ok_def scope_child_def)

section \<open>Names and literals\<close>

lemma lookup_ok:
  assumes "scope_ok R m D sc"
  shows "sound (lookup sc name sp) \<and> (\<forall>item. lookup sc name sp = Ok item \<longrightarrow> item_ok R m D item)"
proof -
  have "sound (lookup sc name sp) \<and> (\<forall>item. lookup sc name sp = Ok item \<longrightarrow> P item)"
    if "\<forall>items \<in> set sc. \<forall>item \<in> ran items. P item" for P
    using that by (induction sc) (simp_all split: option.split add: ranI)
  from this [of "item_ok R m D"] assms show ?thesis by (simp add: scope_ok_def)
qed

lemma follow_path_ok:
  assumes "\<forall>sc \<in> set (modules rs). scope_ok R (length (modules rs)) D sc"
  shows "item_ok R (length (modules rs)) D item \<Longrightarrow> sound (follow_path rs item sp segs) \<and>
    (\<forall>it. follow_path rs item sp segs = Ok it \<longrightarrow> item_ok R (length (modules rs)) D it)"
proof (induction segs arbitrary: item sp)
  case (Cons seg segs)
  show ?case
  proof (cases item)
    case (Module i)
    with Cons.prems have i: "i < length (modules rs)" by simp
    with assms have "scope_ok R (length (modules rs)) D (modules rs ! i)" by simp
    from lookup_ok [OF this, of "sval seg" "sspan seg"] Cons.IH show ?thesis
      by (auto simp: Module i outcome_simps)
  qed (auto simp: outcome_simps)
qed simp

lemma try_into_sound [simp]:
  "sound (try_into_module sp it)" "sound (try_into_label sp it)" "sound (try_into_function sp it)"
  by (cases it; simp)+

lemma try_into_Ok [outcome_simps]:
  "try_into_module sp it = Ok i \<longleftrightarrow> it = Module i" "try_into_label sp it = Ok i \<longleftrightarrow> it = Label i"
  "try_into_function sp it = Ok i \<longleftrightarrow> it = Function i"
  by (cases it; auto)+

lemma state_ok_modules:
  assumes "state_ok R rs" and "top_names rs \<subseteq> D"
  shows "\<forall>sc \<in> set (modules rs). scope_ok R (length (modules rs)) D sc"
proof
  fix sc assume "sc \<in> set (modules rs)"
  with assms(1) have "scope_ok R (length (modules rs)) (top_names rs) sc" by (simp add: state_ok_def)
  from scope_ok_mono [OF this order.refl assms(2), of "[]"] show "scope_ok R (length (modules rs)) D sc" by simp
qed

lemma get_item_path_ok:
  assumes "state_ok R rs" "scope_ok R (length (modules rs)) D sc" "top_names rs \<subseteq> D"
  shows "sound (get_item_path rs sc p) \<and>
    (\<forall>it. get_item_path rs sc p = Ok it \<longrightarrow> item_ok R (length (modules rs)) D it)"
proof -
  have "sound (lookup sc name sp)" "lookup sc name sp = Ok it \<Longrightarrow> item_ok R (length (modules rs)) D it" for name sp it
    using lookup_ok [OF assms(2)] by blast+
  moreover have "sound (follow_path rs it sp segs)"
    "follow_path rs it sp segs = Ok it' \<Longrightarrow> item_ok R (length (modules rs)) D it'"
    if "item_ok R (length (modules rs)) D it" for it sp segs it'
    using follow_path_ok [OF state_ok_modules [OF assms(1,3)] that] by blast+
  ultimately show ?thesis unfolding get_item_path_def
    by (simp only: outcome_simps) blast
qed

lemma get_label_ok:
  assumes "state_ok R rs" "scope_ok R (length (modules rs)) D sc" "top_names rs \<subseteq> D"
  shows "sound (get_label rs sc p) \<and> (\<forall>s. get_label rs sc p = Ok s \<longrightarrow> s \<in> D)"
  using get_item_path_ok [OF assms, of "sval p"] by (auto simp: get_label_def outcome_simps)

lemma get_labels_ok:
  assumes "state_ok R rs" "scope_ok R (length (modules rs)) D sc" "top_names rs \<subseteq> D"
  shows "sound (try_map (get_label rs sc) ps) \<and> (\<forall>ss. try_map (get_label rs sc) ps = Ok ss \<longrightarrow> set ss \<subseteq> D)"
proof
  show "sound (try_map (get_label rs sc) ps)" using get_label_ok [OF assms] by (auto intro: sound_try_map)
  show "\<forall>ss. try_map (get_label rs sc) ps = Ok ss \<longrightarrow> set ss \<subseteq> D"
  proof -
    have *: "get_label rs sc q = Ok s \<Longrightarrow> s \<in> D" for q s using get_label_ok [OF assms] by blast
    have "list_all2 (\<lambda>q s. get_label rs sc q = Ok s) ps ss \<Longrightarrow> set ss \<subseteq> D" for ss
      by (induction ps ss rule: list_all2_induct) (auto dest: *)
    then show ?thesis by (simp add: outcome_simps)
  qed
qed

lemma top_names_avail [simp]: "top_names rs \<subseteq> avail L ctx rs"
  by (auto simp: avail_def)

text \<open>A new top-level node that is closed over the top level.\<close>

lemma state_ok_push_top:
  assumes "state_ok R rs" and "ir_function n < length R" "R ! ir_function n \<subseteq> top_names rs"
    "set (ir_arguments n) \<subseteq> top_names rs" "set (ir_phantom_inputs n) \<subseteq> top_names rs"
  shows "state_ok R (rs\<lparr>top_level_body := top_level_body rs @ [n]\<rparr>)"
proof -
  have "scope_ok R (length (modules rs)) (insert (ir_name n) (top_names rs)) m" if "m \<in> set (modules rs)" for m
    using state_ok_modules [OF assms(1), of "insert (ir_name n) (top_names rs)"] that by blast
  with assms show ?thesis by (auto simp: state_ok_def)
qed

lemma emit_ok:
  assumes "config_ok R L ctx rs" and "ir_function n < length R" "R ! ir_function n \<subseteq> avail L ctx rs"
    "set (ir_arguments n) \<subseteq> avail L ctx rs" "set (ir_phantom_inputs n) \<subseteq> avail L ctx rs"
    and "emit n ctx rs = (ctx', rs')"
  shows "config_ok R L ctx' rs' \<and> grows rs rs' \<and> context_grows ctx ctx' \<and> ir_name n \<in> avail L ctx' rs'"
proof (cases ctx)
  case (ModuleContext exports)
  with assms have L: "L = {}" "scope_ok R (length (modules rs)) (top_names rs) exports"
    by (auto simp: config_ok_def)
  have "scope_ok R (length (modules rs)) (insert (ir_name n) (top_names rs)) exports"
    using scope_ok_mono [OF L(2), of _ "insert (ir_name n) (top_names rs)" "[]"] by auto
  moreover have "state_ok R (rs\<lparr>top_level_body := top_level_body rs @ [n]\<rparr>)"
    using assms L(1) by (intro state_ok_push_top) (auto simp: config_ok_def avail_def ModuleContext)
  ultimately show ?thesis
    using assms L by (auto simp: ModuleContext config_ok_def grows_def context_grows_def avail_def active_def)
next
  case (FunctionContext r b)
  with assms show ?thesis
    by (auto simp: config_ok_def grows_def context_grows_def avail_def)
qed

lemma state_ok_push_node:
  assumes "state_ok R rs" "well_signed impl" "push_node impl rs = (i, rs')"
  shows "state_ok R rs' \<and> i < length (rs_nodes rs') \<and> top_names rs' = top_names rs \<and> modules rs' = modules rs
    \<and> module_cache rs' = module_cache rs \<and> cached_literals rs' = cached_literals rs
    \<and> rs_functions rs' = rs_functions rs \<and> length (rs_nodes rs) \<le> length (rs_nodes rs')
    \<and> top_level_body rs' = top_level_body rs \<and> next_symbol_id rs' = next_symbol_id rs"
  using assms functions_ok_more [of R "length (rs_nodes rs)" "rs_functions rs" "Suc (length (rs_nodes rs))"]
  by (auto simp: state_ok_def push_node_def store_push_def)

lemma state_ok_push_function:
  assumes "state_ok R rs" "function_ok R D (length (rs_nodes rs)) fn" "push_function fn rs = (f, rs')"
  shows "state_ok (R @ [D]) rs' \<and> f = length R \<and> top_level_body rs' = top_level_body rs
    \<and> modules rs' = modules rs \<and> module_cache rs' = module_cache rs
    \<and> cached_literals rs' = cached_literals rs \<and> next_symbol_id rs' = next_symbol_id rs"
proof -
  have "functions_ok (R @ [D]) (length (rs_nodes rs)) (rs_functions rs @ [fn])"
    using assms by (intro functions_ok_push) (auto simp: state_ok_def)
  moreover have "nodes_ok (R @ [D]) {} (top_level_body rs)"
    using assms(1) by (intro nodes_ok_mono) (auto simp: state_ok_def)
  moreover have "scope_ok (R @ [D]) (length (modules rs)) (top_names rs) m" if "m \<in> set (modules rs)" for m
    using state_ok_modules [OF assms(1) order.refl] that by (intro scope_ok_mono) auto
  ultimately show ?thesis
    using assms by (auto simp: state_ok_def push_function_def store_push_def functions_ok_def)
qed

lemma resolve_literal_ok:
  assumes "config_ok R L ctx rs" and "resolve_literal k sp rs = (s, rs')"
  shows "\<exists>R'. config_ok (R @ R') L ctx rs' \<and> grows rs rs' \<and> s \<in> top_names rs'"
proof (cases "cached_literals rs k")
  case (Some c)
  with assms have "s \<in> top_names rs \<and> rs' = rs" by (auto simp: resolve_literal_def config_ok_def state_ok_def ran_def)
  with assms(1) show ?thesis by (intro exI [of _ "[]"]) simp
next
  case None
  obtain i rs1 where p1: "push_node (LiteralNode (literal_data k)) rs = (i, rs1)"
    by (cases "push_node (LiteralNode (literal_data k)) rs :: nat \<times> 'a resolver") 
  obtain f rs2 where p2: "push_function (BuiltinFunction i) rs1 = (f, rs2)"
    by (cases "push_function (BuiltinFunction i) rs1")
  have st: "state_ok R rs" using assms(1) by (simp add: config_ok_def)
  note s1 = state_ok_push_node [OF st _ p1]
  have s1: "state_ok R rs1" "i < length (rs_nodes rs1)" "top_level_body rs1 = top_level_body rs"
    "modules rs1 = modules rs" "module_cache rs1 = module_cache rs" "cached_literals rs1 = cached_literals rs"
    using s1 by (simp_all add: well_signed_def)
  have s2: "state_ok (R @ [{}]) rs2" "f = length R" "top_level_body rs2 = top_level_body rs"
    "modules rs2 = modules rs" "module_cache rs2 = module_cache rs" "cached_literals rs2 = cached_literals rs"
    using state_ok_push_function [OF s1(1) _ p2, of "{}"] s1 by simp_all
  let ?n = "\<lparr>ir_name = next_symbol_id rs2, ir_function = f, ir_arguments = [], ir_phantom_inputs = [], ir_span = sp\<rparr>"
  let ?rs3 = "rs2\<lparr>next_symbol_id := Suc (next_symbol_id rs2)\<rparr>"
  let ?rs4 = "?rs3\<lparr>top_level_body := top_level_body ?rs3 @ [?n]\<rparr>"
  have "state_ok (R @ [{}]) ?rs3" using s2(1) by (simp add: state_ok_def)
  then have s4: "state_ok (R @ [{}]) ?rs4"
    by (rule state_ok_push_top) (simp_all add: s2)
  have r: "s = next_symbol_id rs2" "rs' = ?rs4\<lparr>cached_literals := (cached_literals rs)(k \<mapsto> s)\<rparr>"
    using assms(2) None by (auto simp: resolve_literal_def p1 p2 new_symbol_def s2 Let_def)
  have "state_ok (R @ [{}]) rs'"
    using s4 st unfolding r by (auto simp: state_ok_def ran_def s2 split: if_split_asm)
  moreover have g: "grows rs rs'" by (auto simp: r grows_def s2 active_def)
  moreover have "s \<in> top_names rs'" by (simp add: r)
  ultimately show ?thesis
    using context_ok_mono [OF _ g] assms(1) by (auto simp: config_ok_def)
qed

section \<open>Expressions\<close>

text \<open>
  A step of the resolver from a sound configuration: it ends soundly, and if it succeeds the new
  configuration is sound, nothing has become unavailable, and \<open>Q\<close> holds of the result.
\<close>

definition step_ok :: "nat set list \<Rightarrow> nat set \<Rightarrow> statement_context \<Rightarrow> 'p resolver \<Rightarrow>
    (nat set list \<Rightarrow> statement_context \<Rightarrow> 'p resolver \<Rightarrow> 'a \<Rightarrow> bool) \<Rightarrow>
    ('a \<times> statement_context \<times> 'p resolver) compile_result \<Rightarrow> bool" where
  "step_ok R L ctx rs Q r \<longleftrightarrow> sound r \<and>
     (\<forall>x ctx' rs'. r = Ok (x, ctx', rs') \<longrightarrow>
        (\<exists>R'. config_ok (R @ R') L ctx' rs' \<and> grows rs rs' \<and> context_grows ctx ctx' \<and> Q (R @ R') ctx' rs' x))"

lemma step_ok_bind:
  assumes "step_ok R L ctx rs P r"
    and "\<And>R' x ctx' rs'. r = Ok (x, ctx', rs') \<Longrightarrow> config_ok (R @ R') L ctx' rs' \<Longrightarrow> grows rs rs' \<Longrightarrow>
      context_grows ctx ctx' \<Longrightarrow> P (R @ R') ctx' rs' x \<Longrightarrow> step_ok (R @ R') L ctx' rs' Q (g x ctx' rs')"
  shows "step_ok R L ctx rs Q (and_then r (\<lambda>(x, ctx, rs). g x ctx rs))"
proof (cases r)
  case (Ok a)
  obtain x ctx' rs' where a: "a = (x, ctx', rs')" by (cases a)
  from assms(1) Ok a obtain R' where
    r: "config_ok (R @ R') L ctx' rs'" "grows rs rs'" "context_grows ctx ctx'" "P (R @ R') ctx' rs' x"
    by (auto simp: step_ok_def)
  with assms(2) Ok a have s: "step_ok (R @ R') L ctx' rs' Q (g x ctx' rs')" by simp
  show ?thesis
    unfolding step_ok_def
  proof (intro conjI allI impI)
    show "sound (and_then r (\<lambda>(x, ctx, rs). g x ctx rs))" using s by (simp add: Ok a step_ok_def)
    fix y ctx2 rs2 assume "and_then r (\<lambda>(x, ctx, rs). g x ctx rs) = Ok (y, ctx2, rs2)"
    then obtain R2 where "config_ok (R @ R' @ R2) L ctx2 rs2" "grows rs' rs2" "context_grows ctx' ctx2"
        "Q (R @ R' @ R2) ctx2 rs2 y"
      using s by (auto simp: Ok a step_ok_def)
    then show "\<exists>R'. config_ok (R @ R') L ctx2 rs2 \<and> grows rs rs2 \<and> context_grows ctx ctx2 \<and> Q (R @ R') ctx2 rs2 y"
      using r grows_trans context_grows_trans by blast
  qed
qed (use assms(1) in \<open>simp_all add: step_ok_def\<close>)

text \<open>Steps that leave the state alone.\<close>

lemma step_ok_pure:
  assumes "sound r" and "\<And>x. r = Ok x \<Longrightarrow> step_ok R L ctx rs Q (f x)"
  shows "step_ok R L ctx rs Q (and_then r f)"
  using assms by (cases r) (auto simp: step_ok_def)

lemma step_ok_return:
  assumes "config_ok (R @ R') L ctx' rs'" "grows rs rs'" "context_grows ctx ctx'" "Q (R @ R') ctx' rs' x"
  shows "step_ok R L ctx rs Q (Ok (x, ctx', rs'))"
  using assms by (auto simp: step_ok_def)

lemma step_ok_later:
  assumes "step_ok (R @ R') L ctx rs' Q r" "grows rs rs'"
  shows "step_ok R L ctx rs Q r"
proof -
  have "\<exists>R2. config_ok (R @ R2) L ctx2 rs2 \<and> grows rs rs2 \<and> context_grows ctx ctx2 \<and> Q (R @ R2) ctx2 rs2 x"
    if "config_ok ((R @ R') @ R1) L ctx2 rs2" "grows rs' rs2" "context_grows ctx ctx2" "Q ((R @ R') @ R1) ctx2 rs2 x"
    for R1 x ctx2 rs2
    using that grows_trans [OF assms(2)] by (metis append.assoc)
  with assms(1) show ?thesis unfolding step_ok_def by blast
qed

definition gives_symbol :: "nat set \<Rightarrow> nat set list \<Rightarrow> statement_context \<Rightarrow> 'p resolver \<Rightarrow> nat \<Rightarrow> bool" where
  "gives_symbol L R ctx rs s \<longleftrightarrow> s \<in> avail L ctx rs"

definition gives_symbols :: "nat set \<Rightarrow> nat set list \<Rightarrow> statement_context \<Rightarrow> 'p resolver \<Rightarrow> nat list \<Rightarrow> bool" where
  "gives_symbols L R ctx rs ss \<longleftrightarrow> set ss \<subseteq> avail L ctx rs"

abbreviation scope_fits :: "nat set list \<Rightarrow> nat set \<Rightarrow> statement_context \<Rightarrow> 'p resolver \<Rightarrow> scope \<Rightarrow> bool" where
  "scope_fits R L ctx rs sc \<equiv> scope_ok R (length (modules rs)) (avail L ctx rs) sc"

lemma new_symbol_ok:
  "config_ok R L ctx rs \<Longrightarrow> new_symbol rs = (s, rs') \<Longrightarrow> config_ok R L ctx rs' \<and> grows rs rs' \<and>
     top_level_body rs' = top_level_body rs \<and> modules rs' = modules rs \<and> avail L ctx rs' = avail L ctx rs"
  by (cases ctx) (auto simp: new_symbol_def config_ok_def state_ok_def grows_def active_def avail_def)

lemma resolve_node_end:
  assumes "config_ok R L ctx rs" "f < length R" "R ! f \<subseteq> avail L ctx rs"
    "set args \<subseteq> avail L ctx rs" "set phantoms \<subseteq> avail L ctx rs"
  shows "step_ok R L ctx rs (gives_symbol L)
    (let (symbol, rs) = new_symbol rs;
         (ctx, rs) = emit \<lparr>ir_name = symbol, ir_function = f, ir_arguments = args,
             ir_phantom_inputs = phantoms, ir_span = sp\<rparr> ctx rs
     in Ok (symbol, ctx, rs))"
proof -
  obtain s rs1 where n: "new_symbol rs = (s, rs1)" by (cases "new_symbol rs")
  note n1 = new_symbol_ok [OF assms(1) n]
  let ?n = "\<lparr>ir_name = s, ir_function = f, ir_arguments = args, ir_phantom_inputs = phantoms, ir_span = sp\<rparr>"
  obtain ctx2 rs2 where e: "emit ?n ctx rs1 = (ctx2, rs2)" by (cases "emit ?n ctx rs1")
  have e2: "config_ok R L ctx2 rs2 \<and> grows rs1 rs2 \<and> context_grows ctx ctx2 \<and> s \<in> avail L ctx2 rs2"
    using emit_ok [of R L ctx rs1 ?n ctx2 rs2] n1 assms e by simp
  then have "grows rs rs2" using n1 grows_trans by blast
  with e2 show ?thesis
    by (simp add: n e) (intro step_ok_return [of _ "[]"], simp_all add: gives_symbol_def)
qed

lemma literal_ok:
  assumes "config_ok R L ctx rs"
  shows "step_ok R L ctx rs (gives_symbol L) (case resolve_literal k sp rs of (s, rs) \<Rightarrow> Ok (s, ctx, rs))"
proof -
  obtain s rs' where l: "resolve_literal k sp rs = (s, rs')" by (cases "resolve_literal k sp rs")
  from resolve_literal_ok [OF assms l] obtain R' where
    "config_ok (R @ R') L ctx rs'" "grows rs rs'" "s \<in> top_names rs'" by blast
  then show ?thesis
    by (auto simp: l gives_symbol_def avail_def intro!: step_ok_return)
qed

lemma resolve_expressions_ok:
  "config_ok R L ctx rs \<Longrightarrow> scope_fits R L ctx rs sc \<Longrightarrow>
     step_ok R L ctx rs (gives_symbol L) (resolve_expression sc e ctx rs)"
  "config_ok R L ctx rs \<Longrightarrow> scope_fits R L ctx rs sc \<Longrightarrow> set_option fa \<subseteq> avail L ctx rs \<Longrightarrow>
     step_ok R L ctx rs (gives_symbol L) (resolve_node sc n fa ctx rs)"
  "config_ok R L ctx rs \<Longrightarrow> scope_fits R L ctx rs sc \<Longrightarrow> cur \<in> avail L ctx rs \<Longrightarrow>
     step_ok R L ctx rs (gives_symbol L) (resolve_chain sc nodes cur ctx rs)"
  "config_ok R L ctx rs \<Longrightarrow> scope_fits R L ctx rs sc \<Longrightarrow>
     step_ok R L ctx rs (gives_symbols L) (resolve_arguments sc es ctx rs)"
proof (induction sc e ctx rs and sc n fa ctx rs and sc nodes cur ctx rs and sc es ctx rs arbitrary: R and R and R and R
    rule: resolve_expression_resolve_node_resolve_chain_resolve_arguments.induct)
  case (3 sc l ctx rs)
  note label = get_label_ok [of R rs "avail L ctx rs" sc l]
  show ?case
    using label 3 by (auto intro!: step_ok_pure step_ok_return [of _ "[]"] simp: config_ok_def gives_symbol_def)
next
  case (5 sc start nodes sp ctx rs)
  show ?case
    unfolding resolve_expression.simps
  proof (rule step_ok_bind [OF "5.IH"(1) [OF "5.prems"]])
    fix R' x ctx' rs'
    assume r: "resolve_expression sc start ctx rs = Ok (x, ctx', rs')"
      and c: "config_ok (R @ R') L ctx' rs'" and g: "grows rs rs'" "context_grows ctx ctx'"
      and x: "gives_symbol L (R @ R') ctx' rs' x"
    have "x \<in> avail L ctx' rs'" using x by (simp add: gives_symbol_def)
    then show "step_ok (R @ R') L ctx' rs' (gives_symbol L) (resolve_chain sc nodes x ctx' rs')"
      by (rule "5.IH"(2) [OF r refl refl c scope_ok_grows [OF "5.prems"(2) g]])
  qed
next
  case (6 sc name arguments phantoms node_span first_argument ctx rs)
  have st: "state_ok R rs" using "6.prems" by (simp add: config_ok_def)
  note item = get_item_path_ok [OF st "6.prems"(2) top_names_avail]
  note labels = get_labels_ok [OF st "6.prems"(2) top_names_avail]
  have body: "step_ok R L ctx rs (gives_symbol L)
       (and_then (resolve_arguments sc arguments ctx rs) (\<lambda>(inline_arguments, ctx, rs).
       let resolved_arguments = (case first_argument of Some a \<Rightarrow> a # inline_arguments | None \<Rightarrow> inline_arguments);
           (symbol, rs) = new_symbol rs;
           (ctx, rs) = emit \<lparr>ir_name = symbol, ir_function = f, ir_arguments = resolved_arguments,
             ir_phantom_inputs = ss, ir_span = node_span\<rparr> ctx rs
       in Ok (symbol, ctx, rs)))"
    if f: "and_then (get_item_path rs sc (sval name)) (try_into_function (sspan name)) = Ok f"
      and ss: "try_map (get_label rs sc) phantoms = Ok ss" for f ss
  proof -
    have fn: "f < length R" "R ! f \<subseteq> avail L ctx rs"
      using item [of "sval name"] f by (auto simp: outcome_simps)
    have ph: "set ss \<subseteq> avail L ctx rs" using labels ss by blast
    show ?thesis
    proof (rule step_ok_bind [OF "6.IH" [OF f ss "6.prems"(1,2)]])
      fix R' args ctx' rs'
      assume c: "config_ok (R @ R') L ctx' rs'" and g: "grows rs rs'" "context_grows ctx ctx'"
        and args: "gives_symbols L (R @ R') ctx' rs' args"
      note av = avail_mono [OF g, of L]
      have "step_ok (R @ R') L ctx' rs' (gives_symbol L)
         (let (symbol, rs) = new_symbol rs';
             (ctx, rs) = emit \<lparr>ir_name = symbol, ir_function = f,
               ir_arguments = (case first_argument of Some a \<Rightarrow> a # args | None \<Rightarrow> args),
               ir_phantom_inputs = ss, ir_span = node_span\<rparr> ctx' rs
         in Ok (symbol, ctx, rs))"
        using fn ph args av "6.prems"(3)
        by (intro resolve_node_end [OF c]) (auto simp: nth_append gives_symbols_def split: option.split)
      then show "step_ok (R @ R') L ctx' rs' (gives_symbol L)
         (let resolved_arguments = (case first_argument of Some a \<Rightarrow> a # args | None \<Rightarrow> args);
           (symbol, rs) = new_symbol rs';
           (ctx, rs) = emit \<lparr>ir_name = symbol, ir_function = f, ir_arguments = resolved_arguments,
             ir_phantom_inputs = ss, ir_span = node_span\<rparr> ctx' rs
         in Ok (symbol, ctx, rs))"
        by (simp only: Let_def)
    qed
  qed
  have "sound (and_then (get_item_path rs sc (sval name)) (try_into_function (sspan name)))"
    using item by (auto simp: outcome_simps)
  moreover have "sound (try_map (get_label rs sc) phantoms)" using labels by blast
  ultimately show ?case
    unfolding resolve_node.simps by (intro step_ok_pure [of "and_then (get_item_path _ _ _) _"]
      step_ok_pure [of "try_map _ _"] body)
next
  case (8 sc n nodes current ctx rs)
  show ?case
    unfolding resolve_chain.simps
  proof (rule step_ok_bind [OF "8.IH"(1)])
    fix R' x ctx' rs'
    assume r: "resolve_node sc n (Some current) ctx rs = Ok (x, ctx', rs')"
      and c: "config_ok (R @ R') L ctx' rs'" and g: "grows rs rs'" "context_grows ctx ctx'"
      and x: "gives_symbol L (R @ R') ctx' rs' x"
    have "x \<in> avail L ctx' rs'" using x by (simp add: gives_symbol_def)
    then show "step_ok (R @ R') L ctx' rs' (gives_symbol L) (resolve_chain sc nodes x ctx' rs')"
      by (rule "8.IH"(2) [OF r refl refl c scope_ok_grows [OF "8.prems"(2) g]])
  qed (use "8.prems" in auto)
next
  case (10 sc e es ctx rs)
  show ?case
    unfolding resolve_arguments.simps
  proof (rule step_ok_bind [OF "10.IH"(1) [OF "10.prems"]])
    fix R' x ctx' rs'
    assume r: "resolve_expression sc e ctx rs = Ok (x, ctx', rs')"
      and c: "config_ok (R @ R') L ctx' rs'" and g: "grows rs rs'" "context_grows ctx ctx'"
      and x: "gives_symbol L (R @ R') ctx' rs' x"
    note IH = "10.IH"(2) [OF r refl refl c scope_ok_grows [OF "10.prems"(2) g]]
    show "step_ok (R @ R') L ctx' rs' (gives_symbols L)
       (and_then (resolve_arguments sc es ctx' rs') (\<lambda>(ss, ctx, rs). Ok (x # ss, ctx, rs)))"
      by (rule step_ok_bind [OF IH])
        (use x avail_mono in \<open>fastforce intro!: step_ok_return [of _ "[]"] simp: gives_symbol_def gives_symbols_def\<close>)
  qed
qed (auto intro!: literal_ok step_ok_return [of _ "[]"] simp: gives_symbol_def gives_symbols_def)

section \<open>Statements\<close>

text \<open>What statements rely on when they import: the contract of \<open>get_module\<close>.\<close>

definition getter_ok :: "'p module_getter \<Rightarrow> ustr list set \<Rightarrow> bool" where
  "getter_ok getm A \<longleftrightarrow> (\<forall>R path rs. state_ok R rs \<and> active rs = A \<longrightarrow>
     sound (getm path rs) \<and>
     (\<forall>m rs'. getm path rs = Ok (m, rs') \<longrightarrow>
        (\<exists>R'. state_ok (R @ R') rs' \<and> grows rs rs' \<and> m < length (modules rs'))))"

abbreviation gives_scope :: "nat set \<Rightarrow> nat set list \<Rightarrow> statement_context \<Rightarrow> 'p resolver \<Rightarrow> scope \<Rightarrow> bool" where
  "gives_scope L \<equiv> \<lambda>R ctx rs sc. scope_fits R L ctx rs sc"

lemma export_item_ok:
  assumes "config_ok R L ctx rs" "item_ok R (length (modules rs)) (avail L ctx rs) item"
  shows "sound (export_item name item sp ctx) \<and> (\<forall>ctx'. export_item name item sp ctx = Ok ctx' \<longrightarrow>
    config_ok R L ctx' rs \<and> context_body ctx' = context_body ctx)"
  using assms by (cases ctx) (auto simp: config_ok_def avail_def)

lemma bind_item_ok:
  assumes "config_ok R L ctx rs" "scope_fits R L ctx rs sc"
    "item_ok R (length (modules rs)) (avail L ctx rs) item"
  shows "step_ok R L ctx rs (gives_scope L) (and_then (bind_item export name item sc ctx) (\<lambda>(sc, ctx). Ok (sc, ctx, rs)))"
proof -
  have step: "step_ok R L ctx rs (gives_scope L) (Ok (scope_insert name item sc, ctx', rs))"
    if "config_ok R L ctx' rs" "context_body ctx' = context_body ctx" for ctx'
    using that assms(2,3) by (intro step_ok_return [of _ "[]"]) (auto simp: context_grows_def avail_def)
  show ?thesis
  proof (cases export)
    case None
    then show ?thesis using step [OF assms(1)] by (simp add: bind_item_def)
  next
    case (Some sp)
    from export_item_ok [OF assms(1,3), of name sp] step show ?thesis
      by (cases "export_item name item sp ctx") (simp_all add: bind_item_def Some step_ok_def)
  qed
qed

lemma context_ok_body: "context_ok R L ctx rs \<Longrightarrow> nodes_ok R (L \<union> top_names rs) (context_body ctx)"
  by (cases ctx) auto

lemma context_ok_return: "context_ok R L ctx rs \<Longrightarrow> context_return ctx = Some s \<Longrightarrow> s \<in> avail L ctx rs"
  by (cases ctx) (auto simp: avail_def)

lemma state_ok_new_symbol: "state_ok R rs \<Longrightarrow> new_symbol rs = (s, rs') \<Longrightarrow>
    state_ok R rs' \<and> grows rs rs' \<and> top_level_body rs' = top_level_body rs \<and> modules rs' = modules rs"
  by (auto simp: new_symbol_def state_ok_def grows_def active_def)

lemma resolve_required_ok:
  "state_ok R rs \<Longrightarrow> scope_ok R (length (modules rs)) D sc \<Longrightarrow> resolve_required ps sc rs = (ss, sc', rs') \<Longrightarrow>
     state_ok R rs' \<and> grows rs rs' \<and> top_level_body rs' = top_level_body rs \<and> modules rs' = modules rs \<and>
     scope_ok R (length (modules rs)) (D \<union> set ss) sc'"
proof (induction ps arbitrary: sc rs ss D sc' rs')
  case (Cons p ps)
  obtain s rs1 where n: "new_symbol rs = (s, rs1)" by (cases "new_symbol rs")
  note n1 = state_ok_new_symbol [OF Cons.prems(1) n]
  let ?sc = "scope_insert (sval p) (Label s) sc"
  obtain ss1 sc1 rs2 where r: "resolve_required ps ?sc rs1 = (ss1, sc1, rs2)" by (metis prod_cases3)
  have "scope_ok R (length (modules rs)) (insert s D) sc"
    using scope_ok_mono [OF Cons.prems(2) order.refl subset_insertI [of D s], of "[]"] by simp
  then have "scope_ok R (length (modules rs1)) (insert s D) ?sc"
    using n1 by simp
  from Cons.IH [OF _ this r] n1 Cons.prems(3) r show ?case
    by (auto simp: n grows_def Un_commute intro: grows_trans)
qed simp

lemma resolve_defaults_ok:
  "state_ok R rs \<Longrightarrow> scope_ok R (length (modules rs)) (L \<union> top_names rs) sc \<Longrightarrow>
     sound (resolve_defaults ps sc rs) \<and>
     (\<forall>ds sc' rs'. resolve_defaults ps sc rs = Ok (ds, sc', rs') \<longrightarrow>
       (\<exists>R'. state_ok (R @ R') rs' \<and> grows rs rs' \<and> defaults_ok (R @ R') (L \<union> top_names rs') ds \<and>
          scope_ok (R @ R') (length (modules rs')) (L \<union> fst ` set ds \<union> top_names rs') sc'))"
proof (induction ps arbitrary: R L sc rs)
  case Nil
  then show ?case by (auto intro!: exI [of _ "[]"])
next
  case (Cons p ps)
  obtain parameter dflt where p: "p = (parameter, dflt)" by (cases p)
  let ?ctx = "FunctionContext None []"
  have c: "config_ok R L ?ctx rs" using Cons.prems by (simp add: config_ok_def)
  have fits: "scope_fits R L ?ctx rs sc" using Cons.prems by (simp add: avail_def)
  have e: "step_ok R L ?ctx rs (gives_symbol L) (resolve_expression sc dflt ?ctx rs)"
    by (rule resolve_expressions_ok(1) [OF c fits])
  show ?case
  proof (cases "resolve_expression sc dflt ?ctx rs")
    case (Ok a)
    obtain s ctx1 rs1 where a: "a = (s, ctx1, rs1)" by (cases a)
    from e Ok a obtain R1 where c1: "config_ok (R @ R1) L ctx1 rs1" and g1: "grows rs rs1"
      and s: "s \<in> avail L ctx1 rs1"
      by (auto simp: step_ok_def gives_symbol_def)
    obtain q rs2 where n: "new_symbol rs1 = (q, rs2)" by (cases "new_symbol rs1")
    have st1: "state_ok (R @ R1) rs1" using c1 by (simp add: config_ok_def)
    note n2 = state_ok_new_symbol [OF st1 n]
    have g: "length (modules rs) \<le> length (modules rs2)" "top_names rs \<subseteq> top_names rs2"
      using g1 n2 by (auto simp: grows_def)
    let ?sc = "scope_insert (sval parameter) (Label q) sc"
    have "scope_ok (R @ R1) (length (modules rs2)) (insert q L \<union> top_names rs2) sc"
      by (rule scope_ok_mono [OF Cons.prems(2) g(1)]) (use g(2) in auto)
    then have "scope_ok (R @ R1) (length (modules rs2)) (insert q L \<union> top_names rs2) ?sc"
      by (rule scope_ok_insert) simp
    note IH = Cons.IH [OF conjunct1 [OF n2] this]
    show ?thesis
    proof (intro conjI allI impI)
      show "sound (resolve_defaults (p # ps) sc rs)" using IH by (auto simp: p Ok a n outcome_simps)
      fix ds sc' rs' assume "resolve_defaults (p # ps) sc rs = Ok (ds, sc', rs')"
      then obtain ds1 where d: "resolve_defaults ps ?sc rs2 = Ok (ds1, sc', rs')"
        "ds = (q, s, context_body ctx1) # ds1"
        by (auto simp: p Ok a n outcome_simps)
      from IH d(1) obtain R2 where r2: "state_ok (R @ R1 @ R2) rs'" "grows rs2 rs'"
        "defaults_ok (R @ R1 @ R2) (insert q L \<union> top_names rs') ds1"
        "scope_ok (R @ R1 @ R2) (length (modules rs')) (insert q L \<union> fst ` set ds1 \<union> top_names rs') sc'"
        by auto
      have t: "top_names rs1 \<subseteq> top_names rs'" using n2 r2(2) by (auto simp: grows_def)
      have "nodes_ok (R @ R1 @ R2) (L \<union> top_names rs') (context_body ctx1)"
        using nodes_ok_mono [OF context_ok_body, of "R @ R1" L ctx1 rs1 "L \<union> top_names rs'" R2] c1 t
        by (auto simp: config_ok_def)
      moreover have "s \<in> L \<union> top_names rs' \<union> names (context_body ctx1)" using s t by (auto simp: avail_def)
      ultimately have "defaults_ok (R @ R1 @ R2) (L \<union> top_names rs') ds"
        using r2(3) by (simp add: d(2))
      moreover have "grows rs rs'" using g1 n2 r2(2) grows_trans by blast
      moreover have "insert q L \<union> fst ` set ds1 \<union> top_names rs' = L \<union> fst ` set ds \<union> top_names rs'"
        by (auto simp: d(2))
      ultimately show "\<exists>R'. state_ok (R @ R') rs' \<and> grows rs rs' \<and> defaults_ok (R @ R') (L \<union> top_names rs') ds \<and>
          scope_ok (R @ R') (length (modules rs')) (L \<union> fst ` set ds \<union> top_names rs') sc'"
        using r2(1,4) by (intro exI [of _ "R1 @ R2"]) simp
    qed
  qed (use e in \<open>simp_all add: p step_ok_def\<close>)
qed

text \<open>The end of a function definition: the function is stored and its name bound.\<close>

lemma function_end_ok:
  assumes c: "config_ok R L ctx rs" and fits: "scope_fits R L ctx rs sc"
    and fn: "function_ok R (avail L ctx rs) (length (rs_nodes rs)) fn"
  shows "step_ok R L ctx rs (gives_scope L)
    (let (function_id, rs) = push_function fn rs
     in and_then (bind_item export name (Function function_id) sc ctx) (\<lambda>(sc, ctx). Ok (sc, ctx, rs)))"
proof -
  obtain f rs' where p: "push_function fn rs = (f, rs')" by (cases "push_function fn rs")
  let ?D = "avail L ctx rs"
  have st: "state_ok R rs" using c by (simp add: config_ok_def)
  note s' = state_ok_push_function [OF st fn p]
  have g: "grows rs rs'" using s' by (simp add: grows_def active_def)
  have av: "avail L ctx rs' = ?D" using s' by (simp add: avail_def)
  have "config_ok (R @ [?D]) L ctx rs'" using s' context_ok_mono [OF _ g] c by (simp add: config_ok_def)
  moreover have "scope_fits (R @ [?D]) L ctx rs' sc"
    using scope_ok_grows [OF fits g context_grows_refl] .
  moreover have "item_ok (R @ [?D]) (length (modules rs')) (avail L ctx rs') (Function f)"
    using s' by (simp add: av nth_append)
  ultimately have "step_ok (R @ [?D]) L ctx rs' (gives_scope L)
      (and_then (bind_item export name (Function f) sc ctx) (\<lambda>(sc, ctx). Ok (sc, ctx, rs')))"
    by (rule bind_item_ok)
  from step_ok_later [OF this g] show ?thesis by (simp add: p)
qed

lemma function_statement_ok:
  assumes c: "config_ok R L ctx rs" and fits: "scope_fits R L ctx rs sc"
    and body: "\<And>R' L' symbols fsc0 rs1 ds fsc rs2.
      resolve_required required (scope_child sc) rs = (symbols, fsc0, rs1) \<Longrightarrow>
      resolve_defaults defaults fsc0 rs1 = Ok (ds, fsc, rs2) \<Longrightarrow>
      config_ok R' L' (FunctionContext None []) rs2 \<Longrightarrow>
      scope_fits R' L' (FunctionContext None []) rs2 fsc \<Longrightarrow> active rs2 = active rs \<Longrightarrow>
      step_ok R' L' (FunctionContext None []) rs2 (gives_scope L')
        (resolve_statements getm path statements fsc (FunctionContext None []) rs2)"
  shows "step_ok R L ctx rs (gives_scope L)
    (resolve_statement getm path (SFunction export name required defaults statements) sc ctx rs)"
proof -
  let ?fctx = "FunctionContext None []"
  define L0 where "L0 = L \<union> names (context_body ctx)"
  obtain symbols fsc0 rs1 where rq: "resolve_required required (scope_child sc) rs = (symbols, fsc0, rs1)"
    by (metis prod_cases3)
  have st: "state_ok R rs" using c by (simp add: config_ok_def)
  have r1: "state_ok R rs1" "grows rs rs1" "top_level_body rs1 = top_level_body rs" "modules rs1 = modules rs"
      "scope_ok R (length (modules rs)) (avail L ctx rs \<union> set symbols) fsc0"
    using resolve_required_ok [OF st scope_ok_child [OF fits] rq] by auto
  define L1 where "L1 = L0 \<union> set symbols"
  have "avail L ctx rs \<union> set symbols = L1 \<union> top_names rs1"
    by (auto simp: L1_def L0_def avail_def r1(3))
  with r1 have "scope_ok R (length (modules rs1)) (L1 \<union> top_names rs1) fsc0" by simp
  note ds = resolve_defaults_ok [OF r1(1) this, of defaults]
  show ?thesis
  proof (cases "resolve_defaults defaults fsc0 rs1")
    case (Ok a)
    obtain ds fsc rs2 where d: "resolve_defaults defaults fsc0 rs1 = Ok (ds, fsc, rs2)"
      using Ok by (cases a) auto
    from ds d obtain R1 where s2: "state_ok (R @ R1) rs2" "grows rs1 rs2"
      "defaults_ok (R @ R1) (L1 \<union> top_names rs2) ds"
      "scope_ok (R @ R1) (length (modules rs2)) (L1 \<union> fst ` set ds \<union> top_names rs2) fsc"
      by blast
    define L2 where "L2 = L1 \<union> fst ` set ds"
    have "config_ok (R @ R1) L2 ?fctx rs2" using s2(1) by (simp add: config_ok_def)
    moreover have "scope_fits (R @ R1) L2 ?fctx rs2 fsc" using s2(4) by (simp add: avail_def L2_def)
    moreover have g2: "grows rs rs2" using r1(2) s2(2) by (rule grows_trans)
    ultimately have b: "step_ok (R @ R1) L2 ?fctx rs2 (gives_scope L2)
        (resolve_statements getm path statements fsc ?fctx rs2)"
      using body [OF rq d] by (simp add: grows_def)
    show ?thesis
    proof (cases "resolve_statements getm path statements fsc ?fctx rs2")
      case (Ok a)
      obtain fsc3 fctx rs3 where a: "a = (fsc3, fctx, rs3)" by (cases a)
      from b Ok a obtain R2 where s3: "config_ok (R @ R1 @ R2) L2 fctx rs3" "grows rs2 rs3"
        by (auto simp: step_ok_def)
      have g3: "grows rs rs3" using g2 s3(2) by (rule grows_trans)
      have c3: "config_ok (R @ R1 @ R2) L ctx rs3"
        using s3(1) context_ok_mono [OF _ g3] c by (simp add: config_ok_def)
      note fits3 = scope_ok_grows [OF fits g3 context_grows_refl, of "R1 @ R2"]
      show ?thesis
      proof (cases "context_return fctx")
        case (Some ret)
        have t: "top_names rs2 \<subseteq> top_names rs3" using s3(2) by (simp add: grows_def)
        have "defaults_ok (R @ R1 @ R2) (avail L ctx rs3 \<union> set symbols) ds"
          using defaults_ok_mono [OF s2(3), of "avail L ctx rs3 \<union> set symbols" R2] t
          by (auto simp: L1_def L0_def avail_def)
        moreover have eq: "L2 \<union> top_names rs3 = avail L ctx rs3 \<union> set symbols \<union> fst ` set ds"
          by (auto simp: L2_def L1_def L0_def avail_def)
        have "context_ok (R @ R1 @ R2) L2 fctx rs3" using s3(1) by (simp add: config_ok_def)
        from context_ok_body [OF this] context_ok_return [OF this Some]
        have "nodes_ok (R @ R1 @ R2) (avail L ctx rs3 \<union> set symbols \<union> fst ` set ds) (context_body fctx)"
          "ret \<in> avail L ctx rs3 \<union> set symbols \<union> fst ` set ds \<union> names (context_body fctx)"
          unfolding eq [symmetric] by (auto simp: avail_def)
        ultimately have "function_ok (R @ R1 @ R2) (avail L ctx rs3) (length (rs_nodes rs3))
            (Custom symbols ds (context_body fctx) ret)"
          by (simp add: Let_def)
        from step_ok_later [OF function_end_ok [OF c3 fits3 this] g3] show ?thesis
          by (simp add: rq d Ok a Some)
      qed (simp add: rq d Ok a ok_or_def step_ok_def)
    qed (use b in \<open>simp_all add: rq d step_ok_def\<close>)
  qed (use ds in \<open>simp_all add: rq step_ok_def\<close>)
qed

lemma resolve_statements_ok:
  assumes get: "getter_ok getm A"
  shows "config_ok R L ctx rs \<Longrightarrow> scope_fits R L ctx rs sc \<Longrightarrow> active rs = A \<Longrightarrow>
      step_ok R L ctx rs (gives_scope L) (resolve_statement getm path s sc ctx rs)"
    and "config_ok R L ctx rs \<Longrightarrow> scope_fits R L ctx rs sc \<Longrightarrow> active rs = A \<Longrightarrow>
      step_ok R L ctx rs (gives_scope L) (resolve_statements getm path ss sc ctx rs)"
  using get
proof (induction getm path s sc ctx rs and getm path ss sc ctx rs arbitrary: R L and R L
    rule: resolve_statement_resolve_statements.induct)
  case (1 getm path export ipath name sc ctx rs)
  let ?p = "import_path path (sval ipath)"
  have g: "sound (getm ?p rs)" "getm ?p rs = Ok (m, rs') \<Longrightarrow>
      \<exists>R'. state_ok (R @ R') rs' \<and> grows rs rs' \<and> m < length (modules rs')" for m rs'
    using 1 by (auto simp: getter_ok_def config_ok_def)
  show ?case
  proof (cases "getm ?p rs")
    case (Ok a)
    obtain m rs' where a: "a = (m, rs')" by (cases a)
    with g(2) Ok obtain R' where r: "state_ok (R @ R') rs'" "grows rs rs'" "m < length (modules rs')" by auto
    have "config_ok (R @ R') L ctx rs'"
      using r context_ok_mono [OF _ r(2)] 1 by (simp add: config_ok_def)
    then have "step_ok (R @ R') L ctx rs' (gives_scope L)
        (and_then (bind_item export (sval name) (Module m) sc ctx) (\<lambda>(sc, ctx). Ok (sc, ctx, rs')))"
      using scope_ok_grows [OF "1.prems"(2) r(2) context_grows_refl] r(3) by (intro bind_item_ok) auto
    from step_ok_later [OF this r(2)] show ?thesis by (simp add: Ok a)
  qed (use g in \<open>simp_all add: step_ok_def\<close>)
next
  case (2 getm path return_kw expression sc ctx rs)
  have fin: "step_ok R' L ctx' rs' (gives_scope L)
      (and_then (set_return_value v return_kw ctx') (\<lambda>ctx. Ok (sc, ctx, rs')))"
    if "config_ok R' L ctx' rs'" "v \<in> avail L ctx' rs'" "scope_fits R' L ctx' rs' sc" for R' ctx' rs' v
    using that
    by (cases ctx') (auto simp: step_ok_def config_ok_def avail_def context_grows_def intro!: exI [of _ "[]"])
  show ?case
    unfolding resolve_statement.simps
    by (rule step_ok_bind [OF resolve_expressions_ok(1) [OF "2.prems"(1,2)]])
      (auto intro!: fin scope_ok_grows [OF "2.prems"(2)] simp: gives_symbol_def)
next
  case (3 getm path export expression label sc ctx rs)
  show ?case
    unfolding resolve_statement.simps
    by (rule step_ok_bind [OF resolve_expressions_ok(1) [OF "3.prems"(1,2)]])
      (auto intro!: bind_item_ok scope_ok_grows [OF "3.prems"(2)] simp: gives_symbol_def)
next
  case (4 getm path export name required defaults statements sc ctx rs)
  show ?case
  proof (rule function_statement_ok)
    fix R' L' symbols fsc0 rs1 ds fsc rs2
    assume r: "resolve_required required (scope_child sc) rs = (symbols, fsc0, rs1)"
      "resolve_defaults defaults fsc0 rs1 = Ok (ds, fsc, rs2)"
      and s: "config_ok R' L' (FunctionContext None []) rs2" "scope_fits R' L' (FunctionContext None []) rs2 fsc"
        "active rs2 = active rs"
    show "step_ok R' L' (FunctionContext None []) rs2 (gives_scope L')
        (resolve_statements getm path statements fsc (FunctionContext None []) rs2)"
      using s "4.prems" by (intro "4.IH" [OF r(1) [symmetric] refl refl r(2) refl refl]) auto
  qed (use "4.prems" in auto)
next
  case (5 getm path sc ctx rs)
  then show ?case by (auto intro!: step_ok_return [of _ "[]"])
next
  case (6 getm path s ss sc ctx rs)
  show ?case
    unfolding resolve_statements.simps
  proof (rule step_ok_bind [OF "6.IH"(1) [OF "6.prems"]])
    fix R' sc' ctx' rs'
    assume r: "resolve_statement getm path s sc ctx rs = Ok (sc', ctx', rs')"
      and c: "config_ok (R @ R') L ctx' rs'" and g: "grows rs rs'" and sc: "scope_fits (R @ R') L ctx' rs' sc'"
    show "step_ok (R @ R') L ctx' rs' (gives_scope L) (resolve_statements getm path ss sc' ctx' rs')"
      using g "6.prems" by (intro "6.IH"(2) [OF r refl refl c sc]) (auto simp: grows_def)
  qed
qed

section \<open>Modules\<close>

definition readable :: "host \<Rightarrow> ustr list set" where
  "readable h = components ` {p. \<exists>code. load_file h p = Ok code}"

definition prelude_items_ok :: "items \<Rightarrow> bool" where
  "prelude_items_ok items \<longleftrightarrow>
     ran items \<subseteq> Function ` {..< length (prelude :: (ustr \<times> unit node_impl) list)}"

lemma tokenize_eof_ended: "tokenize u fid code = Ok ts \<Longrightarrow> eof_ended ts"
  by (auto simp: tokenize_def outcome_simps eof_ended_def)

lemma parse_file_ok: "eof_ended ts \<Longrightarrow> sound (parse_file ts)"
  unfolding parse_file_def by (intro parse_file_from_sound) simp_all

lemma resolve_module_ok:
  assumes "prelude_items_ok items" "getter_ok getm A" "state_ok R rs" "active rs = A"
    "load_file h path = Ok code"
  shows "sound (resolve_module u h items getm path rs) \<and>
    (\<forall>m rs'. resolve_module u h items getm path rs = Ok (m, rs') \<longrightarrow>
      (\<exists>R'. state_ok (R @ R') rs' \<and> grows rs rs' \<and> scope_ok (R @ R') (length (modules rs')) (top_names rs') m))"
proof -
  obtain vf fid where vf: "vf_push (vfile rs) path code = (vf, fid)" by (cases "vf_push (vfile rs) path code")
  let ?rs = "rs\<lparr>vfile := vf\<rparr>"
  let ?ctx = "ModuleContext scope_root"
  have st: "state_ok R ?rs" using assms(3) by (simp add: state_ok_def)
  then have c: "config_ok R {} ?ctx ?rs" by (simp add: config_ok_def scope_ok_def scope_root_def)
  have "prelude_ok R" using assms(3) by (simp add: state_ok_def)
  then have "scope_fits R {} ?ctx ?rs (scope_child [items])"
    using assms(1) by (auto simp: scope_ok_def scope_child_def prelude_items_ok_def prelude_ok_def)
  moreover have "active ?rs = A" using assms(4) by (simp add: active_def)
  ultimately have r: "step_ok R {} ?ctx ?rs (gives_scope {})
      (resolve_statements getm path ss (scope_child [items]) ?ctx ?rs)" for ss
    by (rule resolve_statements_ok(2) [OF assms(2) c])
  have g: "grows rs ?rs" by (simp add: grows_def active_def)
  have ex: "scope_ok R' (length (modules rs')) (top_names rs') (exports_of ctx')"
    if "context_ok R' {} ctx' rs'" for R' ctx' rs'
    using that by (cases ctx') (auto simp: scope_ok_def scope_root_def)
  have eq: "resolve_module u h items getm path rs = and_then (tokenize u fid code) (\<lambda>tokens.
       and_then (parse_file tokens) (\<lambda>statements.
       and_then (resolve_statements getm path statements (scope_child [items])
         (ModuleContext scope_root) ?rs) (\<lambda>(sc, ctx, rs). Ok (exports_of ctx, rs))))"
    by (simp add: resolve_module_def assms(5) vf)
  show ?thesis
  proof (cases "tokenize u fid code")
    case (Ok tokens)
    note t = Ok parse_file_ok [OF tokenize_eof_ended [OF Ok]]
    show ?thesis
    proof (cases "parse_file tokens")
      case (Ok ss)
      note rs = r [of ss, unfolded step_ok_def]
      show ?thesis
      proof (cases "resolve_statements getm path ss (scope_child [items]) ?ctx ?rs")
        case Ok': (Ok a)
        obtain sc ctx' rs' where a: "a = (sc, ctx', rs')" by (cases a)
        with rs Ok' obtain R' where "config_ok (R @ R') {} ctx' rs'" "grows ?rs rs'" by blast
        then show ?thesis
          using ex grows_trans [OF g] by (auto simp: eq t Ok Ok' a config_ok_def)
      qed (use rs in \<open>simp_all add: eq t Ok\<close>)
    qed (use t in \<open>simp_all add: eq\<close>)
  qed (use tokenize_sound [of u fid code] in \<open>simp_all add: eq\<close>)
qed

lemma get_module_ok:
  assumes "prelude_items_ok items" "finite (readable h)"
  shows "card (readable h - A) < n \<Longrightarrow> getter_ok (get_module u h items n) A"
proof (induction n arbitrary: A)
  case (Suc n)
  show ?case
    unfolding getter_ok_def
  proof (intro allI impI)
    fix R path and rs :: "'a resolver" assume s: "state_ok R rs \<and> active rs = A"
    let ?p = "module_key h path" and ?key = "components (module_key h path)"
    let ?rs = "rs\<lparr>module_cache := (module_cache rs)(?key \<mapsto> None)\<rparr>"
    let ?r = "get_module u h items (Suc n) path rs"
    let ?goal = "sound ?r \<and> (\<forall>m rs'. ?r = Ok (m, rs') \<longrightarrow>
        (\<exists>R'. state_ok (R @ R') rs' \<and> grows rs rs' \<and> m < length (modules rs')))"
    show ?goal
    proof (cases "module_cache rs ?key")
      case None
      then have "?key \<notin> A" using s by (auto simp: active_def)
      show ?thesis
      proof (cases "\<exists>code. load_file h ?p = Ok code")
        case False
        then have "load_file h ?p = Err (FileReading ?p)"
          by (cases "if is_stdlib_path ?p then stdlib_get h ?p else read_to_string h ?p")
            (auto simp: load_file_def ok_or_def)
        then show ?thesis using None by (simp add: resolve_module_def)
      next
        case True
        then obtain code where code: "load_file h ?p = Ok code" by blast
        then have "?key \<in> readable h" by (auto simp: readable_def)
        then have "card (readable h - insert ?key A) < card (readable h - A)"
          using assms(2) \<open>?key \<notin> A\<close> by (intro psubset_card_mono) auto
        then have get: "getter_ok (get_module u h items n :: 'a module_getter) (insert ?key A)"
          using Suc.prems by (intro Suc.IH) simp
        have st: "state_ok R ?rs" using s by (auto simp: state_ok_def)
        have ac: "active ?rs = insert ?key A" using s by (auto simp: active_def)
        note rm = resolve_module_ok [OF assms(1) get st ac code, of u]
        show ?thesis
        proof (cases "resolve_module u h items (get_module u h items n) ?p ?rs")
          case (Ok a)
          obtain m rs' where a: "a = (m, rs')" by (cases a)
          with rm Ok obtain R' where r: "state_ok (R @ R') rs'" "grows ?rs rs'"
            "scope_ok (R @ R') (length (modules rs')) (top_names rs') m" by blast
          let ?rs2 = "rs'\<lparr>modules := modules rs' @ [m],
              module_cache := (module_cache rs')(?key \<mapsto> Some (length (modules rs')))\<rparr>"
          have "scope_ok (R @ R') (Suc (length (modules rs'))) (top_names rs') sc"
            if "sc = m \<or> sc \<in> set (modules rs')" for sc
            using that r(3) state_ok_modules [OF r(1) order.refl]
              scope_ok_mono [of "R @ R'" "length (modules rs')" "top_names rs'" sc _ _ "[]"] by auto
          then have "state_ok (R @ R') ?rs2"
            using r(1) by (auto simp: state_ok_def less_Suc_eq)
          moreover have "active ?rs2 = active rs"
            using r(2) None by (auto simp: active_def grows_def split: if_split_asm)
          ultimately show ?thesis
            using None r(2) by (auto simp: Ok a store_push_def grows_def)
        qed (use rm None in simp_all)
      qed
    next
      case (Some v)
      then show ?thesis
        using s by (cases v) (auto simp: state_ok_def intro!: exI [of _ "[]"])
    qed
  qed
qed simp

section \<open>Programs\<close>

lemma create_prelude_from_effect:
  "length (rs_nodes rs) = k \<Longrightarrow> length (rs_functions rs) = k \<Longrightarrow>
   create_prelude_from ps items noop rs = (items', noop', rs') \<Longrightarrow>
     rs' = rs\<lparr>rs_nodes := rs_nodes rs @ map snd ps,
       rs_functions := rs_functions rs @ map BuiltinFunction [k ..< k + length ps]\<rparr> \<and>
     ran items' \<subseteq> ran items \<union> Function ` {k ..< k + length ps} \<and>
     (NOOP_NAME \<notin> fst ` set ps \<longrightarrow> noop' = noop)"
proof (induction ps arbitrary: items noop rs k)
  case (Cons p ps)
  obtain name impl where p: "p = (name, impl)" by (cases p)
  let ?rs = "rs\<lparr>rs_nodes := rs_nodes rs @ [impl], rs_functions := rs_functions rs @ [BuiltinFunction k]\<rparr>"
  have step: "create_prelude_from ps (items(name \<mapsto> Function k)) (if name = NOOP_NAME then Some k else noop) ?rs
      = (items', noop', rs')"
    using Cons.prems by (simp add: p push_node_def push_function_def store_push_def)
  have l: "length (rs_nodes ?rs) = Suc k" "length (rs_functions ?rs) = Suc k" using Cons.prems by simp_all
  note IH = Cons.IH [OF l step]
  have "[k ..< Suc k + length ps] = k # [Suc k ..< Suc k + length ps]"
    by (rule upt_conv_Cons) simp
  then have st: "rs' = rs\<lparr>rs_nodes := rs_nodes rs @ map snd (p # ps),
       rs_functions := rs_functions rs @ map BuiltinFunction [k ..< k + length (p # ps)]\<rparr>"
    using IH by (simp add: p del: upt_Suc)
  have "ran (items(name \<mapsto> Function k)) \<subseteq> ran items \<union> {Function k}"
    by (auto simp: ran_def split: if_split_asm)
  moreover have "{k ..< k + length (p # ps)} = insert k {Suc k ..< Suc k + length ps}" by auto
  ultimately have "ran items' \<subseteq> ran items \<union> Function ` {k ..< k + length (p # ps)}"
    using conjunct1 [OF conjunct2 [OF IH]] by blast
  moreover have "NOOP_NAME \<notin> fst ` set (p # ps) \<longrightarrow> noop' = noop"
    using conjunct2 [OF conjunct2 [OF IH]] by (auto simp: p split: if_split_asm)
  ultimately show ?case using st by blast
qed simp

lemma prelude_distinct: "distinct (map fst (prelude :: (ustr \<times> 'p node_impl) list))"
  by (simp add: prelude_def NOOP_NAME_def ustr_def)

lemma prelude_Cons:
  "(prelude :: (ustr \<times> 'p node_impl) list) = (NOOP_NAME, Noop) # tl prelude"
  "NOOP_NAME \<notin> fst ` set (tl (prelude :: (ustr \<times> 'p node_impl) list))"
  using prelude_distinct [where 'p = 'p] by (simp_all add: prelude_def)

lemma create_prelude_ok:
  obtains items rs where
    "create_prelude (resolver_new vf :: 'p resolver) = Ok (items, 0, rs)"
    "prelude_items_ok items" "state_ok (replicate (length (prelude :: (ustr \<times> 'p node_impl) list)) {}) rs"
    "active rs = {}"
proof -
  let ?n = "length (prelude :: (ustr \<times> 'p node_impl) list)"
  obtain items noop rs where c: "create_prelude_from prelude Map.empty None (resolver_new vf :: 'p resolver) = (items, noop, rs)"
    by (metis prod_cases3)
  have rs: "rs = (resolver_new vf)\<lparr>rs_nodes := map snd prelude, rs_functions := map BuiltinFunction [0 ..< ?n]\<rparr>"
    and items: "ran items \<subseteq> Function ` {0 ..< ?n}"
    using create_prelude_from_effect [OF _ _ c, of 0]
    by (simp_all add: resolver_new_def store_new_def)
  have "noop = Some 0"
  proof -
    let ?rs = "(resolver_new vf :: 'p resolver)\<lparr>rs_nodes := [Noop], rs_functions := [BuiltinFunction 0]\<rparr>"
    have "create_prelude_from (tl prelude) [NOOP_NAME \<mapsto> Function 0] (Some 0) ?rs = (items, noop, rs)"
      using c by (subst (asm) prelude_Cons)
        (simp add: push_node_def push_function_def store_push_def resolver_new_def store_new_def)
    from create_prelude_from_effect [OF _ _ this, of 1] prelude_Cons(2) [where 'p = 'p] show ?thesis by simp
  qed
  moreover have "prelude_items_ok items"
    using items by (auto simp: prelude_items_ok_def prelude_def)
  moreover have "state_ok (replicate ?n {}) rs"
  proof -
    have "well_signed impl" if "impl \<in> snd ` set (prelude :: (ustr \<times> 'p node_impl) list)" for impl
      using prelude_well_signed that .
    moreover have "\<exists>ns. map snd (prelude :: (ustr \<times> 'p node_impl) list) = Noop # ns"
      using prelude_Cons(1) [where 'p = 'p] by (metis list.simps(9) snd_conv)
    moreover have "length (prelude :: (ustr \<times> unit node_impl) list) = ?n" by (simp add: prelude_def)
    ultimately show ?thesis
      by (auto simp: state_ok_def rs resolver_new_def store_new_def functions_ok_def prelude_ok_def)
  qed
  moreover have "active rs = {}" by (simp add: rs active_def resolver_new_def)
  ultimately show thesis using that c by (simp add: create_prelude_def)
qed

text \<open>What the compiler is handed: a closed program.\<close>

definition closed_program :: "nat set list \<Rightarrow> 'p resolve_result \<Rightarrow> bool" where
  "closed_program R r \<longleftrightarrow>
     functions_ok R (length (rr_nodes r)) (pl_functions (rr_ir r)) \<and>
     nodes_ok R {} (top_level (rr_ir r)) \<and>
     start_point (rr_ir r) \<in> names (top_level (rr_ir r)) \<and>
     (\<forall>impl \<in> set (rr_nodes r). well_signed impl) \<and>
     rr_noop r < length (rr_nodes r) \<and> rr_nodes r ! rr_noop r = Noop"

lemma resolve_ok:
  assumes "finite (readable h)" and "card (readable h) < fuel"
  shows "sound (resolve u h fuel vf file entry_point :: 'p resolve_result compile_result) \<and>
    (\<forall>r. resolve u h fuel vf file entry_point = Ok (r :: 'p resolve_result) \<longrightarrow> (\<exists>R. closed_program R r))"
proof -
  obtain items rs where pre: "create_prelude (resolver_new vf :: 'p resolver) = Ok (items, 0, rs)"
    "prelude_items_ok items" "state_ok (replicate (length (prelude :: (ustr \<times> 'p node_impl) list)) {}) rs"
    "active rs = {}"
    by (rule create_prelude_ok)
  obtain vf' cli where vf: "vf_push (vfile rs) (ustr ''<cli>'') entry_point = (vf', cli)"
    by (cases "vf_push (vfile rs) (ustr ''<cli>'') entry_point")
  define rs1 where "rs1 = rs\<lparr>vfile := vf'\<rparr>"
  define sp where "sp = span_new cli 0 (blen entry_point)"
  let ?R = "replicate (length (prelude :: (ustr \<times> 'p node_impl) list)) {}"
  have st: "state_ok ?R rs1" "active rs1 = {}"
    using pre by (simp_all add: state_ok_def active_def rs1_def)
  have get: "getter_ok (get_module u h items fuel :: 'p module_getter) {}"
    using assms by (intro get_module_ok [OF pre(2) assms(1)]) simp
  have eq: "resolve u h fuel vf file entry_point =
       and_then (get_module u h items fuel file rs1) (\<lambda>(start_module, rs).
       and_then (store_get (modules rs) start_module) (\<lambda>m.
       and_then (and_then (lookup m entry_point sp) (try_into_label sp)) (\<lambda>start_symbol.
         Ok \<lparr>rr_ir = \<lparr>top_level = top_level_body rs, pl_functions = rs_functions rs, start_point = start_symbol\<rparr>,
             rr_nodes = rs_nodes rs, rr_noop = 0\<rparr>)))"
    by (simp add: resolve_def pre(1) vf rs1_def sp_def Let_def)
  have sg: "sound (get_module u h items fuel file rs1)"
    using get st unfolding getter_ok_def by blast
  show ?thesis
  proof (cases "get_module u h items fuel file rs1")
    case (Ok a)
    obtain m rs' where a: "a = (m, rs')" by (cases a)
    from get st Ok a obtain R' where r: "state_ok (?R @ R') rs'" "m < length (modules rs')"
      unfolding getter_ok_def by blast
    have sc: "scope_ok (?R @ R') (length (modules rs')) (top_names rs') (modules rs' ! m)"
      using state_ok_modules [OF r(1) order.refl] r(2) by simp
    note l = lookup_ok [OF sc, of entry_point sp]
    have snd: "sound (and_then (lookup (modules rs' ! m) entry_point sp) (try_into_label sp))"
      using l by (auto simp: outcome_simps)
    show ?thesis
    proof (cases "and_then (lookup (modules rs' ! m) entry_point sp) (try_into_label sp)")
      case Ok': (Ok s)
      then have "s \<in> top_names rs'" using l by (auto simp: outcome_simps)
      then have "closed_program (?R @ R') \<lparr>rr_ir = \<lparr>top_level = top_level_body rs', pl_functions = rs_functions rs',
          start_point = s\<rparr>, rr_nodes = rs_nodes rs', rr_noop = 0\<rparr>"
        using r(1) by (auto simp: closed_program_def state_ok_def)
      then show ?thesis by (auto simp: eq Ok a r(2) Ok')
    qed (use snd in \<open>simp_all add: eq Ok a r(2)\<close>)
  qed (use sg in \<open>simp_all add: eq\<close>)
qed

section \<open>Properties\<close>

text \<open>
  C31: name resolution ends and fails only by the program's fault: with an import depth of one more
  than the number of readable files, \<open>resolve\<close> returns a program or an error that blames the user's
  code, a circular import among them. Circular imports cannot make it run forever, lookups in the
  stores never panic, and no internal error is reported.
\<close>

theorem resolve_sound:
  assumes "finite (readable h)" and "card (readable h) < fuel"
  shows "sound (resolve u h fuel vf file entry_point :: 'p resolve_result compile_result)"
  using resolve_ok [OF assms] by blast

text \<open>
  C30: what \<open>resolve\<close> returns is closed: each node of the top level and of every function body uses
  only symbols that are defined before it on every path of calls, functions call only functions
  defined earlier, every builtin names a node implementation, and \<open>noop\<close> is the node \<open>Noop\<close>.
\<close>

theorem resolve_closed:
  assumes "finite (readable h)" and "card (readable h) < fuel"
    and "resolve u h fuel vf file entry_point = Ok (r :: 'p resolve_result)"
  shows "\<exists>R. closed_program R r"
  using resolve_ok [OF assms(1,2)] assms(3) by blast

end
