(* ===== verification/Demo.thy ===== *)
theory Demo
  imports Resolver_Props Tokenizer_Props
begin

text \<open>
  A concrete run of the front end, from the text of a file to the intermediate representation: the
  input at which the hypotheses of the whole-program properties are shown to be satisfiable.
\<close>

text \<open>\<open>def f (x) { return x; } export A = "a" > f ();\<close>\<close>

definition demo_tokens :: "token list" where
  "demo_tokens = [Def, Ident (ustr ''f''), OpenParen, Ident (ustr ''x''), ClosingParen, OpenBracket,
     Return, Ident (ustr ''x''), SemiColon, ClosingBracket,
     Export, Ident (ustr ''A''), Eq, String (ustr ''a''), Pipe, Ident (ustr ''f''), OpenParen,
     ClosingParen, SemiColon]"

definition demo_host :: host where
  "demo_host = \<lparr>canonicalize = Some,
     read_to_string = \<lambda>p. if p = ustr ''/m'' then Some (print_tokens demo_tokens) else None,
     stdlib_get = \<lambda>_. None\<rparr>"

lemma demo_printable: "list_all (printable ascii_tables) demo_tokens"
  by (simp add: demo_tokens_def is_word_def ascii_tables_def is_ascii_letter_def keyword_def)

lemma and_then_weak_cong: "r = r' \<Longrightarrow> and_then r f = and_then r' f"
  by simp

lemma map_sval_eq_Cons: "map sval ts = t # us \<longleftrightarrow> (\<exists>sp ts'. ts = Spanned t sp # ts' \<and> map sval ts' = us)"
  by (cases ts) (auto, metis spanned.exhaust_sel)

lemma demo_parse:
  assumes "map sval tokens = demo_tokens @ [Eof]"
  obtains s1 s2 s3 s4 s5 s6 s7 s8 s9 s10 s11 where
    "parse_file tokens = Ok
      [SFunction None (Spanned (ustr ''f'') s1) [Spanned (ustr ''x'') s2] []
         [SReturn s3 (ELabel (Spanned (ItemPath (Spanned (ustr ''x'') s4) []) s4))],
       SLabel (Some s5)
         (EChain (Spanned (Chain (EString (Spanned (ustr ''a'') s7))
            [Spanned (AstNode (Spanned (ItemPath (Spanned (ustr ''f'') s8) []) s8) [] []) s9]) s10))
         (Spanned (ustr ''A'') s6)]"
proof -
  from assms obtain p1 p2 p3 p4 p5 p6 p7 p8 p9 p10 p11 p12 p13 p14 p15 p16 p17 p18 p19 p20 where
    "tokens = [Spanned Def p1, Spanned (Ident (ustr ''f'')) p2, Spanned OpenParen p3,
      Spanned (Ident (ustr ''x'')) p4, Spanned ClosingParen p5, Spanned OpenBracket p6,
      Spanned Return p7, Spanned (Ident (ustr ''x'')) p8, Spanned SemiColon p9, Spanned ClosingBracket p10,
      Spanned Export p11, Spanned (Ident (ustr ''A'')) p12, Spanned Eq p13, Spanned (String (ustr ''a'')) p14,
      Spanned Pipe p15, Spanned (Ident (ustr ''f'')) p16, Spanned OpenParen p17,
      Spanned ClosingParen p18, Spanned SemiColon p19, Spanned Eof p20]"
    by (auto simp: demo_tokens_def map_sval_eq_Cons)
  then show thesis
    by (intro that, simp add: parse_file_def next_token_def peek_token_def expect_def parse_label_def parse_expr_def
       Let_def expect_ident_def next_if_def parse_list_def parse_parameter_def parse_item_path_def path_rest.simps
       spanned_path_def parse_node_head_def span_with_def path_span_def eval_nat_numeral cong: and_then_weak_cong)
qed

lemma demo_front:
  obtains tokens s1 s2 s3 s4 s5 s6 s7 s8 s9 s10 s11 where
    "tokenize ascii_tables fid (print_tokens demo_tokens) = Ok tokens"
    "parse_file tokens = Ok
      [SFunction None (Spanned (ustr ''f'') s1) [Spanned (ustr ''x'') s2] []
         [SReturn s3 (ELabel (Spanned (ItemPath (Spanned (ustr ''x'') s4) []) s4))],
       SLabel (Some s5)
         (EChain (Spanned (Chain (EString (Spanned (ustr ''a'') s7))
            [Spanned (AstNode (Spanned (ItemPath (Spanned (ustr ''f'') s8) []) s8) [] []) s9]) s10))
         (Spanned (ustr ''A'') s6)]"
  using tokenize_printed [OF unicode_ascii_tables demo_printable, of fid] demo_parse by metis

lemma demo_resolve:
  "\<exists>r. resolve ascii_tables demo_host (Suc (Suc 0)) vf_new (ustr ''/m'') (ustr ''A'') = Ok (r :: unit resolve_result)"
proof -
  obtain tokens s1 s2 s3 s4 s5 s6 s7 s8 s9 s10 s11 where t:
    "tokenize ascii_tables (Suc 0) (print_tokens demo_tokens) = Ok tokens"
    "parse_file tokens = Ok
      [SFunction None (Spanned (ustr ''f'') s1) [Spanned (ustr ''x'') s2] []
         [SReturn s3 (ELabel (Spanned (ItemPath (Spanned (ustr ''x'') s4) []) s4))],
       SLabel (Some s5)
         (EChain (Spanned (Chain (EString (Spanned (ustr ''a'') s7))
            [Spanned (AstNode (Spanned (ItemPath (Spanned (ustr ''f'') s8) []) s8) [] []) s9]) s10))
         (Spanned (ustr ''A'') s6)]"
    by (rule demo_front)
  show ?thesis
    by (simp add: resolve_def create_prelude_def prelude_def push_node_def push_function_def store_push_def
      resolver_new_def store_new_def wrap_new_def vf_push_def vf_new_def len_utf8_def module_key_def
      is_stdlib_path_def components_def slash_def is_component_def Let_def ustr_def NOOP_NAME_def
      resolve_module_def load_file_def new_symbol_def scope_child_def scope_root_def get_label_def
      get_item_path_def resolve_literal_def bind_item_def demo_host_def t [simplified ustr_def]
      cong: and_then_weak_cong)
qed

lemma demo_readable: "finite (readable demo_host)" "card (readable demo_host) < Suc (Suc 0)"
proof -
  have "readable demo_host \<subseteq> {components (ustr ''/m'')}"
    by (auto simp: readable_def demo_host_def load_file_def ok_or_def split: if_split_asm)
  then show "finite (readable demo_host)" "card (readable demo_host) < Suc (Suc 0)"
    using finite_subset card_mono [of "{components (ustr ''/m'')}" "readable demo_host"] by fastforce+
qed

section \<open>Witnesses\<close>

theorem resolve_sound_witness:
  "sound (resolve ascii_tables demo_host (Suc (Suc 0)) vf_new (ustr ''/m'') (ustr ''A'') :: unit resolve_result compile_result)"
  using demo_readable by (rule resolve_sound)

theorem resolve_closed_witness:
  "\<exists>(r :: unit resolve_result) R.
     resolve ascii_tables demo_host (Suc (Suc 0)) vf_new (ustr ''/m'') (ustr ''A'') = Ok r \<and> closed_program R r"
  using demo_resolve resolve_closed [OF demo_readable] by blast

end
