(* ===== verification/Compiler.thy ===== *)
theory Compiler
  imports Resolver_Props
begin

text \<open>
  \<^verbatim>\<open>serpentine/src/snek/compiler.rs\<close>: the intermediate representation is turned into a graph of builtin
  nodes by inlining every call, and checked for types on the way.

  The state is the code's \<open>Compiler\<close>: the graph, the mapping of symbols to their values, the cache that
  shares equal nodes and the stack of calls. \<open>compile_node\<close> calls itself on the body of a custom function;
  its fuel bounds the depth of calls. A function of a resolved program calls only functions with smaller
  numbers, so that \<open>compile\<close>, which supplies the number of functions, never runs out of it
  (\<open>compile_sound\<close>).
\<close>

record symbol_value =
  sv_node :: nat
  sv_type :: data_type
  sv_span :: span

record 'p immutable_context =
  ic_functions :: "ir_function store"
  ic_nodes :: "'p node_impl store"
  ic_noop :: nat

record compiler =
  c_graph :: graph
  symbol_mapping :: "nat \<Rightarrow> symbol_value option"
  node_cache :: "node \<Rightarrow> nat option"
  call_stack :: "span list"

definition compiler_new :: compiler where
  "compiler_new = \<lparr>c_graph = store_new, symbol_mapping = Map.empty, node_cache = Map.empty, call_stack = []\<rparr>"

definition get_symbol :: "compiler \<Rightarrow> nat \<Rightarrow> symbol_value compile_result" where
  "get_symbol c s = expect_some (symbol_mapping c s)"

definition set_symbol :: "nat \<Rightarrow> symbol_value \<Rightarrow> compiler \<Rightarrow> compiler" where
  "set_symbol s v c = c\<lparr>symbol_mapping := (symbol_mapping c)(s \<mapsto> v)\<rparr>"

definition push_node_with_cache :: "node \<Rightarrow> node_metadata \<Rightarrow> compiler \<Rightarrow> nat \<times> compiler" where
  "push_node_with_cache n metadata c = (case node_cache c n of
       Some cached_value \<Rightarrow> (cached_value, c)
     | None \<Rightarrow> let (g, instance_id) = store_push (n, metadata) (c_graph c)
         in (instance_id, c\<lparr>c_graph := g, node_cache := (node_cache c)(n \<mapsto> instance_id)\<rparr>))"

definition create_phantom_noop :: "'p immutable_context \<Rightarrow> nat \<Rightarrow> nat list \<Rightarrow> compiler \<Rightarrow> nat \<times> compiler" where
  "create_phantom_noop cx function_output phantoms =
     push_node_with_cache \<lparr>kind = ic_noop cx, inputs = [function_output], phantom_inputs = phantoms\<rparr>
       \<lparr>location = span_dummy, stack_trace = []\<rparr>"

text \<open>The two errors of the type rules become the two type errors of the compiler.\<close>

fun type_error :: "symbol_value list \<Rightarrow> span \<Rightarrow> span list \<Rightarrow> return_type_error \<Rightarrow> compile_error" where
  "type_error arguments sp stack (RTypeMismatch wanted given idx) =
     TypeMismatch wanted given
       (if idx < length arguments then sv_span (arguments ! idx) else span_dummy) sp stack"
| "type_error arguments sp stack (RArgumentCountMismatch wanted given) = ArgumentCountMismatch wanted given sp"

definition compile_builtin :: "'p immutable_context \<Rightarrow> nat \<Rightarrow> symbol_value list \<Rightarrow> nat list \<Rightarrow> span \<Rightarrow> compiler \<Rightarrow>
    (nat \<times> data_type \<times> compiler) compile_result" where
  "compile_builtin cx node_impl_id arguments phantoms sp c =
     and_then (store_get (ic_nodes cx) node_impl_id) (\<lambda>node_impl.
     and_then (map_err (type_error arguments sp (call_stack c)) (return_type node_impl (map sv_type arguments)))
       (\<lambda>ret_type.
         let (instance_id, c) = push_node_with_cache
               \<lparr>kind = node_impl_id, inputs = map sv_node arguments, phantom_inputs = phantoms\<rparr>
               \<lparr>location = sp, stack_trace = call_stack c\<rparr> c
         in Ok (instance_id, ret_type, c)))"

section \<open>Calls of custom functions\<close>

fun run_nodes :: "(ir_node \<Rightarrow> compiler \<Rightarrow> compiler compile_result) \<Rightarrow> ir_node list \<Rightarrow> compiler \<Rightarrow> compiler compile_result" where
  "run_nodes step [] c = Ok c"
| "run_nodes step (n # ns) c = and_then (step n c) (run_nodes step ns)"

fun bind_required :: "nat list \<Rightarrow> symbol_value list \<Rightarrow> compiler \<Rightarrow> (symbol_value list \<times> compiler) compile_result" where
  "bind_required [] arguments c = Ok (arguments, c)"
| "bind_required (p # ps) (a # as) c = bind_required ps as (set_symbol p a c)"
| "bind_required (p # ps) [] c = Err (internal ''not enough arguments even tho we checked above.'')"

fun bind_defaults :: "(ir_node \<Rightarrow> compiler \<Rightarrow> compiler compile_result) \<Rightarrow> (nat \<times> nat \<times> ir_node list) list \<Rightarrow>
    symbol_value list \<Rightarrow> compiler \<Rightarrow> compiler compile_result" where
  "bind_defaults step [] arguments c = Ok c"
| "bind_defaults step ((p, default_symbol, default_body) # ds) (a # as) c =
     bind_defaults step ds as (set_symbol p a c)"
| "bind_defaults step ((p, default_symbol, default_body) # ds) [] c =
     and_then (run_nodes step default_body c) (\<lambda>c.
     and_then (get_symbol c default_symbol) (\<lambda>v. bind_defaults step ds [] (set_symbol p v c)))"

definition handle_custom_arguments :: "(ir_node \<Rightarrow> compiler \<Rightarrow> compiler compile_result) \<Rightarrow> nat list \<Rightarrow>
    (nat \<times> nat \<times> ir_node list) list \<Rightarrow> symbol_value list \<Rightarrow> span \<Rightarrow> compiler \<Rightarrow> compiler compile_result" where
  "handle_custom_arguments step required defaults arguments sp c =
     (if length arguments < length required \<or> length required + length defaults < length arguments then
        Err (ArgumentCountMismatch
          (if defaults = [] then dec (length required)
           else dec (length required) @ ''-'' @ dec (length required + length defaults))
          (length arguments) sp)
      else and_then (bind_required required arguments c) (\<lambda>(arguments, c).
        bind_defaults step defaults arguments c))"

definition compile_custom :: "(ir_node \<Rightarrow> compiler \<Rightarrow> compiler compile_result) \<Rightarrow> 'p immutable_context \<Rightarrow> nat list \<Rightarrow>
    (nat \<times> nat \<times> ir_node list) list \<Rightarrow> ir_node list \<Rightarrow> nat \<Rightarrow> symbol_value list \<Rightarrow> nat list \<Rightarrow> span \<Rightarrow> compiler \<Rightarrow>
    (nat \<times> data_type \<times> compiler) compile_result" where
  "compile_custom step cx required defaults body ret arguments phantoms sp c =
     and_then (handle_custom_arguments step required defaults arguments sp
         (c\<lparr>call_stack := call_stack c @ [sp]\<rparr>)) (\<lambda>c.
     and_then (run_nodes step body c) (\<lambda>c.
     and_then (get_symbol c ret) (\<lambda>v.
       let (node_id, c) = (if phantoms = [] then (sv_node v, c)
             else create_phantom_noop cx (sv_node v) phantoms c)
       in Ok (node_id, sv_type v, c\<lparr>call_stack := butlast (call_stack c)\<rparr>))))"

primrec compile_node :: "nat \<Rightarrow> 'p immutable_context \<Rightarrow> ir_node \<Rightarrow> compiler \<Rightarrow> compiler compile_result" where
  "compile_node 0 cx = (\<lambda>n c. NoFuel)"
| "compile_node (Suc k) cx = (\<lambda>n c.
     and_then (try_map (get_symbol c) (ir_arguments n)) (\<lambda>arguments.
     and_then (try_map (get_symbol c) (ir_phantom_inputs n)) (\<lambda>phantom_values.
       let phantoms = map sv_node phantom_values in
       and_then (store_get (ic_functions cx) (ir_function n)) (\<lambda>f.
       and_then (case f of
           BuiltinFunction node_impl_id \<Rightarrow> compile_builtin cx node_impl_id arguments phantoms (ir_span n) c
         | Custom required defaults body ret \<Rightarrow>
             compile_custom (compile_node k cx) cx required defaults body ret arguments phantoms (ir_span n) c)
         (\<lambda>(instance_id, ret_type, c).
           Ok (set_symbol (ir_name n) \<lparr>sv_node = instance_id, sv_type = ret_type, sv_span = ir_span n\<rparr> c))))))"

record 'p compile_outcome =
  cr_nodes :: "'p node_impl store"
  cr_graph :: graph
  start_node :: nat

definition context_of :: "'p resolve_result \<Rightarrow> 'p immutable_context" where
  "context_of r = \<lparr>ic_functions = pl_functions (rr_ir r), ic_nodes = rr_nodes r, ic_noop = rr_noop r\<rparr>"

definition compile :: "'p resolve_result \<Rightarrow> 'p compile_outcome compile_result" where
  "compile r = (let cx = context_of r in
     and_then (run_nodes (compile_node (Suc (length (ic_functions cx))) cx) (top_level (rr_ir r)) compiler_new) (\<lambda>c.
     and_then (get_symbol c (start_point (rr_ir r))) (\<lambda>v.
       Ok \<lparr>cr_nodes = ic_nodes cx, cr_graph = c_graph c, start_node = sv_node v\<rparr>)))"

text \<open>\<open>compile_graph\<close> of \<^verbatim>\<open>snek/mod.rs\<close>: the whole front end.\<close>

definition compile_graph :: "unicode \<Rightarrow> host \<Rightarrow> nat \<Rightarrow> virtual_file \<Rightarrow> ustr \<Rightarrow> ustr \<Rightarrow> 'p compile_outcome compile_result" where
  "compile_graph u h fuel vf file entry_point = and_then (resolve u h fuel vf file entry_point) compile"

section \<open>Printing the graph\<close>

text \<open>The lines that \<open>debug_pipeline\<close> prints for the graph.\<close>

definition graph_line :: "nat \<Rightarrow> node \<Rightarrow> string" where
  "graph_line i n =
     ''%'' @ dec i @ '' = !('' @ join_with '', '' (map pretty_symbol (phantom_inputs n))
     @ '') $'' @ dec (kind n) @ ''('' @ join_with '', '' (map pretty_symbol (inputs n)) @ '')''"

definition graph_lines :: "graph \<Rightarrow> string list" where
  "graph_lines g = map (\<lambda>(i, n, metadata). graph_line i n) (zip [0..<length g] g)"

end
