(* ===== verification/Compiler_Props.thy ===== *)
theory Compiler_Props
  imports Compiler
begin

text \<open>
  What the compiler promises for a closed program: it returns, it fails only with the two type errors,
  it never looks up a symbol that is not defined, and the graph it builds is acyclic, well typed and
  without duplicates.
\<close>

section \<open>Outcomes that are checked\<close>

fun type_fault :: "compile_error \<Rightarrow> bool" where
  "type_fault (TypeMismatch _ _ _ _ _) = True"
| "type_fault (ArgumentCountMismatch _ _ _) = True"
| "type_fault _ = False"

text \<open>\<open>yields P r\<close>: \<open>r\<close> is a value that satisfies \<open>P\<close>, or a type error.\<close>

definition yields :: "('a \<Rightarrow> bool) \<Rightarrow> 'a compile_result \<Rightarrow> bool" where
  "yields P r \<longleftrightarrow> (case r of Ok x \<Rightarrow> P x | Err e \<Rightarrow> type_fault e | Panic \<Rightarrow> False | NoFuel \<Rightarrow> False)"

lemma yields_simps [simp]:
  "yields P (Ok x) \<longleftrightarrow> P x" "yields P (Err e) \<longleftrightarrow> type_fault e" "\<not> yields P Panic" "\<not> yields P NoFuel"
  by (simp_all add: yields_def)

lemma yields_and_then: "yields P r \<Longrightarrow> (\<And>x. r = Ok x \<Longrightarrow> P x \<Longrightarrow> yields Q (f x)) \<Longrightarrow> yields Q (and_then r f)"
  by (cases r) auto

lemma yields_mono: "yields P r \<Longrightarrow> (\<And>x. P x \<Longrightarrow> Q x) \<Longrightarrow> yields Q r"
  by (cases r) auto

lemma type_fault_user: "type_fault e \<Longrightarrow> user_error e"
  by (cases e) auto

lemma yields_sound: "yields P r \<Longrightarrow> sound r"
  by (cases r) (auto simp: type_fault_user)

lemma type_error_fault [simp]: "type_fault (type_error arguments sp stack e)"
  by (cases e) auto

section \<open>Typed graphs\<close>

text \<open>\<open>T\<close> holds the type of every node that comes before.\<close>

definition node_typed :: "'p node_impl store \<Rightarrow> data_type list \<Rightarrow> node \<Rightarrow> data_type \<Rightarrow> bool" where
  "node_typed impls T n t \<longleftrightarrow> kind n < length impls \<and>
     (\<forall>i \<in> set (inputs n) \<union> set (phantom_inputs n). i < length T) \<and>
     return_type (impls ! kind n) (map ((!) T) (inputs n)) = Ok t"

definition graph_typed :: "'p node_impl store \<Rightarrow> data_type list \<Rightarrow> graph \<Rightarrow> bool" where
  "graph_typed impls T g \<longleftrightarrow> length T = length g \<and>
     (\<forall>i < length g. node_typed impls (take i T) (fst (g ! i)) (T ! i))"

definition value_ok :: "data_type list \<Rightarrow> symbol_value \<Rightarrow> bool" where
  "value_ok T v \<longleftrightarrow> sv_node v < length T \<and> T ! sv_node v = sv_type v"

definition cache_ok :: "compiler \<Rightarrow> bool" where
  "cache_ok c \<longleftrightarrow> (\<forall>n i. node_cache c n = Some i \<longleftrightarrow> i < length (c_graph c) \<and> fst (c_graph c ! i) = n)"

definition compiler_ok :: "'p node_impl store \<Rightarrow> data_type list \<Rightarrow> compiler \<Rightarrow> bool" where
  "compiler_ok impls T c \<longleftrightarrow> graph_typed impls T (c_graph c) \<and> (\<forall>v \<in> ran (symbol_mapping c). value_ok T v) \<and> cache_ok c"

lemma node_typed_append:
  assumes "node_typed impls T n t"
  shows "node_typed impls (T @ T') n t"
proof -
  from assms have "map ((!) (T @ T')) (inputs n) = map ((!) T) (inputs n)"
    by (auto simp: node_typed_def nth_append)
  with assms show ?thesis by (simp only: node_typed_def length_append) (meson trans_less_add1)
qed

lemma node_typed_take: "node_typed impls (take i T) n t \<Longrightarrow> node_typed impls T n t"
  using node_typed_append [of impls "take i T" n t "drop i T"] by simp

lemma node_typed_fun: "node_typed impls T n t \<Longrightarrow> node_typed impls T n t' \<Longrightarrow> t = t'"
  by (simp add: node_typed_def)

lemma graph_typed_push:
  assumes "graph_typed impls T g" "node_typed impls T n t"
  shows "graph_typed impls (T @ [t]) (g @ [(n, m)])"
  using assms by (auto simp: graph_typed_def nth_append less_Suc_eq)

lemma value_ok_append: "value_ok T v \<Longrightarrow> value_ok (T @ T') v"
  by (auto simp: value_ok_def nth_append)

lemma compiler_ok_stack [simp]: "compiler_ok impls T (c\<lparr>call_stack := s\<rparr>) \<longleftrightarrow> compiler_ok impls T c"
  by (simp add: compiler_ok_def cache_ok_def)

lemma compiler_ok_set_symbol: "compiler_ok impls T c \<Longrightarrow> value_ok T v \<Longrightarrow> compiler_ok impls T (set_symbol s v c)"
  by (auto simp: compiler_ok_def set_symbol_def cache_ok_def ran_def)

lemma set_symbol_simps [simp]:
  "symbol_mapping (set_symbol s v c) = (symbol_mapping c)(s \<mapsto> v)" "call_stack (set_symbol s v c) = call_stack c"
  "c_graph (set_symbol s v c) = c_graph c"
  by (simp_all add: set_symbol_def)

text \<open>The node that is pushed is fresh or shared; either way it has the type asked for.\<close>

definition reaches :: "'p node_impl store \<Rightarrow> data_type list \<Rightarrow> compiler \<Rightarrow> data_type list \<Rightarrow> compiler \<Rightarrow> bool" where
  "reaches impls T c T' c' \<longleftrightarrow> compiler_ok impls T' c' \<and> prefix T T' \<and> call_stack c' = call_stack c \<and>
     dom (symbol_mapping c) \<subseteq> dom (symbol_mapping c')"

lemma reaches_refl: "compiler_ok impls T c \<Longrightarrow> reaches impls T c T c"
  by (simp add: reaches_def)

lemma reaches_trans [trans]:
  "reaches impls T c T' c' \<Longrightarrow> reaches impls T' c' T'' c'' \<Longrightarrow> reaches impls T c T'' c''"
  unfolding reaches_def by (metis prefix_order.trans subset_trans)

lemma reaches_set_symbol: "reaches impls T c T' c' \<Longrightarrow> value_ok T' v \<Longrightarrow> reaches impls T c T' (set_symbol s v c')"
  by (auto simp: reaches_def compiler_ok_set_symbol)

lemma value_ok_prefix: "value_ok T v \<Longrightarrow> prefix T T' \<Longrightarrow> value_ok T' v"
  by (auto elim!: prefixE simp: value_ok_append)

lemma node_typed_prefix: "node_typed impls T n t \<Longrightarrow> prefix T T' \<Longrightarrow> node_typed impls T' n t"
  by (auto elim!: prefixE simp: node_typed_append)

lemma cache_ok_push:
  assumes "cache_ok c" "node_cache c n = None"
  shows "cache_ok (c\<lparr>c_graph := c_graph c @ [(n, m)], node_cache := (node_cache c)(n \<mapsto> length (c_graph c))\<rparr>)"
proof -
  have "fst (c_graph c ! i) \<noteq> n" if "i < length (c_graph c)" for i
    using assms(1) [unfolded cache_ok_def, rule_format, of n i] assms(2) that by simp
  with assms(1) show ?thesis by (auto simp: cache_ok_def nth_append less_Suc_eq)
qed

lemma push_node_with_cache_ok:
  assumes ok: "compiler_ok impls T c" and n: "node_typed impls T n t"
    and p: "push_node_with_cache n m c = (i, c')"
  shows "\<exists>T'. reaches impls T c T' c' \<and> i < length T' \<and> T' ! i = t"
proof (cases "node_cache c n")
  case None
  with p have c': "c' = c\<lparr>c_graph := c_graph c @ [(n, m)], node_cache := (node_cache c)(n \<mapsto> length (c_graph c))\<rparr>"
    and i: "i = length (c_graph c)"
    by (auto simp: push_node_with_cache_def store_push_def)
  have len: "length T = length (c_graph c)" using ok by (simp add: compiler_ok_def graph_typed_def)
  have "cache_ok c'" using cache_ok_push [of c n] None ok by (simp add: compiler_ok_def c')
  moreover have "graph_typed impls (T @ [t]) (c_graph c')"
    using ok by (simp add: compiler_ok_def c' graph_typed_push [OF _ n])
  ultimately have "compiler_ok impls (T @ [t]) c'"
    using ok by (auto simp: compiler_ok_def c' value_ok_append)
  then show ?thesis by (intro exI [of _ "T @ [t]"]) (simp add: reaches_def c' i len nth_append)
next
  case (Some k)
  with p have k: "i = k" "c' = c" by (simp_all add: push_node_with_cache_def)
  from Some ok have "i < length (c_graph c)" "fst (c_graph c ! i) = n"
    by (simp_all add: compiler_ok_def cache_ok_def k)
  moreover from this ok have "node_typed impls (take i T) n (T ! i)" "i < length T"
    by (auto simp: compiler_ok_def graph_typed_def)
  ultimately show ?thesis using ok n k node_typed_take node_typed_fun reaches_refl by metis
qed

section \<open>Steps\<close>

text \<open>\<open>defining\<close>: the compiler got further and the symbols of \<open>X\<close> are defined.\<close>

definition defining :: "'p node_impl store \<Rightarrow> data_type list \<Rightarrow> compiler \<Rightarrow> nat set \<Rightarrow> compiler \<Rightarrow> bool" where
  "defining impls T c X c' \<longleftrightarrow> (\<exists>T'. reaches impls T c T' c' \<and> X \<subseteq> dom (symbol_mapping c'))"

lemma definingE:
  assumes "defining impls T c X c'"
  obtains T' where "reaches impls T c T' c'" "compiler_ok impls T' c'" "dom (symbol_mapping c) \<subseteq> dom (symbol_mapping c')"
    "X \<subseteq> dom (symbol_mapping c')" "call_stack c' = call_stack c" "prefix T T'"
  using assms by (auto simp: defining_def reaches_def)

lemma defining_after:
  assumes "reaches impls T c T1 c1" "X \<subseteq> dom (symbol_mapping c1)" "yields (defining impls T1 c1 Y) r"
  shows "yields (defining impls T c (X \<union> Y)) r"
  using assms(3)
proof (rule yields_mono)
  fix c2 assume "defining impls T1 c1 Y c2"
  then obtain T2 where "reaches impls T1 c1 T2 c2" "dom (symbol_mapping c1) \<subseteq> dom (symbol_mapping c2)"
    "Y \<subseteq> dom (symbol_mapping c2)" by (rule definingE)
  with assms(1,2) reaches_trans show "defining impls T c (X \<union> Y) c2" unfolding defining_def by blast
qed

definition node_step_ok :: "'p node_impl store \<Rightarrow> nat set list \<Rightarrow> (ir_node \<Rightarrow> compiler \<Rightarrow> compiler compile_result) \<Rightarrow> bool" where
  "node_step_ok impls R step \<longleftrightarrow> (\<forall>T c D n. compiler_ok impls T c \<longrightarrow> D \<subseteq> dom (symbol_mapping c) \<longrightarrow> nodes_ok R D [n] \<longrightarrow>
     yields (defining impls T c {ir_name n}) (step n c))"

lemma run_nodes_ok:
  assumes step: "node_step_ok impls R step"
  shows "compiler_ok impls T c \<Longrightarrow> D \<subseteq> dom (symbol_mapping c) \<Longrightarrow> nodes_ok R D ns \<Longrightarrow>
    yields (defining impls T c (names ns)) (run_nodes step ns c)"
proof (induction ns arbitrary: T c D)
  case Nil
  then show ?case by (auto simp: defining_def intro: reaches_refl)
next
  case (Cons n ns)
  have "nodes_ok R D [n]" using Cons.prems by simp
  then have "yields (defining impls T c {ir_name n}) (step n c)"
    using step Cons.prems unfolding node_step_ok_def by blast
  then show ?case
  proof (simp only: run_nodes.simps, elim yields_and_then)
    fix c1 assume "defining impls T c {ir_name n} c1"
    then obtain T1 where r: "reaches impls T c T1 c1" "compiler_ok impls T1 c1"
      "dom (symbol_mapping c) \<subseteq> dom (symbol_mapping c1)" "{ir_name n} \<subseteq> dom (symbol_mapping c1)" by (rule definingE)
    then have "yields (defining impls T1 c1 (names ns)) (run_nodes step ns c1)"
      using Cons.prems by (intro Cons.IH [where D = "insert (ir_name n) D"]) auto
    from defining_after [OF r(1,4) this]
    show "yields (defining impls T c (names (n # ns))) (run_nodes step ns c1)" by simp
  qed
qed

lemma get_symbol_defined:
  assumes "compiler_ok impls T c" "s \<in> dom (symbol_mapping c)"
  obtains v where "get_symbol c s = Ok v" "symbol_mapping c s = Some v" "value_ok T v"
proof -
  from assms(2) obtain v where "symbol_mapping c s = Some v" by blast
  then show thesis using that [of v] assms(1) by (auto simp: get_symbol_def compiler_ok_def ran_def)
qed

lemma get_symbols_defined:
  assumes "compiler_ok impls T c" "set ss \<subseteq> dom (symbol_mapping c)"
  obtains vs where "try_map (get_symbol c) ss = Ok vs" "\<forall>v \<in> set vs. value_ok T v"
proof -
  have "\<exists>vs. try_map (get_symbol c) ss = Ok vs \<and> (\<forall>v \<in> set vs. value_ok T v)"
    using assms(2)
  proof (induction ss)
    case (Cons s ss)
    from Cons.prems have "s \<in> dom (symbol_mapping c)" by simp
    with assms(1) obtain v where "get_symbol c s = Ok v" "value_ok T v" by (rule get_symbol_defined)
    with Cons show ?case by auto
  qed simp
  then show thesis using that by blast
qed

lemma bind_required_ok:
  "compiler_ok impls T c \<Longrightarrow> length ps \<le> length as \<Longrightarrow> \<forall>a \<in> set as. value_ok T a \<Longrightarrow>
    \<exists>c'. bind_required ps as c = Ok (drop (length ps) as, c') \<and> reaches impls T c T c' \<and> set ps \<subseteq> dom (symbol_mapping c')"
proof (induction ps as c rule: bind_required.induct)
  case (2 p ps a as c)
  then obtain c' where c': "bind_required ps as (set_symbol p a c) = Ok (drop (length ps) as, c')"
    "reaches impls T (set_symbol p a c) T c'" "set ps \<subseteq> dom (symbol_mapping c')"
    using compiler_ok_set_symbol by (metis (no_types, lifting) Suc_le_mono length_Cons list.set_intros)
  have "reaches impls T c T (set_symbol p a c)" using 2 by (intro reaches_set_symbol reaches_refl) auto
  from reaches_trans [OF this c'(2)] c' show ?case by (auto simp: reaches_def)
qed (auto intro: reaches_refl)

lemma bind_defaults_ok:
  assumes step: "node_step_ok impls R step"
  shows "compiler_ok impls T c \<Longrightarrow> D \<subseteq> dom (symbol_mapping c) \<Longrightarrow> defaults_ok R D ds \<Longrightarrow> \<forall>a \<in> set as. value_ok T a \<Longrightarrow>
    yields (defining impls T c (fst ` set ds)) (bind_defaults step ds as c)"
  using step
proof (induction step ds as c arbitrary: T D rule: bind_defaults.induct)
  case (1 step as c)
  then show ?case by (auto simp: defining_def intro: reaches_refl)
next
  case (2 step p s b ds a as c)
  have r: "reaches impls T c T (set_symbol p a c)" using 2 by (intro reaches_set_symbol reaches_refl) auto
  have "yields (defining impls T (set_symbol p a c) (fst ` set ds)) (bind_defaults step ds as (set_symbol p a c))"
    using 2 r by (intro "2.IH" [where D = "insert p D"]) (auto simp: reaches_def)
  from defining_after [OF r _ this, of "{p}"] show ?case by simp
next
  case (3 step p s b ds c)
  then have nb: "nodes_ok R D b" "s \<in> D \<union> names b" "defaults_ok R (insert p D) ds" by simp_all
  have "yields (defining impls T c (names b)) (run_nodes step b c)"
    using run_nodes_ok 3 nb(1) by blast
  then show ?case
  proof (simp only: bind_defaults.simps, elim yields_and_then)
    fix c1 assume run: "run_nodes step b c = Ok c1" and d: "defining impls T c (names b) c1"
    from d obtain T1 where r1: "reaches impls T c T1 c1" "compiler_ok impls T1 c1"
      "dom (symbol_mapping c) \<subseteq> dom (symbol_mapping c1)" "names b \<subseteq> dom (symbol_mapping c1)" by (rule definingE)
    have D1: "D \<subseteq> dom (symbol_mapping c1)" using "3.prems"(2) r1(3) by (rule subset_trans)
    then have "s \<in> dom (symbol_mapping c1)" using nb(2) r1(4) by auto
    with r1(2) obtain v where v: "get_symbol c1 s = Ok v" "value_ok T1 v" by (rule get_symbol_defined)
    have r2: "reaches impls T c T1 (set_symbol p v c1)" by (rule reaches_set_symbol [OF r1(1) v(2)])
    have "yields (defining impls T1 (set_symbol p v c1) (fst ` set ds)) (bind_defaults step ds [] (set_symbol p v c1))"
      using r2 D1 nb(3) "3.prems"(5) run v(1) by (intro "3.IH" [where D = "insert p D"]) (auto simp: reaches_def)
    from defining_after [OF r2 _ this, of "{p}"]
    show "yields (defining impls T c (fst ` set ((p, s, b) # ds)))
      (and_then (get_symbol c1 s) (\<lambda>v. bind_defaults step ds [] (set_symbol p v c1)))" by (simp add: v(1))
  qed
qed

section \<open>Nodes\<close>

text \<open>What a call returns: a node of the graph with its type.\<close>

definition call_ok :: "'p node_impl store \<Rightarrow> data_type list \<Rightarrow> compiler \<Rightarrow> nat \<times> data_type \<times> compiler \<Rightarrow> bool" where
  "call_ok impls T c = (\<lambda>(i, t, c'). \<exists>T'. reaches impls T c T' c' \<and> i < length T' \<and> T' ! i = t)"

lemma call_defines:
  assumes "call_ok impls T c (i, t, c')"
  shows "defining impls T c {s} (set_symbol s \<lparr>sv_node = i, sv_type = t, sv_span = sp\<rparr> c')"
proof -
  from assms obtain T' where "reaches impls T c T' c'" "value_ok T' \<lparr>sv_node = i, sv_type = t, sv_span = sp\<rparr>"
    by (auto simp: call_ok_def value_ok_def)
  from reaches_set_symbol [OF this, of s] show ?thesis by (auto simp: defining_def)
qed

lemma return_type_cases:
  obtains t where "return_type impl ts = Ok t" | e where "return_type impl ts = Err e"
  by (cases "return_type impl ts") auto

lemma compile_builtin_ok:
  assumes ok: "compiler_ok (ic_nodes cx) T c" and k: "k < length (ic_nodes cx)"
    and vs: "\<forall>v \<in> set vs. value_ok T v" and ps: "\<forall>i \<in> set ps. i < length T"
  shows "yields (call_ok (ic_nodes cx) T c) (compile_builtin cx k vs ps sp c)"
proof (cases "return_type (ic_nodes cx ! k) (map sv_type vs)")
  case (Ok t)
  let ?n = "\<lparr>kind = k, inputs = map sv_node vs, phantom_inputs = ps\<rparr>"
  have types: "map ((!) T \<circ> sv_node) vs = map sv_type vs" using vs by (auto simp: value_ok_def)
  then have n: "node_typed (ic_nodes cx) T ?n t"
    using k vs ps by (auto simp: node_typed_def value_ok_def types Ok simp del: map_eq_conv)
  obtain i c' where p: "push_node_with_cache ?n \<lparr>location = sp, stack_trace = call_stack c\<rparr> c = (i, c')"
    by (cases "push_node_with_cache ?n \<lparr>location = sp, stack_trace = call_stack c\<rparr> c")
  from push_node_with_cache_ok [OF ok n p] show ?thesis
    by (simp add: compile_builtin_def k Ok p call_ok_def)
qed (use k return_type_returns in \<open>auto simp: compile_builtin_def\<close>)

lemma handle_custom_arguments_ok:
  assumes step: "node_step_ok impls R step" and "compiler_ok impls T c" "D \<subseteq> dom (symbol_mapping c)"
    and "defaults_ok R (D \<union> set required) defaults" "\<forall>a \<in> set arguments. value_ok T a"
  shows "yields (defining impls T c (set required \<union> fst ` set defaults))
    (handle_custom_arguments step required defaults arguments sp c)"
proof (cases "length arguments < length required \<or> length required + length defaults < length arguments")
  case False
  then obtain c1 where c1: "bind_required required arguments c = Ok (drop (length required) arguments, c1)"
    "reaches impls T c T c1" "set required \<subseteq> dom (symbol_mapping c1)"
    using bind_required_ok assms(2,5) by (meson not_le)
  have "D \<subseteq> dom (symbol_mapping c1)" using c1(2) assms(3) unfolding reaches_def by blast
  then have "yields (defining impls T c1 (fst ` set defaults)) (bind_defaults step defaults (drop (length required) arguments) c1)"
    using c1 assms by (intro bind_defaults_ok [where R = R and D = "D \<union> set required"])
      (auto simp: reaches_def dest: in_set_dropD)
  from defining_after [OF c1(2,3) this] show ?thesis using False by (simp add: handle_custom_arguments_def c1(1))
qed (simp add: handle_custom_arguments_def)

lemma noop_typed:
  assumes "ic_noop cx < length (ic_nodes cx)" "ic_nodes cx ! ic_noop cx = Noop" "value_ok T v" "\<forall>i \<in> set ps. i < length T"
  shows "node_typed (ic_nodes cx) T \<lparr>kind = ic_noop cx, inputs = [sv_node v], phantom_inputs = ps\<rparr> (sv_type v)"
  using assms by (auto simp: node_typed_def value_ok_def)

lemma compile_custom_ok:
  assumes step: "node_step_ok (ic_nodes cx) R step" and ok: "compiler_ok (ic_nodes cx) T c"
    and D: "D \<subseteq> dom (symbol_mapping c)" and f: "function_ok R D k (Custom required defaults body ret)"
    and noop: "ic_noop cx < length (ic_nodes cx)" "ic_nodes cx ! ic_noop cx = Noop"
    and vs: "\<forall>v \<in> set vs. value_ok T v" and ps: "\<forall>i \<in> set ps. i < length T"
  shows "yields (call_ok (ic_nodes cx) T c) (compile_custom step cx required defaults body ret vs ps sp c)"
  unfolding compile_custom_def
proof (rule yields_and_then)
  let ?c = "c\<lparr>call_stack := call_stack c @ [sp]\<rparr>"
  show "yields (defining (ic_nodes cx) T ?c (set required \<union> fst ` set defaults))
      (handle_custom_arguments step required defaults vs sp ?c)"
    using ok D f vs by (intro handle_custom_arguments_ok [OF step]) (auto simp: Let_def)
  fix c1 assume "defining (ic_nodes cx) T ?c (set required \<union> fst ` set defaults) c1"
  then obtain T1 where r1: "reaches (ic_nodes cx) T ?c T1 c1" "compiler_ok (ic_nodes cx) T1 c1"
    "dom (symbol_mapping ?c) \<subseteq> dom (symbol_mapping c1)" "set required \<union> fst ` set defaults \<subseteq> dom (symbol_mapping c1)"
    by (rule definingE)
  let ?D = "D \<union> set required \<union> fst ` set defaults"
  have D1: "?D \<subseteq> dom (symbol_mapping c1)" using D r1(3,4) by auto
  show "yields (call_ok (ic_nodes cx) T c) (and_then (run_nodes step body c1) (\<lambda>c. and_then (get_symbol c ret) (\<lambda>v.
      let (node_id, c) = (if ps = [] then (sv_node v, c) else create_phantom_noop cx (sv_node v) ps c)
      in Ok (node_id, sv_type v, c\<lparr>call_stack := butlast (call_stack c)\<rparr>))))"
  proof (rule yields_and_then)
  show "yields (defining (ic_nodes cx) T1 c1 (names body)) (run_nodes step body c1)"
    using r1(2) D1 f by (intro run_nodes_ok [OF step, where D = ?D]) (auto simp: Let_def)
  fix c2 assume "defining (ic_nodes cx) T1 c1 (names body) c2"
  then obtain T2 where r2: "reaches (ic_nodes cx) T1 c1 T2 c2" "compiler_ok (ic_nodes cx) T2 c2"
    "dom (symbol_mapping c1) \<subseteq> dom (symbol_mapping c2)" "names body \<subseteq> dom (symbol_mapping c2)"
    by (rule definingE)
  have "ret \<in> ?D \<union> names body" using f by (simp add: Let_def)
  then have "ret \<in> dom (symbol_mapping c2)" using D1 r2(3,4) by blast
  with r2(2) obtain v where v: "get_symbol c2 ret = Ok v" "value_ok T2 v" by (rule get_symbol_defined)
  have r: "reaches (ic_nodes cx) T ?c T2 c2" using r1(1) r2(1) by (rule reaches_trans)
  then have ps2: "\<forall>i \<in> set ps. i < length T2" using ps by (auto simp: reaches_def dest!: prefix_length_le)
  have pop: "reaches (ic_nodes cx) T c T' (c'\<lparr>call_stack := butlast (call_stack c')\<rparr>)"
    if "reaches (ic_nodes cx) T ?c T' c'" for T' c'
    using that by (auto simp: reaches_def)
  show "yields (call_ok (ic_nodes cx) T c) (and_then (get_symbol c2 ret) (\<lambda>v.
      let (node_id, c) = (if ps = [] then (sv_node v, c2) else create_phantom_noop cx (sv_node v) ps c2)
      in Ok (node_id, sv_type v, c\<lparr>call_stack := butlast (call_stack c)\<rparr>)))"
  proof (cases "ps = []")
    case True
    with pop [OF r] v(2) show ?thesis by (auto simp: v(1) call_ok_def value_ok_def)
  next
    case False
    obtain i c3 where p: "create_phantom_noop cx (sv_node v) ps c2 = (i, c3)"
      by (cases "create_phantom_noop cx (sv_node v) ps c2")
    obtain T3 where r3: "reaches (ic_nodes cx) T2 c2 T3 c3" "i < length T3" "T3 ! i = sv_type v"
      using push_node_with_cache_ok [OF r2(2) noop_typed [OF noop v(2) ps2] p [unfolded create_phantom_noop_def]]
      by blast
    from pop [OF reaches_trans [OF r r3(1)]] r3 False show ?thesis by (auto simp: v(1) p call_ok_def)
  qed
  qed
qed

lemma node_step_ok_less: "node_step_ok impls (R @ R') step \<Longrightarrow> node_step_ok impls R step"
  unfolding node_step_ok_def using nodes_ok_mono [of R _ _ _ R'] by blast

lemma node_step_ok_take: "node_step_ok impls (take k R) step \<Longrightarrow> f \<le> k \<Longrightarrow> node_step_ok impls (take f R) step"
  using node_step_ok_less [of impls "take f R" "take (k - f) (drop f R)" step] by (simp add: take_add [symmetric])

lemma compile_node_call_ok:
  assumes F: "functions_ok R (length (ic_nodes cx)) (ic_functions cx)"
    and noop: "ic_noop cx < length (ic_nodes cx)" "ic_nodes cx ! ic_noop cx = Noop"
    and step: "node_step_ok (ic_nodes cx) (take f R) step"
    and ok: "compiler_ok (ic_nodes cx) T c" and f: "f < length R" and D: "R ! f \<subseteq> dom (symbol_mapping c)"
    and vs: "\<forall>v \<in> set vs. value_ok T v" and ps: "\<forall>i \<in> set ps. i < length T"
  shows "yields (call_ok (ic_nodes cx) T c) (case ic_functions cx ! f of
      BuiltinFunction node_impl_id \<Rightarrow> compile_builtin cx node_impl_id vs ps sp c
    | Custom required defaults body ret \<Rightarrow> compile_custom step cx required defaults body ret vs ps sp c)"
proof (cases "ic_functions cx ! f")
  case (BuiltinFunction i)
  then have "i < length (ic_nodes cx)" using F f by (auto simp: functions_ok_def)
  with BuiltinFunction show ?thesis using compile_builtin_ok [OF ok _ vs ps] by simp
next
  case (Custom required defaults body ret)
  then have "function_ok (take f R) (R ! f) (length (ic_nodes cx)) (Custom required defaults body ret)"
    using F f by (auto simp: functions_ok_def)
  with Custom show ?thesis using compile_custom_ok [OF step ok D _ noop vs ps] by simp
qed

lemma compile_node_ok:
  assumes F: "functions_ok R (length (ic_nodes cx)) (ic_functions cx)"
    and noop: "ic_noop cx < length (ic_nodes cx)" "ic_nodes cx ! ic_noop cx = Noop"
  shows "node_step_ok (ic_nodes cx) (take k R) (compile_node (Suc k) cx)"
proof (induction k)
  case 0
  then show ?case by (simp add: node_step_ok_def)
next
  case (Suc k)
  show ?case unfolding node_step_ok_def
  proof (intro allI impI)
    fix T c D n
    assume ok: "compiler_ok (ic_nodes cx) T c" and D: "D \<subseteq> dom (symbol_mapping c)" and n: "nodes_ok (take (Suc k) R) D [n]"
    let ?f = "ir_function n"
    from n have f: "?f < Suc k" "?f < length R" "R ! ?f \<subseteq> D" and args: "set (ir_arguments n) \<subseteq> D"
      "set (ir_phantom_inputs n) \<subseteq> D" by (auto simp: min_def split: if_split_asm)
    obtain vs where vs: "try_map (get_symbol c) (ir_arguments n) = Ok vs" "\<forall>v \<in> set vs. value_ok T v"
      using get_symbols_defined [OF ok] args(1) D by (metis subset_trans)
    obtain ps where ps: "try_map (get_symbol c) (ir_phantom_inputs n) = Ok ps" "\<forall>v \<in> set ps. value_ok T v"
      using get_symbols_defined [OF ok] args(2) D by (metis subset_trans)
    have step: "node_step_ok (ic_nodes cx) (take ?f R) (compile_node (Suc k) cx)"
      using f(1) by (intro node_step_ok_take [OF Suc.IH]) simp
    have "yields (call_ok (ic_nodes cx) T c) (case ic_functions cx ! ?f of
        BuiltinFunction node_impl_id \<Rightarrow> compile_builtin cx node_impl_id vs (map sv_node ps) (ir_span n) c
      | Custom required defaults body ret \<Rightarrow>
          compile_custom (compile_node (Suc k) cx) cx required defaults body ret vs (map sv_node ps) (ir_span n) c)"
      using f D ps(2) by (intro compile_node_call_ok [OF F noop step ok _ _ vs(2)]) (auto simp: value_ok_def)
    moreover have "?f < length (ic_functions cx)" using F f by (simp add: functions_ok_def)
    ultimately show "yields (defining (ic_nodes cx) T c {ir_name n}) (compile_node (Suc (Suc k)) cx n c)"
      unfolding compile_node.simps(2) [of "Suc k"] Let_def
      by (simp only: vs(1) ps(1) and_then.simps store_get_valid, elim yields_and_then)
        (auto dest: call_defines)
  qed
qed

section \<open>Programs\<close>

lemma compiler_new_ok: "compiler_ok impls [] compiler_new"
  by (simp add: compiler_ok_def compiler_new_def graph_typed_def cache_ok_def store_new_def)

text \<open>What the engine is handed: a graph in order, typed, free of duplicates, with its start node.\<close>

definition runnable :: "data_type list \<Rightarrow> 'p compile_outcome \<Rightarrow> bool" where
  "runnable T p \<longleftrightarrow> graph_typed (cr_nodes p) T (cr_graph p) \<and> distinct (map fst (cr_graph p)) \<and>
     start_node p < length (cr_graph p) \<and> (\<forall>impl \<in> set (cr_nodes p). well_signed impl)"

lemma cache_ok_distinct: "cache_ok c \<Longrightarrow> distinct (map fst (c_graph c))"
  unfolding distinct_conv_nth cache_ok_def by (metis length_map nth_map option.inject)

lemma compile_ok:
  assumes "closed_program R r"
  shows "yields (\<lambda>p. \<exists>T. runnable T p) (compile r)"
proof -
  define cx where "cx = context_of r"
  have F: "functions_ok R (length (ic_nodes cx)) (ic_functions cx)"
    and noop: "ic_noop cx < length (ic_nodes cx)" "ic_nodes cx ! ic_noop cx = Noop"
    and top: "nodes_ok R {} (top_level (rr_ir r))" "start_point (rr_ir r) \<in> names (top_level (rr_ir r))"
    and signed: "\<forall>impl \<in> set (ic_nodes cx). well_signed impl"
    using assms by (simp_all add: closed_program_def cx_def context_of_def)
  let ?step = "compile_node (Suc (length (ic_functions cx))) cx"
  have "length R = length (ic_functions cx)" using F by (simp add: functions_ok_def)
  then have step: "node_step_ok (ic_nodes cx) R ?step"
    using compile_node_ok [OF F noop, of "length R"] by simp
  show ?thesis unfolding compile_def Let_def cx_def [symmetric]
  proof (rule yields_and_then)
    show "yields (defining (ic_nodes cx) [] compiler_new (names (top_level (rr_ir r)))) (run_nodes ?step (top_level (rr_ir r)) compiler_new)"
      using run_nodes_ok [OF step compiler_new_ok _ top(1)] by simp
    fix c assume "defining (ic_nodes cx) [] compiler_new (names (top_level (rr_ir r))) c"
    then obtain T where c: "compiler_ok (ic_nodes cx) T c" "names (top_level (rr_ir r)) \<subseteq> dom (symbol_mapping c)"
      by (rule definingE)
    have "start_point (rr_ir r) \<in> dom (symbol_mapping c)" using top(2) c(2) by blast
    with c(1) obtain v where v: "get_symbol c (start_point (rr_ir r)) = Ok v" "value_ok T v"
      by (rule get_symbol_defined)
    have "runnable T \<lparr>cr_nodes = ic_nodes cx, cr_graph = c_graph c, start_node = sv_node v\<rparr>"
      using c(1) v(2) signed cache_ok_distinct
      by (auto simp: runnable_def compiler_ok_def value_ok_def graph_typed_def)
    then show "yields (\<lambda>p. \<exists>T. runnable T p) (and_then (get_symbol c (start_point (rr_ir r))) (\<lambda>v.
        Ok \<lparr>cr_nodes = ic_nodes cx, cr_graph = c_graph c, start_node = sv_node v\<rparr>))"
      by (auto simp: v(1))
  qed
qed

section \<open>The stack of calls\<close>

definition keeps_stack :: "(ir_node \<Rightarrow> compiler \<Rightarrow> compiler compile_result) \<Rightarrow> bool" where
  "keeps_stack step \<longleftrightarrow> (\<forall>n c c'. step n c = Ok c' \<longrightarrow> call_stack c' = call_stack c)"

lemma run_nodes_stack: "run_nodes step ns c = Ok c' \<Longrightarrow> keeps_stack step \<Longrightarrow> call_stack c' = call_stack c"
  by (induction ns arbitrary: c) (auto simp: outcome_simps keeps_stack_def)

lemma bind_required_stack: "bind_required ps as c = Ok (as', c') \<Longrightarrow> call_stack c' = call_stack c"
  by (induction ps as c rule: bind_required.induct) auto

lemma bind_defaults_stack: "bind_defaults step ds as c = Ok c' \<Longrightarrow> keeps_stack step \<Longrightarrow> call_stack c' = call_stack c"
  by (induction step ds as c rule: bind_defaults.induct) (auto simp: outcome_simps dest: run_nodes_stack)

lemma push_node_with_cache_stack: "push_node_with_cache n m c = (i, c') \<Longrightarrow> call_stack c' = call_stack c"
  by (auto simp: push_node_with_cache_def store_push_def split: option.split_asm)

lemma handle_custom_arguments_stack:
  "handle_custom_arguments step required defaults as sp c = Ok c' \<Longrightarrow> keeps_stack step \<Longrightarrow> call_stack c' = call_stack c"
  by (auto simp: handle_custom_arguments_def outcome_simps dest!: bind_required_stack bind_defaults_stack split: if_split_asm)

lemma compile_custom_stack:
  assumes "compile_custom step cx required defaults body ret vs ps sp c = Ok (i, t, c')" "keeps_stack step"
  shows "call_stack c' = call_stack c"
proof -
  from assms(1) obtain c1 c2 v c3 where
    "handle_custom_arguments step required defaults vs sp (c\<lparr>call_stack := call_stack c @ [sp]\<rparr>) = Ok c1"
    "run_nodes step body c1 = Ok c2" "c3 = c2 \<or> create_phantom_noop cx v ps c2 = (i, c3)"
    "c' = c3\<lparr>call_stack := butlast (call_stack c3)\<rparr>"
    by (auto simp: compile_custom_def outcome_simps Let_def case_prod_beta prod_eq_iff split: if_split_asm)
  with assms(2) show ?thesis
    by (auto simp: create_phantom_noop_def
        dest!: handle_custom_arguments_stack run_nodes_stack push_node_with_cache_stack)
qed

lemma compile_builtin_stack: "compile_builtin cx j vs ps sp c = Ok (i, t, c') \<Longrightarrow> call_stack c' = call_stack c"
  by (auto simp: compile_builtin_def outcome_simps Let_def case_prod_beta intro!: push_node_with_cache_stack prod_eqI)

lemma compile_node_keeps_stack: "keeps_stack (compile_node k cx)"
proof (induction k)
  case (Suc k)
  then show ?case unfolding keeps_stack_def [of "compile_node (Suc k) cx"]
    by (auto simp: outcome_simps Let_def dest: compile_custom_stack compile_builtin_stack split: ir_function.split_asm)
qed (simp add: keeps_stack_def)

section \<open>Properties\<close>

text \<open>
  C28: the compiler of a closed program returns, and fails only with one of the two type errors: no
  symbol is looked up that is not defined, no id is out of bounds, the inlining of calls ends.
\<close>

theorem compile_errors:
  assumes "closed_program R r"
  shows "returns (compile r) \<and> (\<forall>e. compile r = Err e \<longrightarrow> type_fault e)"
  using compile_ok [OF assms] by (cases "compile r") auto

text \<open>
  C29: the graph the compiler builds of a closed program can be run: every node comes after its inputs,
  has an implementation and types that the implementation accepts, no two nodes are equal, and the
  start node is one of them.
\<close>

theorem compile_runnable:
  assumes "closed_program R r" "compile r = Ok p"
  shows "\<exists>T. runnable T p"
  using compile_ok [OF assms(1)] assms(2) by simp

text \<open>
  The stack of calls is restored by every node, also when functions are inlined in it, so that the
  span popped after a call is the one that was pushed for it.
\<close>

theorem compile_node_stack:
  assumes "compile_node k cx n c = Ok c'"
  shows "call_stack c' = call_stack c"
  using compile_node_keeps_stack assms unfolding keeps_stack_def by blast

text \<open>
  C1: the whole front end, from a path and the name of an export to a graph: it returns a graph that can
  be run or an error that blames the user's program.
\<close>

theorem compile_graph_sound:
  assumes "finite (readable h)" and "card (readable h) < fuel"
  shows "sound (compile_graph u h fuel vf file entry_point :: 'p compile_outcome compile_result) \<and>
    (\<forall>p. compile_graph u h fuel vf file entry_point = Ok (p :: 'p compile_outcome) \<longrightarrow> (\<exists>T. runnable T p))"
proof -
  have r: "sound (resolve u h fuel vf file entry_point :: 'p resolve_result compile_result)"
    using resolve_ok [OF assms] by blast
  have c: "\<exists>R. closed_program R r" if "resolve u h fuel vf file entry_point = Ok r" for r :: "'p resolve_result"
    using resolve_ok [OF assms] that by blast
  have "sound (compile r) \<and> (\<forall>p. compile r = Ok p \<longrightarrow> (\<exists>T. runnable T p))"
    if "resolve u h fuel vf file entry_point = Ok (r :: 'p resolve_result)" for r
  proof -
    from c [OF that] obtain R where "closed_program R r" by blast
    then show ?thesis using compile_ok [of R r] yields_sound by fastforce
  qed
  then show ?thesis using r by (auto simp: compile_graph_def outcome_simps)
qed

end
