(* ===== verification/Demo_Graph.thy ===== *)
theory Demo_Graph
  imports Demo Compiler_Props
begin

text \<open>The pipeline of theory \<open>Demo\<close>, compiled to its graph.\<close>

lemma demo_compile:
  "\<exists>r p. resolve ascii_tables demo_host (Suc (Suc 0)) vf_new (ustr ''/m'') (ustr ''A'') = Ok (r :: unit resolve_result) \<and>
     compile r = Ok p"
proof -
  obtain tokens s1 s2 s3 s4 s5 s6 s7 s8 s9 s10 s11 where t:
    "tokenize ascii_tables (Suc 0) (print_tokens demo_tokens) = Ok tokens"
    "parse_file tokens = Ok
      [SFunction None (Spanned (ustr ''f'') s1) [Spanned (ustr ''x'') s2] []
         [SReturn s3 (ELabel (Spanned (ItemPath (Spanned (ustr ''x'') s4) []) s4))],
       SLabel (Some s5)
         (EChain (Spanned (Chain (EString (Spanned (ustr ''a'') s7))
            [Spanned (AstNode (Spanned (ItemPath (Spanned (ustr ''f'') s8) []) s8) [] []) s9]) s10))
         (Spanned (ustr ''A'') s6)]"
    by (rule demo_front)
  show ?thesis
    by (simp add: resolve_def create_prelude_def prelude_def push_node_def push_function_def store_push_def
      resolver_new_def store_new_def wrap_new_def vf_push_def vf_new_def len_utf8_def module_key_def
      is_stdlib_path_def components_def slash_def is_component_def Let_def ustr_def NOOP_NAME_def
      resolve_module_def load_file_def new_symbol_def scope_child_def scope_root_def get_label_def
      get_item_path_def resolve_literal_def bind_item_def demo_host_def t [simplified ustr_def]
      compile_def context_of_def compiler_new_def get_symbol_def compile_builtin_def push_node_with_cache_def
      compile_custom_def handle_custom_arguments_def
      cong: and_then_weak_cong)
qed

lemma demo_program:
  "\<exists>r p R. resolve ascii_tables demo_host (Suc (Suc 0)) vf_new (ustr ''/m'') (ustr ''A'') = Ok (r :: unit resolve_result) \<and>
     closed_program R r \<and> compile r = Ok p"
  using demo_compile resolve_ok [OF demo_readable] by blast

section \<open>Witnesses\<close>

theorem compile_errors_witness:
  "\<exists>r :: unit resolve_result. resolve ascii_tables demo_host (Suc (Suc 0)) vf_new (ustr ''/m'') (ustr ''A'') = Ok r \<and>
     returns (compile r)"
  using demo_program compile_errors by blast

theorem compile_runnable_witness:
  "\<exists>(r :: unit resolve_result) p T. resolve ascii_tables demo_host (Suc (Suc 0)) vf_new (ustr ''/m'') (ustr ''A'') = Ok r \<and>
     compile r = Ok p \<and> runnable T p"
  using demo_program compile_runnable by blast

theorem compile_graph_sound_witness:
  "\<exists>(p :: unit compile_outcome) T.
     compile_graph ascii_tables demo_host (Suc (Suc 0)) vf_new (ustr ''/m'') (ustr ''A'') = Ok p \<and> runnable T p"
proof -
  obtain p :: "unit compile_outcome" where
    "compile_graph ascii_tables demo_host (Suc (Suc 0)) vf_new (ustr ''/m'') (ustr ''A'') = Ok p"
    using demo_compile by (auto simp: compile_graph_def)
  with compile_graph_sound [OF demo_readable] show ?thesis by blast
qed

theorem compile_node_stack_witness:
  "\<exists>c'. compile_node (Suc 0) \<lparr>ic_functions = [BuiltinFunction 0], ic_nodes = [LiteralNode (DInt 7 :: unit data)], ic_noop = 0\<rparr>
     \<lparr>ir_name = 3, ir_function = 0, ir_arguments = [], ir_phantom_inputs = [], ir_span = span_dummy\<rparr>
     (compiler_new\<lparr>call_stack := [span_dummy]\<rparr>) = Ok c' \<and> call_stack c' = [span_dummy]"
proof -
  obtain c' where "compile_node (Suc 0) \<lparr>ic_functions = [BuiltinFunction 0], ic_nodes = [LiteralNode (DInt 7 :: unit data)], ic_noop = 0\<rparr>
     \<lparr>ir_name = 3, ir_function = 0, ir_arguments = [], ir_phantom_inputs = [], ir_span = span_dummy\<rparr>
     (compiler_new\<lparr>call_stack := [span_dummy]\<rparr>) = Ok c'"
    by (simp add: compile_builtin_def push_node_with_cache_def compiler_new_def store_push_def Let_def)
  with compile_node_stack [OF this] show ?thesis by simp
qed

end
