(* ===== verification/Streams.thy ===== *)
theory Streams
  imports Base "HOL-Library.Word" "HOL-Library.Sublist"
begin

text \<open>
  \<^verbatim>\<open>serpentine_internal/src/lib.rs\<close>: postcard frames and the stream format for files and folders.

  The serialisation of postcard is not in the repository: it is the pair of functions \<open>encode\<close> and \<open>decode\<close>, of
  which \<open>codec\<close> states that decoding undoes encoding. Joining paths is a function of the \<open>typed_path\<close>
  package, the parameter \<open>join\<close>. A reader is the list of bytes it has left. What is exported is an \<open>item\<close>
  of the file system with what \<open>metadata\<close> says of it; what it is written to is a map from paths to
  entries. Permissions are not modelled.
\<close>

type_synonym bytes = "8 word list"

datatype io_error = UnexpectedEof | Malformed | NotFound | IsADirectory | NotADirectory

type_synonym 'a io = "(io_error, 'a) outcome"

section \<open>Frames\<close>

fun le_bytes :: "nat \<Rightarrow> nat \<Rightarrow> bytes" where
  "le_bytes 0 n = []"
| "le_bytes (Suc k) n = word_of_nat n # le_bytes k (n div 256)"

fun le_value :: "bytes \<Rightarrow> nat" where
  "le_value [] = 0"
| "le_value (b # bs) = unat b + 256 * le_value bs"

definition read_exact :: "nat \<Rightarrow> bytes \<Rightarrow> (bytes \<times> bytes) io" where
  "read_exact k bs = (if k \<le> length bs then Ok (take k bs, drop k bs) else Err UnexpectedEof)"

definition write_frame :: "('a \<Rightarrow> bytes option) \<Rightarrow> 'a \<Rightarrow> bytes io" where
  "write_frame encode x = and_then (ok_or (encode x) Malformed) (\<lambda>buffer. Ok (le_bytes 8 (length buffer) @ buffer))"

text \<open>A buffer of more than \<open>isize::MAX\<close> bytes cannot be asked for: the allocation panics.\<close>

definition read_frame :: "(bytes \<Rightarrow> 'a option) \<Rightarrow> bytes \<Rightarrow> ('a \<times> bytes) io" where
  "read_frame decode bs = and_then (read_exact 8 bs) (\<lambda>(l, bs).
     if 2 ^ 63 \<le> le_value l then Panic
     else and_then (read_exact (le_value l) bs) (\<lambda>(buffer, bs).
       and_then (ok_or (decode buffer) Malformed) (\<lambda>x. Ok (x, bs))))"

section \<open>Writing a stream\<close>

datatype header =
    FileHeader bytes nat
  | FolderHeader bytes nat

text \<open>
  An item of the disk: a file with the length that its metadata reports and its contents, a folder with
  its entries in the order of \<open>read_dir\<close>, a symbolic link with what it leads to, and anything else, such
  as a socket or a pipe, that is neither a file nor a folder.
\<close>

datatype item =
    RegularFile nat bytes
  | Directory "(bytes \<times> item) list"
  | Link "item option"
  | Special

type_synonym path = "bytes list"

definition file_name :: "path \<Rightarrow> bytes" where
  "file_name p = (if p = [] then [] else last p)"

text \<open>\<open>metadata\<close> of a directory entry does not follow links.\<close>

fun entry_is_dir :: "item \<Rightarrow> bool" where
  "entry_is_dir (Directory es) = True"
| "entry_is_dir it = False"

definition kept :: "(path \<Rightarrow> bool \<Rightarrow> bool) \<Rightarrow> path \<Rightarrow> (bytes \<times> item) list \<Rightarrow> (bytes \<times> item) list" where
  "kept keep p es = filter (\<lambda>(name, it). keep (p @ [name]) (entry_is_dir it)) es"

lemma size_list_filter: "size_list f (filter P xs) \<le> size_list f xs"
  by (induction xs) auto

function write_item :: "(header \<Rightarrow> bytes option) \<Rightarrow> (path \<Rightarrow> bool \<Rightarrow> bool) \<Rightarrow> path \<Rightarrow> item \<Rightarrow> bytes io"
and write_entries :: "(header \<Rightarrow> bytes option) \<Rightarrow> (path \<Rightarrow> bool \<Rightarrow> bool) \<Rightarrow> path \<Rightarrow> (bytes \<times> item) list \<Rightarrow> bytes io" where
  "write_item encode keep p (RegularFile n contents) =
     and_then (write_frame encode (FileHeader (file_name p) n)) (\<lambda>h. Ok (h @ contents))"
| "write_item encode keep p (Directory es) =
     and_then (write_frame encode (FolderHeader (file_name p) (length (kept keep p es)))) (\<lambda>h.
     and_then (write_entries encode keep p (kept keep p es)) (\<lambda>bs. Ok (h @ bs)))"
| "write_item encode keep p (Link (Some it)) = write_item encode keep p it"
| "write_item encode keep p (Link None) = Err NotFound"
| "write_item encode keep p Special = Ok []"
| "write_entries encode keep p [] = Ok []"
| "write_entries encode keep p ((name, it) # es) =
     and_then (write_item encode keep (p @ [name]) it) (\<lambda>b.
     and_then (write_entries encode keep p es) (\<lambda>bs. Ok (b @ bs)))"
  by pat_completeness auto
termination
  by (relation "measure (\<lambda>x. case x of Inl (_, _, _, it) \<Rightarrow> size it
      | Inr (_, _, _, es) \<Rightarrow> size_list (size_prod (\<lambda>_. 0) size) es)")
    (auto simp: kept_def le_imp_less_Suc size_list_filter)

section \<open>Reading a stream\<close>

datatype dentry = DFile bytes | DDir

type_synonym disk = "path \<Rightarrow> dentry option"

fun create_from :: "path \<Rightarrow> path \<Rightarrow> disk \<Rightarrow> disk io" where
  "create_from parents [] d = Ok d"
| "create_from parents (c # cs) d =
     (let p = parents @ [c] in case d p of
        None \<Rightarrow> create_from p cs (d(p \<mapsto> DDir))
      | Some DDir \<Rightarrow> create_from p cs d
      | Some (DFile _) \<Rightarrow> Err NotADirectory)"

definition create_dir_all :: "path \<Rightarrow> disk \<Rightarrow> disk io" where
  "create_dir_all p d = create_from [] p d"

definition open_truncated :: "path \<Rightarrow> disk \<Rightarrow> disk io" where
  "open_truncated p d = (if p = [] \<or> d p = Some DDir then Err IsADirectory else Ok (d(p \<mapsto> DFile [])))"

text \<open>\<open>copy(&mut reader.take(length), file)\<close> ends at the end of the stream, too.\<close>

definition read_file :: "(path \<Rightarrow> bytes \<Rightarrow> path) \<Rightarrow> path \<Rightarrow> bytes \<Rightarrow> nat \<Rightarrow> bytes \<Rightarrow> disk \<Rightarrow> (bytes \<times> disk) io" where
  "read_file join target name n bs d =
     (let target = (if name = [] then target else join target name) in
      and_then (if target = [] then Ok d else create_dir_all (butlast target) d) (\<lambda>d.
      and_then (open_truncated target d) (\<lambda>d.
        Ok (drop n bs, d(target \<mapsto> DFile (take n bs))))))"

fun read_item :: "nat \<Rightarrow> (path \<Rightarrow> bytes \<Rightarrow> path) \<Rightarrow> (bytes \<Rightarrow> header option) \<Rightarrow> path \<Rightarrow> bytes \<Rightarrow> disk \<Rightarrow> (bytes \<times> disk) io"
and read_items :: "nat \<Rightarrow> (path \<Rightarrow> bytes \<Rightarrow> path) \<Rightarrow> (bytes \<Rightarrow> header option) \<Rightarrow> nat \<Rightarrow> path \<Rightarrow> bytes \<Rightarrow> disk \<Rightarrow> (bytes \<times> disk) io"
where
  "read_item 0 join decode target bs d = NoFuel"
| "read_item (Suc k) join decode target bs d =
     and_then (read_frame decode bs) (\<lambda>(h, bs). case h of
         FileHeader name n \<Rightarrow> read_file join target name n bs d
       | FolderHeader name entries \<Rightarrow>
           (let target = join target name in
            and_then (create_dir_all target d) (\<lambda>d. read_items k join decode entries target bs d)))"
| "read_items 0 join decode entries target bs d = NoFuel"
| "read_items (Suc k) join decode 0 target bs d = Ok (bs, d)"
| "read_items (Suc k) join decode (Suc entries) target bs d =
     and_then (read_item k join decode target bs d) (\<lambda>(bs, d). read_items k join decode entries target bs d)"

text \<open>Every entry takes the eight bytes of a length, so the length of the stream bounds the recursion.\<close>

definition read_stream :: "(path \<Rightarrow> bytes \<Rightarrow> path) \<Rightarrow> (bytes \<Rightarrow> header option) \<Rightarrow> path \<Rightarrow> bytes \<Rightarrow> disk \<Rightarrow> (bytes \<times> disk) io" where
  "read_stream join decode target bs d = read_item (Suc (length bs)) join decode target bs d"

section \<open>Frames: lemmas\<close>

lemma length_le_bytes [simp]: "length (le_bytes k n) = k"
  by (induction k arbitrary: n) auto

lemma le_value_le_bytes: "le_value (le_bytes k n) = n mod 256 ^ k"
proof (induction k arbitrary: n)
  case (Suc k)
  have "unat (word_of_nat n :: 8 word) = n mod 256" by (simp add: unat_of_nat)
  then show ?case using mod_mult2_eq [of n 256 "256 ^ k"] by (simp add: Suc)
qed simp

lemma read_exact_append [simp]: "k = length b \<Longrightarrow> read_exact k (b @ rest) = Ok (b, rest)"
  by (simp add: read_exact_def)

lemma read_exact_Ok_iff [outcome_simps]: "read_exact k bs = Ok (x, rest) \<longleftrightarrow> k = length x \<and> bs = x @ rest"
  by (auto simp: read_exact_def)

definition codec :: "('a \<Rightarrow> bool) \<Rightarrow> ('a \<Rightarrow> bytes option) \<Rightarrow> (bytes \<Rightarrow> 'a option) \<Rightarrow> bool" where
  "codec ok encode decode \<longleftrightarrow> (\<forall>x. ok x \<longrightarrow> (\<exists>b. encode x = Some b \<and> decode b = Some x \<and> length b < 2 ^ 63))"

lemma write_frame_read:
  assumes "codec ok encode decode" "ok x"
  shows "\<exists>b. write_frame encode x = Ok b \<and> 8 \<le> length b \<and> (\<forall>rest. read_frame decode (b @ rest) = Ok (x, rest))"
proof -
  obtain b where b: "encode x = Some b" "decode b = Some x" "length b < 2 ^ 63"
    using assms by (auto simp: codec_def)
  have "le_value (le_bytes 8 (length b)) = length b" using b(3) by (simp add: le_value_le_bytes)
  with b show ?thesis
    by (intro exI [of _ "le_bytes 8 (length b) @ b"]) (simp add: write_frame_def read_frame_def)
qed

lemma read_frame_length: "read_frame decode bs = Ok (x, rest) \<Longrightarrow> 8 + length rest \<le> length bs"
  by (auto simp: read_frame_def outcome_simps split: if_split_asm)

lemma read_frame_fuel [simp]: "read_frame decode bs \<noteq> NoFuel"
  by (auto simp: read_frame_def outcome_simps read_exact_def ok_or_def split: if_split_asm option.split_asm)

section \<open>Reading ends\<close>

lemma read_file_length: "read_file join target name n bs d = Ok (rest, d') \<Longrightarrow> length rest \<le> length bs"
  by (auto simp: read_file_def outcome_simps Let_def)

lemma read_length:
  "read_item k join decode target bs d = Ok (rest, d') \<Longrightarrow> 8 + length rest \<le> length bs"
  "read_items k join decode entries target bs d = Ok (rest, d') \<Longrightarrow> length rest \<le> length bs"
proof (induction k join decode target bs d and k join decode entries target bs d
    arbitrary: rest d' and rest d' rule: read_item_read_items.induct)
  case (2 k join decode target bs d)
  then obtain h bs1 where h: "read_frame decode bs = Ok (h, bs1)" by (auto simp: outcome_simps)
  then have "8 + length bs1 \<le> length bs" by (rule read_frame_length)
  moreover have "length rest \<le> length bs1"
    using 2 h by (cases h) (auto simp: outcome_simps Let_def dest: read_file_length)
  ultimately show ?case by simp
next
  case (5 k join decode entries target bs d)
  then show ?case by (fastforce simp: outcome_simps)
qed auto

lemma create_from_fuel [simp]: "create_from parents cs d \<noteq> NoFuel" "create_from parents cs d \<noteq> Panic"
  by (induction parents cs d rule: create_from.induct) (auto simp: Let_def split: option.split dentry.split)

lemma read_file_fuel [simp]: "read_file join target name n bs d \<noteq> NoFuel" "read_file join target name n bs d \<noteq> Panic"
  by (auto simp: read_file_def outcome_simps Let_def create_dir_all_def open_truncated_def split: if_split_asm)

lemma read_fuel:
  "length bs < k \<Longrightarrow> read_item k join decode target bs d \<noteq> NoFuel"
  "Suc (length bs) < k \<Longrightarrow> read_items k join decode entries target bs d \<noteq> NoFuel"
proof (induction k join decode target bs d and k join decode entries target bs d rule: read_item_read_items.induct)
  case (2 k join decode target bs d)
  show ?case
  proof (cases "read_frame decode bs")
    case (Ok x)
    obtain h bs1 where x: "x = (h, bs1)" by (cases x)
    have "Suc (length bs1) < k" using read_frame_length [of decode bs h bs1] Ok 2 x by simp
    then show ?thesis using 2 Ok x by (cases h) (auto simp: outcome_simps Let_def create_dir_all_def)
  qed auto
next
  case (5 k join decode entries target bs d)
  then show ?case using read_length(1) [of k join decode target bs d] by (fastforce simp: outcome_simps)
qed auto

section \<open>What is restored\<close>

definition plain :: "(path \<Rightarrow> bytes \<Rightarrow> path) \<Rightarrow> bytes \<Rightarrow> bool" where
  "plain join name \<longleftrightarrow> name \<noteq> [] \<and> length name < 2 ^ 32 \<and> (\<forall>p. join p name = p @ [name])"

text \<open>The entry that an exported item has at a path below it.\<close>

fun item_at :: "(path \<Rightarrow> bool \<Rightarrow> bool) \<Rightarrow> path \<Rightarrow> item \<Rightarrow> path \<Rightarrow> dentry option"
and entries_at :: "(path \<Rightarrow> bool \<Rightarrow> bool) \<Rightarrow> path \<Rightarrow> (bytes \<times> item) list \<Rightarrow> bytes \<Rightarrow> path \<Rightarrow> dentry option" where
  "item_at keep p (RegularFile n contents) q = (if q = [] then Some (DFile contents) else None)"
| "item_at keep p (Directory es) q = (case q of [] \<Rightarrow> Some DDir | name # q \<Rightarrow> entries_at keep p es name q)"
| "item_at keep p (Link (Some it)) q = item_at keep p it q"
| "item_at keep p (Link None) q = None"
| "item_at keep p Special q = None"
| "entries_at keep p [] name q = None"
| "entries_at keep p ((name', it) # es) name q =
     (if name' = name \<and> keep (p @ [name']) (entry_is_dir it) then item_at keep (p @ [name']) it q
      else entries_at keep p es name q)"

text \<open>
  Items that can be exported: files have the length that is reported, the names in a folder are plain and
  distinct, links lead somewhere, and there is nothing else.
\<close>

fun exportable :: "(path \<Rightarrow> bytes \<Rightarrow> path) \<Rightarrow> item \<Rightarrow> bool" where
  "exportable join (RegularFile n contents) \<longleftrightarrow> n = length contents \<and> n < 2 ^ 64"
| "exportable join (Directory es) \<longleftrightarrow> distinct (map fst es) \<and> length es < 2 ^ 64 \<and>
     (\<forall>(name, it) \<in> set es. plain join name \<and> exportable join it)"
| "exportable join (Link (Some it)) \<longleftrightarrow> exportable join it"
| "exportable join (Link None) \<longleftrightarrow> False"
| "exportable join Special \<longleftrightarrow> False"

definition overlay :: "path \<Rightarrow> (path \<Rightarrow> dentry option) \<Rightarrow> disk \<Rightarrow> disk" where
  "overlay t f d = (\<lambda>p. if prefix t p then f (drop (length t) p) else d p)"

text \<open>A place to write to: the folders above it exist and nothing is there.\<close>

definition free_at :: "path \<Rightarrow> disk \<Rightarrow> bool" where
  "free_at t d \<longleftrightarrow> t \<noteq> [] \<and> (\<forall>q. strict_prefix q t \<and> q \<noteq> [] \<longrightarrow> d q = Some DDir) \<and> (\<forall>q. d (t @ q) = None)"

lemma create_from_existing:
  "(\<forall>q. prefix q cs \<and> q \<noteq> [] \<longrightarrow> d (parents @ q) = Some DDir) \<Longrightarrow> create_from parents cs d = Ok d"
proof (induction parents cs d rule: create_from.induct)
  case (2 parents c cs d)
  have "d (parents @ [c]) = Some DDir" using 2(3) by auto
  moreover have "\<forall>q. prefix q cs \<and> q \<noteq> [] \<longrightarrow> d ((parents @ [c]) @ q) = Some DDir"
    using 2(3) by (auto dest: spec [of _ "c # _"])
  ultimately show ?case using 2(2) by (simp add: Let_def)
qed simp

lemma create_from_append:
  "create_from parents (cs @ cs') d = and_then (create_from parents cs d) (create_from (parents @ cs) cs')"
  by (induction parents cs d rule: create_from.induct)
    (auto simp: Let_def simp del: fun_upd_apply split: option.split dentry.split)

lemma free_at_parents:
  assumes "free_at t d"
  shows "create_dir_all (butlast t) d = Ok d"
proof -
  have "strict_prefix q t" if "prefix q (butlast t)" for q
  proof -
    have "prefix q t" using that prefixeq_butlast prefix_order.trans by blast
    moreover have "length q < length t"
      using prefix_length_le [OF that] assms by (cases t) (auto simp: free_at_def split: if_split_asm)
    ultimately show ?thesis by (auto simp: strict_prefix_def)
  qed
  then show ?thesis using assms unfolding create_dir_all_def
    by (intro create_from_existing) (auto simp: free_at_def)
qed

lemma free_at_create:
  assumes "free_at t d"
  shows "create_dir_all t d = Ok (d(t \<mapsto> DDir))"
proof -
  have t: "t = butlast t @ [last t]" using assms by (simp add: free_at_def)
  have "d t = None" using assms by (auto simp: free_at_def dest: spec [of _ "[]"])
  then show ?thesis using free_at_parents [OF assms] create_from_append [of "[]" "butlast t" "[last t]" d]
    by (simp add: create_dir_all_def Let_def t [symmetric])
qed

lemma free_at_child:
  assumes "free_at t d"
  shows "free_at (t @ [name]) (d(t \<mapsto> DDir))"
  using assms by (auto simp: free_at_def strict_prefix_def prefix_snoc)

lemma free_at_overlay:
  assumes "free_at (t @ [name]) d" "name' \<noteq> name"
  shows "free_at (t @ [name]) (overlay (t @ [name']) f d)"
proof -
  have "\<not> prefix (t @ [name']) (t @ name # q)" for q using assms(2) by auto
  moreover have "\<not> prefix (t @ [name']) q" if "strict_prefix q (t @ [name])" for q
    using that prefix_length_le [of "t @ [name']" q] prefix_length_le [of q t]
    by (auto simp: strict_prefix_def prefix_snoc)
  ultimately show ?thesis using assms(1) by (auto simp: free_at_def overlay_def)
qed

lemma entries_at_kept [simp]: "entries_at keep p (kept keep p es) name q = entries_at keep p es name q"
  by (induction es) (auto simp: kept_def)

lemma entries_at_not: "name \<notin> fst ` set es \<Longrightarrow> entries_at keep p es name q = None"
  by (induction es) auto

text \<open>Restoring the entries of a folder one after the other.\<close>

definition restore :: "(path \<Rightarrow> bool \<Rightarrow> bool) \<Rightarrow> path \<Rightarrow> path \<Rightarrow> (bytes \<times> item) list \<Rightarrow> disk \<Rightarrow> disk" where
  "restore keep p t es d = fold (\<lambda>(name, it). overlay (t @ [name]) (item_at keep (p @ [name]) it)) es d"

lemma restore_at:
  assumes "distinct (map fst es)" "\<forall>(name, it) \<in> set es. keep (p @ [name]) (entry_is_dir it)"
  shows "restore keep p t es d (t @ name # q) =
     (if name \<in> fst ` set es then entries_at keep p es name q else d (t @ name # q))"
  using assms
proof (induction es arbitrary: d)
  case (Cons e es)
  obtain n it where e: "e = (n, it)" by (cases e)
  have "restore keep p t (e # es) d = restore keep p t es (overlay (t @ [n]) (item_at keep (p @ [n]) it) d)"
    by (simp add: restore_def e)
  with Cons show ?case by (auto simp: e overlay_def)
qed (simp add: restore_def)

lemma restore_other: "\<forall>name q. r \<noteq> t @ name # q \<Longrightarrow> restore keep p t es d r = d r"
proof (induction es arbitrary: d)
  case (Cons e es)
  obtain n it where e: "e = (n, it)" by (cases e)
  have "\<not> prefix (t @ [n]) r" using Cons.prems by (auto simp: prefix_def)
  then have "overlay (t @ [n]) (item_at keep (p @ [n]) it) d r = d r" by (simp add: overlay_def)
  with Cons show ?case by (simp add: restore_def e)
qed (simp add: restore_def)

lemma kept_props:
  "distinct (map fst es) \<Longrightarrow> distinct (map fst (kept keep p es))"
  "\<forall>(name, it) \<in> set (kept keep p es). keep (p @ [name]) (entry_is_dir it)"
  "set (kept keep p es) \<subseteq> set es" "length (kept keep p es) \<le> length es"
  by (auto simp: kept_def distinct_map_filter)

lemma restore_folder:
  assumes "free_at t d" "distinct (map fst es)"
  shows "restore keep p t (kept keep p es) (d(t \<mapsto> DDir)) = overlay t (item_at keep p (Directory es)) d"
proof
  fix r
  let ?r = "restore keep p t (kept keep p es) (d(t \<mapsto> DDir))"
  consider (below) name q where "r = t @ name # q" | (here) "r = t" | (other) "\<not> prefix t r"
  proof (cases "prefix t r")
    case True
    then obtain s where "r = t @ s" by (rule prefixE)
    with that show ?thesis by (cases s) auto
  qed (rule that)
  then show "?r r = overlay t (item_at keep p (Directory es)) d r"
  proof cases
    case below
    have "?r (t @ name # q) = (if name \<in> fst ` set (kept keep p es) then entries_at keep p es name q else d (t @ name # q))"
      using restore_at [OF kept_props(1) [OF assms(2), of keep p] kept_props(2)] by simp
    moreover have "d (t @ name # q) = None" using assms(1) by (simp add: free_at_def)
    moreover have "entries_at keep p es name q = None" if "name \<notin> fst ` set (kept keep p es)"
      using entries_at_not [OF that, of keep p q] by simp
    ultimately show ?thesis by (auto simp: below overlay_def)
  next
    case here
    then show ?thesis by (simp add: restore_other overlay_def)
  next
    case other
    then have "\<forall>name q. r \<noteq> t @ name # q" by (auto simp: prefix_def)
    with other show ?thesis by (auto simp: restore_other overlay_def)
  qed
qed

section \<open>Reading what was written\<close>

fun valid_header :: "header \<Rightarrow> bool" where
  "valid_header (FileHeader name n) \<longleftrightarrow> length name < 2 ^ 32 \<and> n < 2 ^ 64"
| "valid_header (FolderHeader name n) \<longleftrightarrow> length name < 2 ^ 32 \<and> n < 2 ^ 64"

definition stream_setup :: "(header \<Rightarrow> bytes option) \<Rightarrow> (bytes \<Rightarrow> header option) \<Rightarrow> (path \<Rightarrow> bytes \<Rightarrow> path) \<Rightarrow> bool" where
  "stream_setup encode decode join \<longleftrightarrow> codec valid_header encode decode \<and> (\<forall>p. join p [] = p)"

text \<open>Where an item goes that is at \<open>p\<close> in the export and is read into the folder \<open>t\<close>.\<close>

definition place :: "path \<Rightarrow> path \<Rightarrow> path" where
  "place p t = (if p = [] then t else t @ [last p])"

definition named :: "(path \<Rightarrow> bytes \<Rightarrow> path) \<Rightarrow> path \<Rightarrow> bool" where
  "named join p \<longleftrightarrow> p = [] \<or> plain join (last p)"

lemma place_join:
  assumes "stream_setup encode decode join" "named join p"
  shows "join t (file_name p) = place p t" "(if file_name p = [] then t else join t (file_name p)) = place p t"
    "length (file_name p) < 2 ^ 32"
  using assms by (auto simp: named_def plain_def file_name_def place_def stream_setup_def)

lemma read_file_restores:
  assumes "stream_setup encode decode join" "named join p" "free_at (place p t) d"
  shows "read_file join t (file_name p) (length contents) (contents @ rest) d =
    Ok (rest, overlay (place p t) (item_at keep p (RegularFile n contents)) d)"
proof -
  have "place p t \<noteq> []" "d (place p t) = None"
    using assms(3) by (auto simp: free_at_def dest: spec [of _ "[]"])
  then have "read_file join t (file_name p) (length contents) (contents @ rest) d =
      Ok (rest, d(place p t \<mapsto> DFile contents))"
    unfolding read_file_def place_join(2) [OF assms(1,2)]
    by (simp add: Let_def free_at_parents [OF assms(3)] open_truncated_def)
  moreover have "d(place p t \<mapsto> DFile contents) = overlay (place p t) (item_at keep p (RegularFile n contents)) d"
    using assms(3) by (auto simp: overlay_def free_at_def prefix_def fun_eq_iff)
  ultimately show ?thesis by simp
qed

lemma item_at_link [simp]: "item_at keep p (Link (Some it)) = item_at keep p it"
  by (rule ext) simp

lemma write_read:
  assumes S: "stream_setup encode decode join"
  shows "exportable join it \<Longrightarrow> named join p \<Longrightarrow>
      \<exists>bs. write_item encode keep p it = Ok bs \<and> 8 \<le> length bs \<and>
        (\<forall>rest t d k. free_at (place p t) d \<longrightarrow> length (bs @ rest) < k \<longrightarrow>
          read_item k join decode t (bs @ rest) d = Ok (rest, overlay (place p t) (item_at keep p it) d))"
    and "distinct (map fst es) \<Longrightarrow> (\<forall>(name, it) \<in> set es. plain join name \<and> exportable join it) \<Longrightarrow>
      \<exists>bs. write_entries encode keep p es = Ok bs \<and>
        (\<forall>rest t d k. (\<forall>name \<in> fst ` set es. free_at (t @ [name]) d) \<longrightarrow> Suc (length (bs @ rest)) < k \<longrightarrow>
          read_items k join decode (length es) t (bs @ rest) d = Ok (rest, restore keep p t es d))"
  using S
proof (induction encode keep p it and encode keep p es rule: write_item_write_entries.induct)
  case (1 encode keep p n contents)
  then have ok: "valid_header (FileHeader (file_name p) n)" "n = length contents"
    using place_join(3) [OF "1.prems"(3,2)] by auto
  obtain h where h: "write_frame encode (FileHeader (file_name p) n) = Ok h" "8 \<le> length h"
    "\<And>rest. read_frame decode (h @ rest) = Ok (FileHeader (file_name p) n, rest)"
    using write_frame_read [of valid_header encode decode, OF _ ok(1)] "1.prems"(3) by (auto simp: stream_setup_def)
  have "read_item k join decode t ((h @ contents) @ rest) d =
      Ok (rest, overlay (place p t) (item_at keep p (RegularFile n contents)) d)"
    if "free_at (place p t) d" "length ((h @ contents) @ rest) < k" for rest t d k
    using that(2) read_file_restores [OF "1.prems"(3,2) that(1), of contents rest keep n]
    by (cases k) (simp_all add: h(3) ok(2) del: item_at.simps)
  with h show ?case by (intro exI [of _ "h @ contents"]) (simp del: item_at.simps)
next
  case (2 encode keep p es)
  let ?es = "kept keep p es"
  have len: "length ?es < 2 ^ 64"
    using "2.prems"(1) kept_props(4) [of keep p es] by simp
  then have ok: "valid_header (FolderHeader (file_name p) (length ?es))"
    using place_join(3) [OF "2.prems"(3,2)] by simp
  obtain h where h: "write_frame encode (FolderHeader (file_name p) (length ?es)) = Ok h" "8 \<le> length h"
    "\<And>rest. read_frame decode (h @ rest) = Ok (FolderHeader (file_name p) (length ?es), rest)"
    using write_frame_read [of valid_header encode decode, OF _ ok] "2.prems"(3) by (auto simp: stream_setup_def)
  have "distinct (map fst ?es)" "\<forall>(name, it) \<in> set ?es. plain join name \<and> exportable join it"
    using "2.prems"(1) kept_props(1) [of es keep p] kept_props(3) [of keep p es] by auto
  from "2.IH" [OF h(1) this "2.prems"(3)] obtain bs where bs: "write_entries encode keep p ?es = Ok bs"
    "\<And>rest t d k. \<forall>name \<in> fst ` set ?es. free_at (t @ [name]) d \<Longrightarrow> Suc (length (bs @ rest)) < k \<Longrightarrow>
      read_items k join decode (length ?es) t (bs @ rest) d = Ok (rest, restore keep p t ?es d)"
    by blast
  have "read_item k join decode t ((h @ bs) @ rest) d =
      Ok (rest, overlay (place p t) (item_at keep p (Directory es)) d)"
    if "free_at (place p t) d" "length ((h @ bs) @ rest) < k" for rest t d k
  proof -
    note free = that(1) and fuel = that(2)
    obtain k' where k: "k = Suc k'" "Suc (length (bs @ rest)) < k'" using fuel h(2) by (cases k) auto
    have "read_items k' join decode (length ?es) (place p t) (bs @ rest) (d(place p t \<mapsto> DDir)) =
        Ok (rest, overlay (place p t) (item_at keep p (Directory es)) d)"
      using bs(2) [OF _ k(2)] free_at_child [OF free] restore_folder [OF free] "2.prems"(1) by simp
    then show ?thesis
      by (simp add: k(1) h(3) place_join(1) [OF "2.prems"(3,2)] free_at_create [OF free])
  qed
  with h bs(1) show ?case by (intro exI [of _ "h @ bs"]) (simp del: item_at.simps)
next
  case (6 encode keep p)
  have "read_items k join decode 0 t rest d = Ok (rest, d)" if "Suc (length rest) < k" for k t rest d
    using that by (cases k) auto
  then show ?case by (simp add: restore_def)
next
  case (7 encode keep p name it es)
  then have "named join (p @ [name])" by (simp add: named_def)
  with 7 obtain b where b: "write_item encode keep (p @ [name]) it = Ok b" "8 \<le> length b"
    "\<And>rest t d k. free_at (t @ [name]) d \<Longrightarrow> length (b @ rest) < k \<Longrightarrow> read_item k join decode t (b @ rest) d =
      Ok (rest, overlay (t @ [name]) (item_at keep (p @ [name]) it) d)"
    by (auto simp: place_def)
  from 7 b(1) obtain bs where bs: "write_entries encode keep p es = Ok bs"
    "\<And>rest t d k. \<forall>name \<in> fst ` set es. free_at (t @ [name]) d \<Longrightarrow> Suc (length (bs @ rest)) < k \<Longrightarrow>
      read_items k join decode (length es) t (bs @ rest) d = Ok (rest, restore keep p t es d)"
    by auto
  have "read_items k join decode (length ((name, it) # es)) t ((b @ bs) @ rest) d = Ok (rest, restore keep p t ((name, it) # es) d)"
    if "\<forall>name \<in> fst ` set ((name, it) # es). free_at (t @ [name]) d" "Suc (length ((b @ bs) @ rest)) < k" for rest t d k
  proof -
    let ?d = "overlay (t @ [name]) (item_at keep (p @ [name]) it) d"
    note free = that(1) and fuel = that(2)
    obtain k' where k: "k = Suc k'" "length (b @ bs @ rest) < k'" "Suc (length (bs @ rest)) < k'"
      using fuel b(2) by (cases k) auto
    have "\<forall>name' \<in> fst ` set es. free_at (t @ [name']) ?d"
      using free "7.prems"(1) by (auto intro!: free_at_overlay)
    then show ?thesis using b(3) [of t d "bs @ rest" k'] bs(2) [of t ?d rest k'] free k
      by (simp add: restore_def)
  qed
  with b(1) bs(1) show ?case by (intro exI [of _ "b @ bs"]) simp
qed simp_all

section \<open>Properties\<close>

text \<open>
  Exporting and importing: the stream written for a file or folder that can be exported, read into a
  place where nothing is yet, consumes exactly that stream and creates exactly the entries of the item
  that the filter keeps, with their contents; nothing else of the disk changes.
\<close>

theorem stream_roundtrip:
  assumes "stream_setup encode decode join" "exportable join it" "free_at t d"
  shows "\<exists>bs. write_item encode keep [] it = Ok bs \<and>
    read_stream join decode t bs d = Ok ([], overlay t (item_at keep [] it) d)"
proof -
  obtain bs where "write_item encode keep [] it = Ok bs"
    "\<And>rest k. length (bs @ rest) < k \<Longrightarrow> read_item k join decode t (bs @ rest) d = Ok (rest, overlay t (item_at keep [] it) d)"
    using write_read(1) [OF assms(1,2), of "[]" keep] assms(3) by (auto simp: named_def place_def)
  from this(1) this(2) [of "[]" "Suc (length bs)"] show ?thesis by (auto simp: read_stream_def)
qed

text \<open>
  Frames: what was written as a frame is read back, and the reader is left after it, so that frames
  can follow each other in a stream.
\<close>

theorem frame_roundtrip:
  assumes "codec ok encode decode" "ok x"
  shows "\<exists>b. write_frame encode x = Ok b \<and> (\<forall>rest. read_frame decode (b @ rest) = Ok (x, rest))"
  using write_frame_read [OF assms] by blast

text \<open>
  Reading a stream ends on every input, also where the stream announces more entries than it has.
\<close>

theorem read_stream_ends: "read_stream join decode target bs d \<noteq> NoFuel"
  unfolding read_stream_def by (rule read_fuel(1)) simp

text \<open>
  A folder that holds something that is neither a file nor a folder, such as a socket, is announced
  with an entry that is never written: reading what was written fails.
\<close>

theorem special_entry_breaks_stream:
  assumes "stream_setup encode decode join" "free_at t d" "keep [name] False"
  shows "\<exists>bs. write_item encode keep [] (Directory [(name, Special)]) = Ok bs \<and>
    read_stream join decode t bs d = Err UnexpectedEof"
proof -
  have kept: "kept keep [] [(name, Special)] = [(name, Special)]" using assms(3) by (simp add: kept_def)
  have "codec valid_header encode decode" "valid_header (FolderHeader [] 1)"
    using assms(1) by (simp_all add: stream_setup_def)
  from write_frame_read [OF this] obtain h where h: "write_frame encode (FolderHeader [] 1) = Ok h" "8 \<le> length h"
    "\<And>rest. read_frame decode (h @ rest) = Ok (FolderHeader [] 1, rest)" by blast
  obtain k where k: "length h = Suc (Suc k)" using that [of "length h - 2"] h(2) by simp
  have eof: "read_frame decode [] = Err UnexpectedEof" by (simp add: read_frame_def read_exact_def)
  have j: "join t [] = t" using assms(1) by (simp add: stream_setup_def)
  have "read_stream join decode t h d = Err UnexpectedEof"
    using h(3) [of "[]"] by (simp add: read_stream_def k j free_at_create [OF assms(2)] eof)
  moreover have "write_item encode keep [] (Directory [(name, Special)]) = Ok h"
    using h(1) by (simp add: kept file_name_def)
  ultimately show ?thesis by blast
qed

text \<open>
  A stream that ends within the contents of a file is accepted: the file is created with the bytes
  that are there, and no error is reported.
\<close>

theorem truncated_file_accepted:
  assumes "stream_setup encode decode join" "free_at t d" "length contents < n" "n < 2 ^ 64"
  shows "\<exists>h. write_frame encode (FileHeader [] n) = Ok h \<and>
    read_stream join decode t (h @ contents) d = Ok ([], d(t \<mapsto> DFile contents))"
proof -
  have "codec valid_header encode decode" "valid_header (FileHeader [] n)"
    using assms(1,4) by (simp_all add: stream_setup_def)
  from write_frame_read [OF this] obtain h where h: "write_frame encode (FileHeader [] n) = Ok h"
    "\<And>rest. read_frame decode (h @ rest) = Ok (FileHeader [] n, rest)" by blast
  have "t \<noteq> []" "d t = None" using assms(2) by (auto simp: free_at_def dest: spec [of _ "[]"])
  then have "read_stream join decode t (h @ contents) d = Ok ([], d(t \<mapsto> DFile contents))"
    using h(2) [of contents] assms(3)
    by (simp add: read_stream_def read_file_def Let_def free_at_parents [OF assms(2)] open_truncated_def)
  with h(1) show ?thesis by blast
qed

text \<open>
  A frame that announces more than \<open>isize::MAX\<close> bytes is not an error of the reader: the allocation of
  its buffer panics.
\<close>

theorem oversized_frame_panics:
  assumes "2 ^ 63 \<le> n" "n < 2 ^ 64"
  shows "read_frame decode (le_bytes 8 n @ rest) = Panic"
  using assms by (simp add: read_frame_def le_value_le_bytes)

section \<open>Witnesses\<close>

text \<open>A serialisation and a join at which the hypotheses hold.\<close>

fun example_encode :: "header \<Rightarrow> bytes option" where
  "example_encode (FileHeader name n) =
     (if valid_header (FileHeader name n) then Some (0 # le_bytes 8 n @ name) else None)"
| "example_encode (FolderHeader name n) =
     (if valid_header (FolderHeader name n) then Some (1 # le_bytes 8 n @ name) else None)"

fun example_decode :: "bytes \<Rightarrow> header option" where
  "example_decode [] = None"
| "example_decode (b # bs) =
     Some ((if b = 0 then FileHeader else FolderHeader) (drop 8 bs) (le_value (take 8 bs)))"

definition example_join :: "path \<Rightarrow> bytes \<Rightarrow> path" where
  "example_join p name = (if name = [] then p else p @ [name])"

lemma example_setup: "stream_setup example_encode example_decode example_join"
proof -
  have "\<exists>b. example_encode h = Some b \<and> example_decode b = Some h \<and> length b < 2 ^ 63" if "valid_header h" for h
    using that by (cases h) (auto simp: le_value_le_bytes)
  then show ?thesis by (simp add: stream_setup_def codec_def example_join_def)
qed

lemma example_free: "free_at [[9]] Map.empty"
  by (auto simp: free_at_def strict_prefix_def prefix_Cons)

theorem stream_roundtrip_witness:
  "\<exists>bs. write_item example_encode (\<lambda>p is_dir. True) [] (Directory [([1], RegularFile 1 [7]), ([2], Link (Some (RegularFile 0 [])))]) = Ok bs \<and>
    read_stream example_join example_decode [[9]] bs Map.empty =
      Ok ([], overlay [[9]] (item_at (\<lambda>p is_dir. True) [] (Directory [([1], RegularFile 1 [7]), ([2], Link (Some (RegularFile 0 [])))])) Map.empty)"
  by (rule stream_roundtrip [OF example_setup _ example_free]) (simp add: plain_def example_join_def)

theorem frame_roundtrip_witness:
  "\<exists>b. write_frame example_encode (FileHeader [1] 5) = Ok b \<and>
    (\<forall>rest. read_frame example_decode (b @ rest) = Ok (FileHeader [1] 5, rest))"
proof (rule frame_roundtrip [where ok = valid_header])
  show "codec valid_header example_encode example_decode" using example_setup by (simp add: stream_setup_def)
qed simp

theorem special_entry_breaks_stream_witness:
  "\<exists>bs. write_item example_encode (\<lambda>p is_dir. True) [] (Directory [([1], Special)]) = Ok bs \<and>
    read_stream example_join example_decode [[9]] bs Map.empty = Err UnexpectedEof"
  by (rule special_entry_breaks_stream [OF example_setup example_free]) simp

theorem truncated_file_accepted_witness:
  "\<exists>h. write_frame example_encode (FileHeader [] 5) = Ok h \<and>
    read_stream example_join example_decode [[9]] (h @ [1]) Map.empty = Ok ([], [[[9]] \<mapsto> DFile [1]])"
  by (rule truncated_file_accepted [OF example_setup example_free]) simp_all

theorem oversized_frame_panics_witness:
  "read_frame example_decode (le_bytes 8 (2 ^ 63) @ []) = Panic"
  by (rule oversized_frame_panics) simp_all

end
