(* ===== verification/Users.thy ===== *)
theory Users
  imports Tokenizer_Props
begin

text \<open>
  \<^verbatim>\<open>serpentine/src/engine/userdb.rs\<close>: user strings of image configurations and the files
  \<^verbatim>\<open>/etc/passwd\<close> and \<^verbatim>\<open>/etc/group\<close> they are resolved with. A \<open>u32\<close> is a natural number that
  \<open>parse_u32\<close> keeps below \<open>2^32\<close>; \<open>oci_user\<close> is the part of \<open>oci_spec\<close>'s user that the code sets.
\<close>

section \<open>Strings\<close>

definition colon :: uchar where "colon = 58"
definition comma :: uchar where "comma = 44"
definition newline_char :: uchar where "newline_char = 10"
definition return_char :: uchar where "return_char = 13"

text \<open>\<open>str::split\<close> at a character.\<close>

fun split_at_char :: "uchar \<Rightarrow> ustr \<Rightarrow> ustr list" where
  "split_at_char c [] = [[]]"
| "split_at_char c (x # xs) =
     (if x = c then [] # split_at_char c xs
      else case split_at_char c xs of f # fs \<Rightarrow> (x # f) # fs | [] \<Rightarrow> [[x]])"

text \<open>\<open>str::split_once\<close>.\<close>

fun split_once :: "uchar \<Rightarrow> ustr \<Rightarrow> (ustr \<times> ustr) option" where
  "split_once c [] = None"
| "split_once c (x # xs) =
     (if x = c then Some ([], xs) else map_option (\<lambda>(a, b). (x # a, b)) (split_once c xs))"

text \<open>\<open>str::lines\<close>: the end of a line is a newline, with a carriage return before it or not.\<close>

definition strip_return :: "ustr \<Rightarrow> ustr" where
  "strip_return l = (if l \<noteq> [] \<and> last l = return_char then butlast l else l)"

fun text_lines_from :: "ustr \<Rightarrow> ustr \<Rightarrow> ustr list" where
  "text_lines_from l [] = (if l = [] then [] else [l])"
| "text_lines_from l (x # xs) =
     (if x = newline_char then strip_return l # text_lines_from [] xs else text_lines_from (l @ [x]) xs)"

definition text_lines :: "ustr \<Rightarrow> ustr list" where
  "text_lines s = text_lines_from [] s"

text \<open>\<open>str::parse::<u32>\<close>: an optional plus sign and at least one digit, without overflow.\<close>

definition parse_u32 :: "ustr \<Rightarrow> nat option" where
  "parse_u32 s = (let ds = (case s of c # cs \<Rightarrow> if c = 43 then cs else s | [] \<Rightarrow> []) in
     if ds \<noteq> [] \<and> list_all is_ascii_digit ds \<and> digits_value 0 ds < 2 ^ 32 then Some (digits_value 0 ds) else None)"

section \<open>Identifiers\<close>

datatype user_identifier = UserId nat | UserName ustr

datatype group_identifier = GroupId nat | GroupName ustr

definition parse_user :: "ustr \<Rightarrow> user_identifier" where
  "parse_user s = (case parse_u32 s of Some i \<Rightarrow> UserId i | None \<Rightarrow> UserName s)"

definition parse_group :: "ustr \<Rightarrow> group_identifier" where
  "parse_group s = (case parse_u32 s of Some i \<Rightarrow> GroupId i | None \<Rightarrow> GroupName s)"

record oci_user_string =
  ou_user :: user_identifier
  ou_group :: "group_identifier option"

definition parse_oci_user :: "ustr \<Rightarrow> oci_user_string" where
  "parse_oci_user s = (case split_once colon s of
       Some (u, g) \<Rightarrow> \<lparr>ou_user = parse_user u, ou_group = Some (parse_group g)\<rparr>
     | None \<Rightarrow> \<lparr>ou_user = parse_user s, ou_group = None\<rparr>)"

section \<open>The files\<close>

record passwd_entry =
  pe_username :: ustr
  pe_user_id :: nat
  pe_group_id :: nat
  pe_home :: ustr

text \<open>Seven fields at least; further ones are ignored.\<close>

fun parse_passwd_entry :: "ustr \<Rightarrow> passwd_entry option" where
  "parse_passwd_entry s = (case split_at_char colon s of
       username # password # uid # gid # comments # home_dir # shell # _ \<Rightarrow>
         Option.bind (parse_u32 uid) (\<lambda>u. Option.bind (parse_u32 gid) (\<lambda>g.
           Some \<lparr>pe_username = username, pe_user_id = u, pe_group_id = g, pe_home = home_dir\<rparr>))
     | _ \<Rightarrow> None)"

definition parse_passwd :: "ustr \<Rightarrow> passwd_entry list" where
  "parse_passwd s = List.map_filter parse_passwd_entry (text_lines s)"

record group_entry =
  ge_name :: ustr
  ge_id :: nat
  ge_members :: "ustr list"

fun parse_group_entry :: "ustr \<Rightarrow> group_entry option" where
  "parse_group_entry s = (case split_at_char colon s of
       group_name # password # gid # members # _ \<Rightarrow>
         Option.bind (parse_u32 gid) (\<lambda>g.
           Some \<lparr>ge_name = group_name, ge_id = g,
             ge_members = filter (\<lambda>m. m \<noteq> []) (split_at_char comma members)\<rparr>)
     | _ \<Rightarrow> None)"

definition parse_etc_group :: "ustr \<Rightarrow> group_entry list" where
  "parse_etc_group s = List.map_filter parse_group_entry (text_lines s)"

section \<open>Lookups\<close>

fun is_user :: "user_identifier \<Rightarrow> passwd_entry \<Rightarrow> bool" where
  "is_user (UserName name) e \<longleftrightarrow> pe_username e = name"
| "is_user (UserId i) e \<longleftrightarrow> pe_user_id e = i"

definition find_user :: "passwd_entry list \<Rightarrow> user_identifier \<Rightarrow> passwd_entry option" where
  "find_user passwd identifier = List.find (is_user identifier) passwd"

definition check_gid_valid :: "group_entry list \<Rightarrow> nat \<Rightarrow> bool" where
  "check_gid_valid gs gid \<longleftrightarrow> list_ex (\<lambda>e. ge_id e = gid) gs"

definition find_group_by_name :: "group_entry list \<Rightarrow> ustr \<Rightarrow> group_entry option" where
  "find_group_by_name gs name = List.find (\<lambda>e. ge_name e = name) gs"

definition groups_of_user :: "group_entry list \<Rightarrow> ustr \<Rightarrow> group_entry list" where
  "groups_of_user gs username = filter (\<lambda>e. list_ex (\<lambda>m. m = username) (ge_members e)) gs"

section \<open>Resolving\<close>

record oci_user =
  oci_uid :: nat
  oci_gid :: nat
  oci_additional_gids :: "nat list"

text \<open>The messages of \<open>UserNotFound\<close>.\<close>

datatype user_not_found = NoUser | NoGroupId | NoGroupName

definition resolve_user :: "oci_user_string \<Rightarrow> passwd_entry list \<Rightarrow> group_entry list \<Rightarrow>
    (user_not_found, oci_user \<times> ustr) outcome" where
  "resolve_user u passwd gs =
     and_then (ok_or (find_user passwd (ou_user u)) NoUser) (\<lambda>entry.
     and_then (case ou_group u of
         Some (GroupId i) \<Rightarrow>
           if \<not> check_gid_valid gs i then Err NoGroupId
           else Ok \<lparr>oci_uid = pe_user_id entry, oci_gid = i, oci_additional_gids = []\<rparr>
       | Some (GroupName name) \<Rightarrow>
           and_then (ok_or (find_group_by_name gs name) NoGroupName) (\<lambda>g.
             Ok \<lparr>oci_uid = pe_user_id entry, oci_gid = ge_id g, oci_additional_gids = []\<rparr>)
       | None \<Rightarrow>
           (let group_id = pe_group_id entry in
            if \<not> check_gid_valid gs group_id then Err NoGroupId
            else Ok \<lparr>oci_uid = pe_user_id entry, oci_gid = group_id,
              oci_additional_gids = map ge_id (filter (\<lambda>e. ge_id e \<noteq> group_id) (groups_of_user gs (pe_username entry)))\<rparr>))
       (\<lambda>user. Ok (user, pe_home entry)))"

section \<open>Printing the files\<close>

definition passwd_line :: "passwd_entry \<Rightarrow> ustr" where
  "passwd_line e = pe_username e @ ustr '':x:'' @ ustr (dec (pe_user_id e)) @ ustr '':'' @ ustr (dec (pe_group_id e))
     @ ustr ''::'' @ pe_home e @ ustr '':/bin/sh'' @ [newline_char]"

definition group_line :: "group_entry \<Rightarrow> ustr" where
  "group_line g = ge_name g @ ustr '':x:'' @ ustr (dec (ge_id g)) @ ustr '':'' @ join_with [comma] (ge_members g) @ [newline_char]"

text \<open>Text that can stand in a field.\<close>

definition field :: "ustr \<Rightarrow> bool" where
  "field s \<longleftrightarrow> colon \<notin> set s \<and> newline_char \<notin> set s"

definition passwd_entry_ok :: "passwd_entry \<Rightarrow> bool" where
  "passwd_entry_ok e \<longleftrightarrow> field (pe_username e) \<and> field (pe_home e) \<and> pe_user_id e < 2 ^ 32 \<and> pe_group_id e < 2 ^ 32"

definition group_entry_ok :: "group_entry \<Rightarrow> bool" where
  "group_entry_ok g \<longleftrightarrow> field (ge_name g) \<and> ge_id g < 2 ^ 32 \<and>
     (\<forall>m \<in> set (ge_members g). field m \<and> m \<noteq> [] \<and> comma \<notin> set m \<and> return_char \<notin> set m)"

lemma split_at_char_no: "c \<notin> set s \<Longrightarrow> split_at_char c s = [s]"
  by (induction s) auto

lemma split_at_char_append: "c \<notin> set s \<Longrightarrow> split_at_char c (s @ c # t) = s # split_at_char c t"
  by (induction s) auto

lemma parse_u32_dec: "n < 2 ^ 32 \<Longrightarrow> parse_u32 (ustr (dec n)) = Some n"
proof -
  assume n: "n < 2 ^ 32"
  obtain c cs where c: "ustr (dec n) = c # cs" "is_ascii_digit c"
    using digits_dec [of n] by (cases "ustr (dec n)") (auto simp: ustr_def)
  then have "c \<noteq> 43" by (simp add: is_ascii_digit_def)
  with c n digits_dec [of n] digits_value_dec [of n] show ?thesis by (auto simp: parse_u32_def)
qed

lemma dec_field: "field (ustr (dec n))"
  using digits_dec [of n] by (auto simp: field_def list_all_iff is_ascii_digit_def colon_def newline_char_def)

lemma text_lines_line:
  "newline_char \<notin> set s \<Longrightarrow> text_lines_from l (s @ newline_char # t) = strip_return (l @ s) # text_lines_from [] t"
  by (induction s arbitrary: l) auto

lemma text_lines_concat:
  assumes "\<And>x. x \<in> set xs \<Longrightarrow> f x = g x @ [newline_char] \<and> newline_char \<notin> set (g x) \<and> strip_return (g x) = g x"
  shows "text_lines (concat (map f xs)) = map g xs"
  using assms by (induction xs) (auto simp: text_lines_def text_lines_line)

lemma strip_return_no: "s = [] \<or> last s \<noteq> return_char \<Longrightarrow> strip_return s = s"
  by (auto simp: strip_return_def)

lemma map_filter_all: "(\<And>x. x \<in> set xs \<Longrightarrow> f (g x) = Some x) \<Longrightarrow> List.map_filter f (map g xs) = xs"
  by (induction xs) (auto simp: map_filter_simps)

lemmas special_chars = colon_def comma_def newline_char_def return_char_def

lemma parse_passwd_line:
  assumes "passwd_entry_ok e"
  shows "parse_passwd_entry (butlast (passwd_line e)) = Some e"
proof -
  have f: "colon \<notin> set (pe_username e)" "colon \<notin> set (pe_home e)" "colon \<notin> set (ustr (dec n))" for n
    using assms dec_field [of n] by (auto simp: passwd_entry_ok_def field_def)
  have line: "butlast (passwd_line e) = pe_username e @ colon # [120] @ colon # ustr (dec (pe_user_id e)) @ colon #
      ustr (dec (pe_group_id e)) @ colon # [] @ colon # pe_home e @ colon # ustr ''/bin/sh''"
    by (simp add: passwd_line_def ustr_def colon_def butlast_append)
  have "colon \<notin> set [120]" "colon \<notin> set []" "colon \<notin> set (ustr ''/bin/sh'')" by (simp_all add: colon_def ustr_def)
  then have "split_at_char colon (butlast (passwd_line e)) =
      [pe_username e, [120], ustr (dec (pe_user_id e)), ustr (dec (pe_group_id e)), [], pe_home e, ustr ''/bin/sh'']"
    unfolding line by (simp only: split_at_char_append split_at_char_no f not_False_eq_True)
  then show ?thesis using assms by (simp add: parse_u32_dec passwd_entry_ok_def)
qed

lemma parse_group_line:
  assumes "group_entry_ok g"
  shows "parse_group_entry (butlast (group_line g)) = Some g"
proof -
  have ms: "\<forall>m \<in> set (ge_members g). colon \<notin> set m \<and> m \<noteq> [] \<and> comma \<notin> set m"
    using assms by (auto simp: group_entry_ok_def field_def)
  have f: "colon \<notin> set (ge_name g)" "colon \<notin> set (ustr (dec n))" for n
    using assms dec_field [of n] by (auto simp: group_entry_ok_def field_def)
  have j: "colon \<notin> set (join_with [comma] ms)" if "\<forall>m \<in> set ms. colon \<notin> set m" for ms
    using that by (induction "[comma]" ms rule: join_with.induct) (auto simp: special_chars)
  have c: "filter (\<lambda>m. m \<noteq> []) (split_at_char comma (join_with [comma] ms)) = ms"
    if "\<forall>m \<in> set ms. m \<noteq> [] \<and> comma \<notin> set m" for ms
    using that by (induction "[comma]" ms rule: join_with.induct) (auto simp: split_at_char_no split_at_char_append)
  have line: "butlast (group_line g) = ge_name g @ colon # [120] @ colon # ustr (dec (ge_id g)) @ colon #
      join_with [comma] (ge_members g)"
    by (simp add: group_line_def ustr_def colon_def butlast_append)
  have "colon \<notin> set [120]" by (simp add: colon_def)
  then have "split_at_char colon (butlast (group_line g)) =
      [ge_name g, [120], ustr (dec (ge_id g)), join_with [comma] (ge_members g)]"
    unfolding line using j ms by (simp add: split_at_char_append split_at_char_no f)
  then show ?thesis using assms c ms by (simp add: parse_u32_dec group_entry_ok_def)
qed

lemma passwd_line_shape:
  assumes "passwd_entry_ok e"
  shows "passwd_line e = butlast (passwd_line e) @ [newline_char]" "newline_char \<notin> set (butlast (passwd_line e))"
    "strip_return (butlast (passwd_line e)) = butlast (passwd_line e)"
proof -
  show "passwd_line e = butlast (passwd_line e) @ [newline_char]" by (simp add: passwd_line_def butlast_append)
  show "newline_char \<notin> set (butlast (passwd_line e))"
    using assms dec_field by (auto simp: passwd_entry_ok_def field_def passwd_line_def butlast_append ustr_def special_chars)
  show "strip_return (butlast (passwd_line e)) = butlast (passwd_line e)"
    by (rule strip_return_no) (simp add: passwd_line_def butlast_append ustr_def special_chars)
qed

lemma join_with_last:
  "\<forall>m \<in> set ms. m \<noteq> [] \<and> x \<notin> set m \<Longrightarrow> x \<noteq> s \<Longrightarrow> x \<notin> set (join_with [s] ms)"
  by (induction "[s]" ms rule: join_with.induct) auto

lemma group_line_shape:
  assumes "group_entry_ok g"
  shows "group_line g = butlast (group_line g) @ [newline_char]" "newline_char \<notin> set (butlast (group_line g))"
    "strip_return (butlast (group_line g)) = butlast (group_line g)"
proof -
  have "x \<notin> set (join_with [comma] (ge_members g))" if "x \<in> {newline_char, return_char}" for x
    using assms that by (intro join_with_last) (auto simp: group_entry_ok_def field_def special_chars)
  then have ms: "newline_char \<notin> set (join_with [comma] (ge_members g))" "return_char \<notin> set (join_with [comma] (ge_members g))"
    by simp_all
  show "group_line g = butlast (group_line g) @ [newline_char]" by (simp add: group_line_def butlast_append)
  show "newline_char \<notin> set (butlast (group_line g))"
    using assms dec_field ms(1)
    by (auto simp: group_entry_ok_def field_def group_line_def butlast_append ustr_def newline_char_def)
  have "last (butlast (group_line g)) \<noteq> return_char"
  proof (cases "join_with [comma] (ge_members g) = []")
    case False
    then have "last (join_with [comma] (ge_members g)) \<in> set (join_with [comma] (ge_members g))" by simp
    with ms(2) have "last (join_with [comma] (ge_members g)) \<noteq> return_char" by metis
    with False show ?thesis by (simp add: group_line_def butlast_append ustr_def)
  qed (simp add: group_line_def butlast_append ustr_def return_char_def)
  then show "strip_return (butlast (group_line g)) = butlast (group_line g)" by (intro strip_return_no) simp
qed

lemma find_user_SomeD: "find_user passwd i = Some e \<Longrightarrow> e \<in> set passwd \<and> is_user i e"
  by (auto simp: find_user_def find_Some_iff)

section \<open>Properties\<close>

text \<open>
  A passwd file is read back as it was written, entry by entry, for names and folders without colons
  and line breaks and ids of 32 bits.
\<close>

theorem passwd_roundtrip:
  assumes "\<forall>e \<in> set es. passwd_entry_ok e"
  shows "parse_passwd (concat (map passwd_line es)) = es"
proof -
  have "text_lines (concat (map passwd_line es)) = map (\<lambda>e. butlast (passwd_line e)) es"
    using assms passwd_line_shape by (intro text_lines_concat) blast
  then show ?thesis using assms parse_passwd_line by (simp add: parse_passwd_def map_filter_all del: parse_passwd_entry.simps)
qed

text \<open>A group file is read back as it was written, with the members of each group in their order.\<close>

theorem etc_group_roundtrip:
  assumes "\<forall>g \<in> set gs. group_entry_ok g"
  shows "parse_etc_group (concat (map group_line gs)) = gs"
proof -
  have "text_lines (concat (map group_line gs)) = map (\<lambda>g. butlast (group_line g)) gs"
    using assms group_line_shape by (intro text_lines_concat) blast
  then show ?thesis using assms parse_group_line by (simp add: parse_etc_group_def map_filter_all del: parse_group_entry.simps)
qed

text \<open>
  C40: what a user string resolves to: the ids and the home are those of an entry of passwd that it names;
  the primary group exists and is the one asked for, or the entry's; the additional groups are none if a
  group was asked for, and else exactly the other groups that list the user as a member.
\<close>

theorem resolve_user_sound:
  assumes "resolve_user u passwd gs = Ok (user, home)"
  shows "\<exists>e \<in> set passwd. is_user (ou_user u) e \<and> oci_uid user = pe_user_id e \<and> home = pe_home e \<and>
    (\<exists>g \<in> set gs. ge_id g = oci_gid user) \<and>
    (case ou_group u of
       Some (GroupId i) \<Rightarrow> oci_gid user = i \<and> oci_additional_gids user = []
     | Some (GroupName name) \<Rightarrow> (\<exists>g \<in> set gs. ge_name g = name \<and> ge_id g = oci_gid user) \<and> oci_additional_gids user = []
     | None \<Rightarrow> oci_gid user = pe_group_id e \<and>
         set (oci_additional_gids user) = {ge_id g | g. g \<in> set gs \<and> pe_username e \<in> set (ge_members g)} - {oci_gid user})"
proof -
  from assms obtain e where e: "find_user passwd (ou_user u) = Some e" and home: "home = pe_home e"
    by (auto simp: resolve_user_def outcome_simps)
  from find_user_SomeD [OF e] have e': "e \<in> set passwd" "is_user (ou_user u) e" by blast+
  show ?thesis
  proof (intro bexI [of _ e] conjI)
    show "oci_uid user = pe_user_id e"
      using assms e by (auto simp: resolve_user_def outcome_simps Let_def split: option.split_asm group_identifier.split_asm if_split_asm)
    show "\<exists>g \<in> set gs. ge_id g = oci_gid user"
      using assms e by (auto simp: resolve_user_def outcome_simps Let_def check_gid_valid_def list_ex_iff find_group_by_name_def
          find_Some_iff split: option.split_asm group_identifier.split_asm if_split_asm)
    show "case ou_group u of
       Some (GroupId i) \<Rightarrow> oci_gid user = i \<and> oci_additional_gids user = []
     | Some (GroupName name) \<Rightarrow> (\<exists>g \<in> set gs. ge_name g = name \<and> ge_id g = oci_gid user) \<and> oci_additional_gids user = []
     | None \<Rightarrow> oci_gid user = pe_group_id e \<and>
         set (oci_additional_gids user) = {ge_id g | g. g \<in> set gs \<and> pe_username e \<in> set (ge_members g)} - {oci_gid user}"
      using assms e by (auto simp: resolve_user_def outcome_simps Let_def check_gid_valid_def list_ex_iff find_group_by_name_def
          find_Some_iff groups_of_user_def split: option.split_asm group_identifier.split_asm if_split_asm)
  qed (use e' home in auto)
qed

text \<open>
  A user string fails to resolve exactly if passwd has no such user, or the group asked for, or else
  the user's own, is not in the group file.
\<close>

theorem resolve_user_error:
  "(\<exists>err. resolve_user u passwd gs = Err err) \<longleftrightarrow>
    (case find_user passwd (ou_user u) of
       None \<Rightarrow> True
     | Some e \<Rightarrow> (case ou_group u of
           Some (GroupId i) \<Rightarrow> \<not> check_gid_valid gs i
         | Some (GroupName name) \<Rightarrow> name \<notin> ge_name ` set gs
         | None \<Rightarrow> \<not> check_gid_valid gs (pe_group_id e)))"
  by (auto simp: resolve_user_def outcome_simps Let_def find_group_by_name_def ok_or_def find_None_iff find_Some_iff
      split: option.split group_identifier.split)

section \<open>Witnesses\<close>

definition example_passwd :: "passwd_entry list" where
  "example_passwd =
    [\<lparr>pe_username = ustr ''root'', pe_user_id = 0, pe_group_id = 0, pe_home = ustr ''/root''\<rparr>,
     \<lparr>pe_username = ustr ''viv'', pe_user_id = 1000, pe_group_id = 4, pe_home = ustr ''/home/viv''\<rparr>]"

definition example_groups :: "group_entry list" where
  "example_groups =
    [\<lparr>ge_name = ustr ''root'', ge_id = 0, ge_members = []\<rparr>,
     \<lparr>ge_name = ustr ''adm'', ge_id = 4, ge_members = [ustr ''viv'']\<rparr>,
     \<lparr>ge_name = ustr ''cool'', ge_id = 34, ge_members = [ustr ''viv'', ustr ''ferris'']\<rparr>]"

theorem passwd_roundtrip_witness: "parse_passwd (concat (map passwd_line example_passwd)) = example_passwd"
  by (rule passwd_roundtrip) (simp add: example_passwd_def passwd_entry_ok_def field_def ustr_def special_chars)

theorem etc_group_roundtrip_witness: "parse_etc_group (concat (map group_line example_groups)) = example_groups"
  by (rule etc_group_roundtrip) (simp add: example_groups_def group_entry_ok_def field_def ustr_def special_chars)

lemma example_resolve:
  "resolve_user (parse_oci_user (ustr ''viv'')) example_passwd example_groups =
    Ok (\<lparr>oci_uid = 1000, oci_gid = 4, oci_additional_gids = [34]\<rparr>, ustr ''/home/viv'')"
  by (simp add: resolve_user_def parse_oci_user_def parse_user_def parse_u32_def find_user_def example_passwd_def
      example_groups_def ustr_def colon_def is_ascii_digit_def check_gid_valid_def groups_of_user_def Let_def)

theorem resolve_user_sound_witness:
  "\<exists>e \<in> set example_passwd. is_user (UserName (ustr ''viv'')) e \<and> pe_user_id e = 1000 \<and>
     {34} = {ge_id g | g. g \<in> set example_groups \<and> pe_username e \<in> set (ge_members g)} - {4}"
proof -
  have u: "parse_oci_user (ustr ''viv'') = \<lparr>ou_user = UserName (ustr ''viv''), ou_group = None\<rparr>"
    by (simp add: parse_oci_user_def parse_user_def parse_u32_def ustr_def colon_def is_ascii_digit_def)
  from resolve_user_sound [OF example_resolve [unfolded u]] show ?thesis by auto
qed

end
