(* ===== verification/Cache_Keys.thy ===== *)
theory Cache_Keys
  imports Streams Data_Model
begin

text \<open>
  Keys of the cache: \<^verbatim>\<open>engine/cache/mod.rs\<close> and the content hashes of \<^verbatim>\<open>engine/data_model.rs\<close> and
  \<^verbatim>\<open>engine/filesystem.rs\<close>. A key is the hash of a stream of bytes; \<open>blake3\<close>, the serialisation of postcard
  and the hash of a file system's contents are parameters. Feeding a hasher in pieces is feeding it the
  pieces' concatenation.
\<close>

datatype cache_scope = ScopeData | ScopeSnapshot | ScopeExecInputs | ScopeWithInputs

text \<open>The discriminants of the enums with \<open>repr(u8)\<close>.\<close>

fun scope_tag :: "cache_scope \<Rightarrow> 8 word" where
  "scope_tag ScopeData = 0"
| "scope_tag ScopeSnapshot = 1"
| "scope_tag ScopeExecInputs = 2"
| "scope_tag ScopeWithInputs = 3"

fun type_tag :: "data_type \<Rightarrow> 8 word" where
  "type_tag TInt = 0"
| "type_tag TString = 1"
| "type_tag TContainer = 2"
| "type_tag TService = 3"
| "type_tag TFileSystem = 4"

record ('e, 'p) content =
  ser_int :: "int \<Rightarrow> bytes"
  ser_string :: "ustr \<Rightarrow> bytes"
  ser_container :: "container_state \<Rightarrow> bytes"
  ser_service :: "service_state \<Rightarrow> bytes"
  fs_digest :: "'p \<Rightarrow> 'e + bytes"

text \<open>An error of a file system is blamed on the node that produced it.\<close>

definition blame :: "'p file_system \<Rightarrow> 'e \<Rightarrow> 'e \<times> span option" where
  "blame fs e = (e, producer fs)"

definition fs_content_hash :: "('e, 'p) content \<Rightarrow> 'p file_system \<Rightarrow> ('e \<times> span option, bytes) outcome" where
  "fs_content_hash E fs = (case fs_digest E (provider fs) of Inl e \<Rightarrow> Err (blame fs e) | Inr h \<Rightarrow> Ok h)"

fun data_body :: "('e, 'p) content \<Rightarrow> 'p data \<Rightarrow> ('e \<times> span option, bytes) outcome" where
  "data_body E (DInt i) = Ok (ser_int E i)"
| "data_body E (DString s) = Ok (ser_string E s)"
| "data_body E (DContainer c) = Ok (ser_container E c)"
| "data_body E (DService s) = Ok (ser_service E s)"
| "data_body E (DFileSystem fs) = fs_content_hash E fs"

definition data_content_hash :: "('e, 'p) content \<Rightarrow> 'p data \<Rightarrow> ('e \<times> span option, bytes) outcome" where
  "data_content_hash E d = and_then (data_body E d) (\<lambda>b. Ok (type_tag (data_type_of d) # b))"

definition key_content_hash :: "('e, 'p) content \<Rightarrow> nat \<Rightarrow> 'p data list \<Rightarrow> ('e \<times> span option, bytes) outcome" where
  "key_content_hash E node ins = and_then (try_map (data_content_hash E) ins) (\<lambda>bs.
     Ok (le_bytes 8 node @ le_bytes 8 (length ins) @ concat bs))"

definition hash_from_data :: "(bytes \<Rightarrow> 'h) \<Rightarrow> cache_scope \<Rightarrow> bytes \<Rightarrow> 'h" where
  "hash_from_data blake3 scope stream = blake3 (scope_tag scope # stream)"

section \<open>Keys tell inputs apart\<close>

text \<open>File systems count as the same content when their digests agree, whoever produced them.\<close>

fun same_content :: "('e, 'p) content \<Rightarrow> 'p data \<Rightarrow> 'p data \<Rightarrow> bool" where
  "same_content E (DFileSystem fs) d \<longleftrightarrow>
     (case d of DFileSystem fs' \<Rightarrow> fs_digest E (provider fs) = fs_digest E (provider fs') | _ \<Rightarrow> False)"
| "same_content E d d' \<longleftrightarrow> d = d'"

text \<open>
  What postcard and the digests promise: of two different values of one type, neither serialisation is a
  prefix of the other.
\<close>

definition self_delimiting :: "('e, 'p) content \<Rightarrow> 'p data set \<Rightarrow> bool" where
  "self_delimiting E ds \<longleftrightarrow> (\<forall>d \<in> ds. \<forall>d' \<in> ds. \<forall>b b'. data_type_of d = data_type_of d' \<longrightarrow>
     data_body E d = Ok b \<longrightarrow> data_body E d' = Ok b' \<longrightarrow> prefix b b' \<longrightarrow> same_content E d d')"

lemma same_content_body: "same_content E d d' \<Longrightarrow> data_body E d = Ok b \<Longrightarrow> data_body E d' = Ok b' \<Longrightarrow> b = b'"
  by (cases d; cases d') (auto simp: fs_content_hash_def split: sum.split_asm)

lemma same_content_sym: "same_content E d d' \<Longrightarrow> same_content E d' d"
  by (cases d; cases d') auto

lemma type_tag_inj: "type_tag t = type_tag t' \<longleftrightarrow> t = t'"
  by (cases t; cases t') auto

lemma data_content_hash_split:
  assumes "self_delimiting E ds" "d \<in> ds" "d' \<in> ds" "data_content_hash E d = Ok b" "data_content_hash E d' = Ok b'"
    and "b @ r = b' @ r'"
  shows "same_content E d d' \<and> r = r'"
proof -
  obtain c c' where c: "data_body E d = Ok c" "data_body E d' = Ok c'" "b = type_tag (data_type_of d) # c"
    "b' = type_tag (data_type_of d') # c'"
    using assms(4,5) by (auto simp: data_content_hash_def outcome_simps)
  then have t: "data_type_of d = data_type_of d'" and eq: "c @ r = c' @ r'"
    using assms(6) type_tag_inj by simp_all
  have "prefix c (c @ r)" by simp
  moreover have "prefix c' (c @ r)" unfolding eq by simp
  ultimately have "prefix c c' \<or> prefix c' c" by (rule prefix_same_cases)
  then have same: "same_content E d d'"
  proof
    assume "prefix c c'"
    with assms(1-3) t c(1,2) show ?thesis unfolding self_delimiting_def by blast
  next
    assume "prefix c' c"
    with assms(1-3) t [symmetric] c(1,2) have "same_content E d' d" unfolding self_delimiting_def by blast
    then show ?thesis by (rule same_content_sym)
  qed
  with same_content_body [OF this c(1,2)] eq show ?thesis by simp
qed

lemma inputs_split:
  assumes "self_delimiting E ds"
  shows "set ins \<subseteq> ds \<Longrightarrow> set ins' \<subseteq> ds \<Longrightarrow> length ins = length ins' \<Longrightarrow>
    list_all2 (\<lambda>d b. data_content_hash E d = Ok b) ins bs \<Longrightarrow>
    list_all2 (\<lambda>d b. data_content_hash E d = Ok b) ins' bs' \<Longrightarrow> concat bs = concat bs' \<Longrightarrow>
    list_all2 (same_content E) ins ins'"
proof (induction ins arbitrary: ins' bs bs')
  case (Cons d ins)
  then obtain d' ins'' where ins: "ins' = d' # ins''" by (cases ins') auto
  with Cons.prems obtain b bs1 b' bs1' where eqs: "ins' = d' # ins''" "bs = b # bs1" "bs' = b' # bs1'"
    by (auto simp: list_all2_Cons1)
  have "same_content E d d' \<and> concat bs1 = concat bs1'"
    using Cons.prems unfolding eqs by (intro data_content_hash_split [OF assms]) auto
  moreover from this have "list_all2 (same_content E) ins ins''"
    using Cons.prems unfolding eqs by (intro Cons.IH [of ins'' bs1 bs1']) auto
  ultimately show ?case by (simp add: eqs)
qed simp

lemma le_bytes_inj:
  assumes "n < 2 ^ 64" "m < 2 ^ 64" "le_bytes 8 n = le_bytes 8 m"
  shows "n = m"
proof -
  have *: "le_value (le_bytes 8 k) = k" if "k < 2 ^ 64" for k
    using that by (simp add: le_value_le_bytes)
  show ?thesis using * [OF assms(1)] * [OF assms(2)] assms(3) by metis
qed

section \<open>Properties\<close>

text \<open>
  C39: equal keys of the cache have the same scope, the same kind of node and inputs of the same contents,
  unless the hash collides on their bytes: no two keys are confused before hashing, given encodings of
  which none is a prefix of another of its type.
\<close>

theorem cache_key_injective:
  assumes "key_content_hash E node ins = Ok stream" "key_content_hash E node' ins' = Ok stream'"
    and "hash_from_data blake3 scope stream = hash_from_data blake3 scope' stream'"
    and "inj_on blake3 {scope_tag scope # stream, scope_tag scope' # stream'}"
    and "self_delimiting E (set ins \<union> set ins')"
    and "node < 2 ^ 64" "node' < 2 ^ 64" "length ins < 2 ^ 64" "length ins' < 2 ^ 64"
  shows "scope = scope' \<and> node = node' \<and> list_all2 (same_content E) ins ins'"
proof -
  have tags: "scope_tag scope # stream = scope_tag scope' # stream'"
    using assms(3) by (intro inj_onD [OF assms(4)]) (simp_all add: hash_from_data_def)
  obtain bs bs' where bs: "list_all2 (\<lambda>d b. data_content_hash E d = Ok b) ins bs"
      "list_all2 (\<lambda>d b. data_content_hash E d = Ok b) ins' bs'"
    and streams: "stream = le_bytes 8 node @ le_bytes 8 (length ins) @ concat bs"
      "stream' = le_bytes 8 node' @ le_bytes 8 (length ins') @ concat bs'"
    using assms(1,2) by (auto simp: key_content_hash_def outcome_simps)
  have eqs: "le_bytes 8 node = le_bytes 8 node'" "le_bytes 8 (length ins) = le_bytes 8 (length ins')" "concat bs = concat bs'"
    using tags by (auto simp: streams)
  have "length ins = length ins'" "node = node'" using eqs le_bytes_inj assms(6-9) by blast+
  moreover have "scope = scope'" using tags by (cases scope; cases scope') auto
  ultimately show ?thesis using inputs_split [OF assms(5) _ _ _ bs eqs(3)] by simp
qed

definition example_content :: "(unit, unit) content" where
  "example_content = \<lparr>ser_int = \<lambda>i. le_bytes 16 (nat i), ser_string = \<lambda>s. le_bytes 8 (length s) @ map word_of_nat s,
     ser_container = \<lambda>c. [], ser_service = \<lambda>s. [], fs_digest = \<lambda>_. Inr [0]\<rparr>"

theorem cache_key_injective_witness:
  "list_all2 (same_content example_content) [DInt 1, DString (ustr ''ab''), DFileSystem \<lparr>provider = (), producer = None\<rparr>]
     [DInt 1, DString (ustr ''ab''), DFileSystem \<lparr>provider = (), producer = Some span_dummy\<rparr>]"
proof -
  let ?ins = "[DInt 1, DString (ustr ''ab''), DFileSystem \<lparr>provider = (), producer = None\<rparr>]"
  let ?ins' = "[DInt 1, DString (ustr ''ab''), DFileSystem \<lparr>provider = (), producer = Some span_dummy\<rparr>]"
  obtain s where s: "key_content_hash example_content 3 ?ins = Ok s" "key_content_hash example_content 3 ?ins' = Ok s"
    by (simp add: key_content_hash_def data_content_hash_def example_content_def fs_content_hash_def)
  have "self_delimiting example_content (set ?ins \<union> set ?ins')"
    by (simp add: self_delimiting_def)
  from cache_key_injective [OF s refl _ this, of "\<lambda>x. x" ScopeData] show ?thesis by simp
qed

end
