(* ===== verification/Scheduler.thy ===== *)
theory Scheduler
  imports Cache_Keys Compiler_Props
begin

text \<open>
  \<^verbatim>\<open>serpentine/src/engine/scheduler.rs\<close> and \<open>execute_raw\<close> and \<open>resolve_inputs\<close> of \<^verbatim>\<open>engine/nodes.rs\<close>: the
  concurrent execution of a graph.

  The cells of \<open>data\<close> are the code's \<open>OnceCell\<close>s. A cell that is being initialised is \<open>Running\<close>, with its
  initialiser (the task whose \<open>get_output\<close> call came first, \<open>None\<close> for the engine's own call) and the place the
  spawned task has reached. A task moves on only while its initialiser still waits for it: otherwise its handle
  was dropped, the task is aborted and the cell is vacant again, and the next task that waits for it
  starts over. Every step is what one task does between two waits, so that every interleaving of
  tasks is a sequence of steps.

  The client and its world, the serialisation, the hash and the health checks are the record \<open>runtime\<close>. The
  cache is a map from keys to entries as in theory \<open>Cache_Backends\<close>.
\<close>

record ('w, 'e, 'p, 'h) runtime =
  rt_client :: "('w, 'e, 'p) client"
  rt_content :: "('e, 'p) content"
  rt_blake3 :: "bytes \<Rightarrow> 'h"
  rt_encode :: "cacheable_data \<Rightarrow> bytes option"
  rt_decode :: "bytes \<Rightarrow> cacheable_data option"
  check_container :: "container_state \<Rightarrow> 'w \<Rightarrow> bool \<times> 'w"
  check_service :: "service_state \<Rightarrow> 'w \<Rightarrow> bool \<times> 'w"
  export_container :: "container_state \<Rightarrow> 'w \<Rightarrow> 'w"
  export_service :: "service_state \<Rightarrow> 'w \<Rightarrow> 'w"
  standalone_cache :: bool

fun healthcheck :: "('w, 'e, 'p, 'h) runtime \<Rightarrow> cacheable_data \<Rightarrow> 'w \<Rightarrow> bool \<times> 'w" where
  "healthcheck R (CContainer c) w = check_container R c w"
| "healthcheck R (CService s) w = check_service R s w"
| "healthcheck R v w = (True, w)"

fun export_external_data :: "('w, 'e, 'p, 'h) runtime \<Rightarrow> cacheable_data \<Rightarrow> 'w \<Rightarrow> 'w" where
  "export_external_data R (CContainer c) w = export_container R c w"
| "export_external_data R (CService s) w = export_service R s w"
| "export_external_data R v w = w"

section \<open>State\<close>

datatype 'e run_error = Failed "'e report" | HashFailed "'e \<times> span option"

datatype 'e scheduler_error =
    NodeError span "span list" "'e run_error"
  | AllErrors "'e scheduler_error list"
  | TaskPanicked
  | OutOfBounds

datatype ('p, 'h) phase =
    Phantoms
  | Inputs
  | Looking "'p data list"
  | Executing "'p data list" "'h option"

type_synonym ('e, 'p) node_result = "'e scheduler_error + 'p data"

datatype ('e, 'p, 'h) cell =
    Vacant
  | Running "nat option" "('p, 'h) phase"
  | Finished "('e, 'p) node_result"

record ('w, 'e, 'p, 'h) scheduler =
  sc_data :: "('e, 'p, 'h) cell list"
  sc_world :: 'w
  sc_cache :: "'h \<Rightarrow> bytes option"

definition scheduler_new :: "'p compile_outcome \<Rightarrow> 'w \<Rightarrow> ('h \<Rightarrow> bytes option) \<Rightarrow> ('w, 'e, 'p, 'h) scheduler" where
  "scheduler_new P w cache = \<lparr>sc_data = replicate (store_len (cr_graph P)) Vacant, sc_world = w, sc_cache = cache\<rparr>"

definition node_at :: "'p compile_outcome \<Rightarrow> nat \<Rightarrow> node" where
  "node_at P i = fst (cr_graph P ! i)"

definition metadata_at :: "'p compile_outcome \<Rightarrow> nat \<Rightarrow> node_metadata" where
  "metadata_at P i = snd (cr_graph P ! i)"

definition impl_at :: "'p compile_outcome \<Rightarrow> nat \<Rightarrow> 'p node_impl" where
  "impl_at P i = cr_nodes P ! kind (node_at P i)"

definition node_error :: "'p compile_outcome \<Rightarrow> nat \<Rightarrow> 'e run_error \<Rightarrow> 'e scheduler_error" where
  "node_error P i e = NodeError (node_metadata.location (metadata_at P i)) (stack_trace (metadata_at P i)) e"

text \<open>What a \<open>get_output\<close> call that has nothing to start returns, \<open>None\<close> while it waits.\<close>

definition get_output :: "('e, 'p, 'h) cell list \<Rightarrow> nat \<Rightarrow> ('e, 'p) node_result option" where
  "get_output cs j = (if j < length cs then (case cs ! j of Finished r \<Rightarrow> Some r | _ \<Rightarrow> None) else Some (Inl OutOfBounds))"

text \<open>The nodes whose output a task has asked for and is waiting for.\<close>

definition waits_for :: "'p compile_outcome \<Rightarrow> ('e, 'p, 'h) cell list \<Rightarrow> nat \<Rightarrow> nat list" where
  "waits_for P cs k = (case cs ! k of
       Running _ Phantoms \<Rightarrow> phantom_inputs (node_at P k)
     | Running _ Inputs \<Rightarrow> inputs (node_at P k)
     | _ \<Rightarrow> [])"

text \<open>The handle of the task was dropped: its initialiser does not wait for it any more.\<close>

definition orphan :: "'p compile_outcome \<Rightarrow> ('e, 'p, 'h) cell list \<Rightarrow> nat \<Rightarrow> bool" where
  "orphan P cs j \<longleftrightarrow> (case cs ! j of Running (Some k) _ \<Rightarrow> j \<notin> set (waits_for P cs k) | _ \<Rightarrow> False)"

section \<open>What a task does\<close>

text \<open>The fold over the results in \<open>All\<close>.\<close>

fun all_results :: "('e, 'p) node_result list \<Rightarrow> 'e scheduler_error list + 'p data list \<Rightarrow>
    'e scheduler_error list + 'p data list" where
  "all_results [] acc = acc"
| "all_results (Inr d # rs) (Inr ds) = all_results rs (Inr (ds @ [d]))"
| "all_results (Inl e # rs) (Inr ds) = all_results rs (Inl [e])"
| "all_results (Inl e # rs) (Inl es) = all_results rs (Inl (es @ [e]))"
| "all_results (Inr d # rs) (Inl es) = all_results rs (Inl es)"

definition data_key :: "('w, 'e, 'p, 'h) runtime \<Rightarrow> nat \<Rightarrow> 'p data list \<Rightarrow> ('e \<times> span option, 'h) outcome" where
  "data_key R node ins = and_then (key_content_hash (rt_content R) node ins) (\<lambda>stream.
     Ok (hash_from_data (rt_blake3 R) ScopeData stream))"

text \<open>The entry of the cache, \<open>None\<close> where it cannot be used.\<close>

definition read_cached :: "('w, 'e, 'p, 'h) runtime \<Rightarrow> bytes \<Rightarrow> 'w \<Rightarrow> 'p data option io \<times> 'w" where
  "read_cached R entry w = (case read_frame (rt_decode R) entry of
       Ok (v, _) \<Rightarrow> (let (healthy, w) = healthcheck R v w in (Ok (if healthy then Some (from_cacheable v) else None), w))
     | Err _ \<Rightarrow> (Ok None, w)
     | Panic \<Rightarrow> (Panic, w)
     | NoFuel \<Rightarrow> (NoFuel, w))"

text \<open>
  What happens to a result that was just computed, with \<open>key\<close> the key of the node if it is cached:
  \<open>written\<close> tells whether the backend took the entry.
\<close>

definition store_result :: "('w, 'e, 'p, 'h) runtime \<Rightarrow> bool \<Rightarrow> 'h option \<Rightarrow> 'p data \<Rightarrow> 'w \<Rightarrow> ('h \<Rightarrow> bytes option) \<Rightarrow>
    'w \<times> ('h \<Rightarrow> bytes option)" where
  "store_result R written key d w cache = (case (key, cacheable d) of
       (Some k, Some v) \<Rightarrow>
         (if standalone_cache R then export_external_data R v w else w,
          case write_frame (rt_encode R) v of
            Ok entry \<Rightarrow> if written then cache(k \<mapsto> entry) else cache
          | _ \<Rightarrow> cache)
     | _ \<Rightarrow> (w, cache))"

text \<open>
  One move of the task of node \<open>i\<close>: from a place, and the world and the cache, to the next place (\<open>Inl\<close>) or to
  the task's result (\<open>Inr\<close>). A failed input is seen by \<open>try_join_all\<close> as soon as it has failed, whatever the
  others do; \<open>All\<close> waits for every input.
\<close>

inductive task_step :: "('w, 'e, 'p, 'h) runtime \<Rightarrow> 'p compile_outcome \<Rightarrow> ('e, 'p, 'h) cell list \<Rightarrow> nat \<Rightarrow>
    ('p, 'h) phase \<Rightarrow> 'w \<Rightarrow> ('h \<Rightarrow> bytes option) \<Rightarrow>
    ('p, 'h) phase + ('e, 'p) node_result \<Rightarrow> 'w \<Rightarrow> ('h \<Rightarrow> bytes option) \<Rightarrow> bool"
  for R P cs i where
  phantoms_done: "\<forall>j \<in> set (phantom_inputs (node_at P i)). \<exists>d. get_output cs j = Some (Inr d) \<Longrightarrow>
    kind (node_at P i) < length (cr_nodes P) \<Longrightarrow> task_step R P cs i Phantoms w c (Inl Inputs) w c"
| no_implementation: "\<forall>j \<in> set (phantom_inputs (node_at P i)). \<exists>d. get_output cs j = Some (Inr d) \<Longrightarrow>
    length (cr_nodes P) \<le> kind (node_at P i) \<Longrightarrow> task_step R P cs i Phantoms w c (Inr (Inl TaskPanicked)) w c"
| phantom_failed: "j \<in> set (phantom_inputs (node_at P i)) \<Longrightarrow> get_output cs j = Some (Inl e) \<Longrightarrow>
    task_step R P cs i Phantoms w c (Inr (Inl e)) w c"
| inputs_done: "impl_at P i \<noteq> All \<Longrightarrow> list_all2 (\<lambda>j d. get_output cs j = Some (Inr d)) (inputs (node_at P i)) ins \<Longrightarrow>
    task_step R P cs i Inputs w c (Inl (Looking ins)) w c"
| input_failed: "impl_at P i \<noteq> All \<Longrightarrow> j \<in> set (inputs (node_at P i)) \<Longrightarrow> get_output cs j = Some (Inl e) \<Longrightarrow>
    task_step R P cs i Inputs w c (Inr (Inl e)) w c"
| all_done: "impl_at P i = All \<Longrightarrow> list_all2 (\<lambda>j r. get_output cs j = Some r) (inputs (node_at P i)) rs \<Longrightarrow>
    all_results rs (Inr []) = Inr ins \<Longrightarrow> task_step R P cs i Inputs w c (Inl (Looking ins)) w c"
| all_failed: "impl_at P i = All \<Longrightarrow> list_all2 (\<lambda>j r. get_output cs j = Some r) (inputs (node_at P i)) rs \<Longrightarrow>
    all_results rs (Inr []) = Inl es \<Longrightarrow> task_step R P cs i Inputs w c (Inr (Inl (AllErrors es))) w c"
| uncached: "\<not> should_be_cached (impl_at P i) \<Longrightarrow>
    task_step R P cs i (Looking ins) w c (Inl (Executing ins None)) w c"
| key_failed: "should_be_cached (impl_at P i) \<Longrightarrow> data_key R (kind (node_at P i)) ins = Err e \<Longrightarrow>
    task_step R P cs i (Looking ins) w c (Inr (Inl (node_error P i (HashFailed e)))) w c"
| no_entry: "should_be_cached (impl_at P i) \<Longrightarrow> data_key R (kind (node_at P i)) ins = Ok k \<Longrightarrow>
    task_step R P cs i (Looking ins) w c (Inl (Executing ins (Some k))) w c"
| entry_used: "should_be_cached (impl_at P i) \<Longrightarrow> data_key R (kind (node_at P i)) ins = Ok k \<Longrightarrow> c k = Some entry \<Longrightarrow>
    read_cached R entry w = (Ok (Some d), w') \<Longrightarrow> task_step R P cs i (Looking ins) w c (Inr (Inr d)) w' c"
| entry_refused: "should_be_cached (impl_at P i) \<Longrightarrow> data_key R (kind (node_at P i)) ins = Ok k \<Longrightarrow> c k = Some entry \<Longrightarrow>
    read_cached R entry w = (Ok None, w') \<Longrightarrow> task_step R P cs i (Looking ins) w c (Inl (Executing ins (Some k))) w' c"
| entry_panics: "should_be_cached (impl_at P i) \<Longrightarrow> data_key R (kind (node_at P i)) ins = Ok k \<Longrightarrow> c k = Some entry \<Longrightarrow>
    read_cached R entry w = (Panic, w') \<Longrightarrow> task_step R P cs i (Looking ins) w c (Inr (Inl TaskPanicked)) w' c"
| ran: "execute (rt_client R) (impl_at P i) ins w = (Ok d, w') \<Longrightarrow> store_result R written key d w' c = (w'', c') \<Longrightarrow>
    task_step R P cs i (Executing ins key) w c (Inr (Inr d)) w'' c'"
| failed: "execute (rt_client R) (impl_at P i) ins w = (Err e, w') \<Longrightarrow>
    task_step R P cs i (Executing ins key) w c (Inr (Inl (node_error P i (Failed e)))) w' c"
| panicked: "execute (rt_client R) (impl_at P i) ins w = (Panic, w') \<Longrightarrow>
    task_step R P cs i (Executing ins key) w c (Inr (Inl TaskPanicked)) w' c"

section \<open>Steps of the scheduler\<close>

text \<open>A value is marked with its producer before it is put into the cell.\<close>

fun conclude :: "'p compile_outcome \<Rightarrow> nat \<Rightarrow> nat option \<Rightarrow> ('p, 'h) phase + ('e, 'p) node_result \<Rightarrow> ('e, 'p, 'h) cell" where
  "conclude P i initialiser (Inl ph) = Running initialiser ph"
| "conclude P i initialiser (Inr (Inr d)) = Finished (Inr (set_producer (node_metadata.location (metadata_at P i)) d))"
| "conclude P i initialiser (Inr (Inl e)) = Finished (Inl e)"

definition set_cell :: "nat \<Rightarrow> ('e, 'p, 'h) cell \<Rightarrow> ('w, 'e, 'p, 'h) scheduler \<Rightarrow> ('w, 'e, 'p, 'h) scheduler" where
  "set_cell j x s = s\<lparr>sc_data := (sc_data s)[j := x]\<rparr>"

inductive scheduler_step :: "('w, 'e, 'p, 'h) runtime \<Rightarrow> 'p compile_outcome \<Rightarrow>
    ('w, 'e, 'p, 'h) scheduler \<Rightarrow> ('w, 'e, 'p, 'h) scheduler \<Rightarrow> bool" for R P where
  start: "start_node P < length (sc_data s) \<Longrightarrow> sc_data s ! start_node P = Vacant \<Longrightarrow>
    scheduler_step R P s (set_cell (start_node P) (Running None Phantoms) s)"
| spawn: "k < length (sc_data s) \<Longrightarrow> \<not> orphan P (sc_data s) k \<Longrightarrow> j \<in> set (waits_for P (sc_data s) k) \<Longrightarrow>
    j < length (sc_data s) \<Longrightarrow> sc_data s ! j = Vacant \<Longrightarrow>
    scheduler_step R P s (set_cell j (Running (Some k) Phantoms) s)"
| abort: "j < length (sc_data s) \<Longrightarrow> orphan P (sc_data s) j \<Longrightarrow> scheduler_step R P s (set_cell j Vacant s)"
| move: "i < length (sc_data s) \<Longrightarrow> \<not> orphan P (sc_data s) i \<Longrightarrow> sc_data s ! i = Running initialiser ph \<Longrightarrow>
    task_step R P (sc_data s) i ph (sc_world s) (sc_cache s) result w c \<Longrightarrow>
    scheduler_step R P s ((set_cell i (conclude P i initialiser result) s)\<lparr>sc_world := w, sc_cache := c\<rparr>)"

inductive_cases scheduler_stepE: "scheduler_step R P s s'"
inductive_cases task_stepE: "task_step R P cs i ph w c r w' c'"

section \<open>What the nodes compute\<close>

text \<open>
  The reference: the values that a node can have when its phantom inputs have one and it is run on values of
  its inputs, in some state of the world.
\<close>

definition may_return :: "('w, 'e, 'p, 'h) runtime \<Rightarrow> 'p node_impl \<Rightarrow> 'p data list \<Rightarrow> 'p data \<Rightarrow> bool" where
  "may_return R impl ins d \<longleftrightarrow> (\<exists>w w'. execute (rt_client R) impl ins w = (Ok d, w'))"

inductive computes :: "('w, 'e, 'p, 'h) runtime \<Rightarrow> 'p compile_outcome \<Rightarrow> nat \<Rightarrow> 'p data \<Rightarrow> bool" for R P where
  computesI: "i < length (cr_graph P) \<Longrightarrow>
    (\<forall>j \<in> set (phantom_inputs (node_at P i)). \<exists>d. computes R P j d) \<Longrightarrow>
    list_all2 (computes R P) (inputs (node_at P i)) ins \<Longrightarrow> may_return R (impl_at P i) ins d \<Longrightarrow>
    computes R P i (set_producer (node_metadata.location (metadata_at P i)) d)"

text \<open>
  The two things that the cache relies on: an entry is a value that the nodes with its key may return on
  inputs they can get, and nodes with equal keys may return the same values.
\<close>

definition node_key :: "('w, 'e, 'p, 'h) runtime \<Rightarrow> 'p compile_outcome \<Rightarrow> nat \<Rightarrow> 'p data list \<Rightarrow> 'h \<Rightarrow> bool" where
  "node_key R P i ins k \<longleftrightarrow> i < length (cr_graph P) \<and> should_be_cached (impl_at P i) \<and>
     list_all2 (computes R P) (inputs (node_at P i)) ins \<and> data_key R (kind (node_at P i)) ins = Ok k"

definition entry_valid :: "('w, 'e, 'p, 'h) runtime \<Rightarrow> 'p compile_outcome \<Rightarrow> 'h \<Rightarrow> bytes \<Rightarrow> bool" where
  "entry_valid R P k entry \<longleftrightarrow> read_frame (rt_decode R) entry \<noteq> Panic \<and>
     (\<forall>i ins v rest. node_key R P i ins k \<longrightarrow> read_frame (rt_decode R) entry = Ok (v, rest) \<longrightarrow>
        may_return R (impl_at P i) ins (from_cacheable v))"

definition cache_valid :: "('w, 'e, 'p, 'h) runtime \<Rightarrow> 'p compile_outcome \<Rightarrow> ('h \<Rightarrow> bytes option) \<Rightarrow> bool" where
  "cache_valid R P c \<longleftrightarrow> (\<forall>k entry. c k = Some entry \<longrightarrow> entry_valid R P k entry)"

definition keys_separate :: "('w, 'e, 'p, 'h) runtime \<Rightarrow> 'p compile_outcome \<Rightarrow> bool" where
  "keys_separate R P \<longleftrightarrow> (\<forall>i ins j ins' k d. node_key R P i ins k \<longrightarrow> node_key R P j ins' k \<longrightarrow>
     may_return R (impl_at P i) ins d \<longrightarrow> may_return R (impl_at P j) ins' d)"

text \<open>
  Runs of the scheduler. Besides its own steps the world may change at any time, and so may the cache, whose
  directory other instances use: their entries are valid too.
\<close>

inductive runs :: "('w, 'e, 'p, 'h) runtime \<Rightarrow> 'p compile_outcome \<Rightarrow>
    ('w, 'e, 'p, 'h) scheduler \<Rightarrow> ('w, 'e, 'p, 'h) scheduler \<Rightarrow> bool" for R P where
  runs_refl: "runs R P s s"
| runs_step: "runs R P s s' \<Longrightarrow> scheduler_step R P s' s'' \<Longrightarrow> runs R P s s''"
| runs_other: "runs R P s s' \<Longrightarrow> cache_valid R P c \<Longrightarrow> runs R P s (s'\<lparr>sc_world := w, sc_cache := c\<rparr>)"

end
