(* ===== verification/Scheduler_Props.thy ===== *)
theory Scheduler_Props
  imports Scheduler
begin

text \<open>
  The scheduler computes what the graph means: in every interleaving a value in a cell is one the reference
  semantics \<open>computes\<close> gives (and so has the announced type), an error in a cell blames a node of the graph
  and is no internal error, a filled cell keeps its contents, and every run ends with the start node's cell
  filled.
\<close>

section \<open>Graphs\<close>

lemma runnable_node:
  assumes "runnable T P" "i < length (cr_graph P)"
  shows "kind (node_at P i) < length (cr_nodes P)" "length T = length (cr_graph P)"
    and "\<forall>j \<in> set (inputs (node_at P i)) \<union> set (phantom_inputs (node_at P i)). j < i"
    and "return_type (impl_at P i) (map ((!) T) (inputs (node_at P i))) = Ok (T ! i)" "well_signed (impl_at P i)"
proof -
  have typed: "node_typed (cr_nodes P) (take i T) (node_at P i) (T ! i)" and len: "length T = length (cr_graph P)"
    using assms by (auto simp: runnable_def graph_typed_def node_at_def)
  from typed have "node_typed (cr_nodes P) T (node_at P i) (T ! i)" by (rule node_typed_take)
  then show "kind (node_at P i) < length (cr_nodes P)"
    and "return_type (impl_at P i) (map ((!) T) (inputs (node_at P i))) = Ok (T ! i)"
    by (simp_all add: node_typed_def impl_at_def)
  then show "well_signed (impl_at P i)" using assms(1) by (auto simp: runnable_def impl_at_def)
  show "length T = length (cr_graph P)" by (rule len)
  show "\<forall>j \<in> set (inputs (node_at P i)) \<union> set (phantom_inputs (node_at P i)). j < i"
    using typed assms(2) len by (auto simp: node_typed_def)
qed

lemma runnable_inputs:
  assumes "runnable T P" "i < length (cr_graph P)" "j \<in> set (inputs (node_at P i)) \<union> set (phantom_inputs (node_at P i))"
  shows "j < length (cr_graph P)"
  using bspec [OF runnable_node(3) [OF assms(1,2)] assms(3)] assms(2) by (rule less_trans)

lemma computes_typed:
  assumes "computes R P i d" and "runnable T P"
  shows "i < length (cr_graph P) \<and> data_type_of d = T ! i"
  using assms(1)
proof (induction rule: computes.induct)
  case (computesI i ins d)
  have types: "map data_type_of ins = map ((!) T) (inputs (node_at P i))"
    using computesI.IH(2) by (auto simp: list_all2_conv_all_nth intro: nth_equalityI)
  obtain w w' where ex: "execute (rt_client R) (impl_at P i) ins w = (Ok d, w')"
    using computesI.hyps by (auto simp: may_return_def)
  note n = runnable_node [OF assms(2) computesI.hyps(1)]
  have "ran_well (\<lambda>d. data_type_of d = T ! i) (fst (execute (rt_client R) (impl_at P i) ins w))"
    using n(4,5) by (intro execute_sound) (simp_all add: types)
  with ex computesI.hyps(1) show ?case by simp
qed

text \<open>
  The reference for errors, beside \<open>computes\<close> for values: the errors that a node can have. One is passed on from a phantom
  input or an input, \<open>All\<close> gathers those of its inputs in their order, and otherwise the error blames the node itself, and
  is what its own execution, or the hashing for its key, failed with.
\<close>

inductive fails :: "('w, 'e, 'p, 'h) runtime \<Rightarrow> 'p compile_outcome \<Rightarrow> nat \<Rightarrow> 'e scheduler_error \<Rightarrow> bool" for R P where
  fails_phantom: "j \<in> set (phantom_inputs (node_at P i)) \<Longrightarrow> fails R P j e \<Longrightarrow> fails R P i e"
| fails_input: "(\<forall>j \<in> set (phantom_inputs (node_at P i)). \<exists>d. computes R P j d) \<Longrightarrow> impl_at P i \<noteq> All \<Longrightarrow>
    j \<in> set (inputs (node_at P i)) \<Longrightarrow> fails R P j e \<Longrightarrow> fails R P i e"
| fails_all: "(\<forall>j \<in> set (phantom_inputs (node_at P i)). \<exists>d. computes R P j d) \<Longrightarrow> impl_at P i = All \<Longrightarrow>
    list_all2 (\<lambda>j r. (\<forall>d. r = Inr d \<longrightarrow> computes R P j d) \<and> (\<forall>e. r = Inl e \<longrightarrow> fails R P j e)) (inputs (node_at P i)) rs \<Longrightarrow>
    es = [e. Inl e \<leftarrow> rs] \<Longrightarrow> es \<noteq> [] \<Longrightarrow> fails R P i (AllErrors es)"
| fails_key: "(\<forall>j \<in> set (phantom_inputs (node_at P i)). \<exists>d. computes R P j d) \<Longrightarrow>
    list_all2 (computes R P) (inputs (node_at P i)) ins \<Longrightarrow> should_be_cached (impl_at P i) \<Longrightarrow>
    data_key R (kind (node_at P i)) ins = Err e \<Longrightarrow> fails R P i (node_error P i (HashFailed e))"
| fails_run: "(\<forall>j \<in> set (phantom_inputs (node_at P i)). \<exists>d. computes R P j d) \<Longrightarrow>
    list_all2 (computes R P) (inputs (node_at P i)) ins \<Longrightarrow> execute (rt_client R) (impl_at P i) ins w = (Err e, w') \<Longrightarrow>
    fails R P i (node_error P i (Failed e))"

text \<open>No internal error of the engine, no panic and no id out of bounds lies below an error.\<close>

fun not_internal :: "'e scheduler_error \<Rightarrow> bool" where
  "not_internal (NodeError sp st (Failed (Internal msg))) \<longleftrightarrow> False"
| "not_internal (NodeError sp st e) \<longleftrightarrow> True"
| "not_internal (AllErrors es) \<longleftrightarrow> es \<noteq> [] \<and> list_all not_internal es"
| "not_internal TaskPanicked \<longleftrightarrow> False"
| "not_internal OutOfBounds \<longleftrightarrow> False"

lemma not_internal_node:
  assumes "\<And>msg. e \<noteq> Failed (Internal msg)"
  shows "not_internal (node_error P i e)"
proof (cases e)
  case (Failed r)
  then show ?thesis using assms by (cases r) (auto simp: node_error_def)
qed (simp add: node_error_def)

lemma all_results_Inl: "all_results rs (Inl es) = Inl (es @ [e. Inl e \<leftarrow> rs])"
proof (induction rs arbitrary: es)
  case (Cons r rs)
  then show ?case by (cases r) simp_all
qed simp

lemma all_results_Inr:
  "all_results rs (Inr ds) = (if \<exists>e. Inl e \<in> set rs then Inl [e. Inl e \<leftarrow> rs] else Inr (ds @ [d. Inr d \<leftarrow> rs]))"
proof (induction rs arbitrary: ds)
  case (Cons r rs)
  then show ?case by (cases r) (auto simp: all_results_Inl)
qed simp

lemma all_results_values: "all_results rs (Inr []) = Inr ins \<Longrightarrow> rs = map Inr ins"
  unfolding all_results_Inr
proof (induction rs arbitrary: ins)
  case (Cons r rs)
  then show ?case by (cases r) (auto split: if_split_asm)
qed (auto split: if_split_asm)

lemma all_results_errors:
  assumes "all_results rs (Inr []) = Inl es"
  shows "es = [e. Inl e \<leftarrow> rs] \<and> set es = {e. Inl e \<in> set rs} \<and> es \<noteq> []"
proof -
  have es: "es = [e. Inl e \<leftarrow> rs]" and e: "\<exists>e. Inl e \<in> set rs"
    using assms by (auto simp: all_results_Inr split: if_split_asm)
  have "set [e. Inl e \<leftarrow> rs] = {e. Inl e \<in> set rs}" by (induction rs) (auto split: sum.split)
  then have "set es = {e. Inl e \<in> set rs}" unfolding es .
  moreover from this e have "es \<noteq> []" by fastforce
  ultimately show ?thesis using es by blast
qed

section \<open>The invariant\<close>

definition phantoms_ok :: "('w, 'e, 'p, 'h) runtime \<Rightarrow> 'p compile_outcome \<Rightarrow> nat \<Rightarrow> bool" where
  "phantoms_ok R P i \<longleftrightarrow> (\<forall>j \<in> set (phantom_inputs (node_at P i)). \<exists>d. computes R P j d)"

fun phase_ok :: "('w, 'e, 'p, 'h) runtime \<Rightarrow> 'p compile_outcome \<Rightarrow> nat \<Rightarrow> ('p, 'h) phase \<Rightarrow> bool" where
  "phase_ok R P i Phantoms \<longleftrightarrow> True"
| "phase_ok R P i Inputs \<longleftrightarrow> phantoms_ok R P i"
| "phase_ok R P i (Looking ins) \<longleftrightarrow> phantoms_ok R P i \<and> list_all2 (computes R P) (inputs (node_at P i)) ins"
| "phase_ok R P i (Executing ins key) \<longleftrightarrow> phantoms_ok R P i \<and> list_all2 (computes R P) (inputs (node_at P i)) ins \<and>
     (\<forall>k. key = Some k \<longrightarrow> node_key R P i ins k)"

fun cell_ok :: "('w, 'e, 'p, 'h) runtime \<Rightarrow> 'p compile_outcome \<Rightarrow> nat \<Rightarrow> ('e, 'p, 'h) cell \<Rightarrow> bool" where
  "cell_ok R P i Vacant \<longleftrightarrow> True"
| "cell_ok R P i (Running initialiser ph) \<longleftrightarrow> phase_ok R P i ph \<and>
     (case initialiser of None \<Rightarrow> i = start_node P | Some k \<Rightarrow> i < k \<and> k < length (cr_graph P))"
| "cell_ok R P i (Finished (Inr d)) \<longleftrightarrow> computes R P i d"
| "cell_ok R P i (Finished (Inl e)) \<longleftrightarrow> fails R P i e \<and> not_internal e"

definition scheduler_ok :: "('w, 'e, 'p, 'h) runtime \<Rightarrow> 'p compile_outcome \<Rightarrow> ('w, 'e, 'p, 'h) scheduler \<Rightarrow> bool" where
  "scheduler_ok R P s \<longleftrightarrow> length (sc_data s) = length (cr_graph P) \<and>
     (\<forall>i < length (cr_graph P). cell_ok R P i (sc_data s ! i)) \<and> cache_valid R P (sc_cache s)"

lemma get_output_ok:
  assumes "scheduler_ok R P s" "get_output (sc_data s) j = Some r" "j < length (cr_graph P)"
  shows "cell_ok R P j (Finished r)"
  using assms by (auto simp: scheduler_ok_def get_output_def split: cell.split_asm)

text \<open>
  The hypotheses under which the invariant holds: the graph is in order, values that are stored are
  read back, and keys tell nodes apart.
\<close>

definition storable :: "('w, 'e, 'p, 'h) runtime \<Rightarrow> 'p compile_outcome \<Rightarrow> cacheable_data \<Rightarrow> bool" where
  "storable R P v \<longleftrightarrow> (\<exists>i ins k d. node_key R P i ins k \<and> may_return R (impl_at P i) ins d \<and> cacheable d = Some v)"

definition engine_ok :: "('w, 'e, 'p, 'h) runtime \<Rightarrow> 'p compile_outcome \<Rightarrow> data_type list \<Rightarrow> bool" where
  "engine_ok R P T \<longleftrightarrow> runnable T P \<and> codec (storable R P) (rt_encode R) (rt_decode R) \<and> keys_separate R P"

lemma outputs_ok:
  assumes "scheduler_ok R P s" "runnable T P" "i < length (cr_graph P)"
    and "list_all2 (\<lambda>j d. get_output (sc_data s) j = Some (Inr d)) (inputs (node_at P i)) ins"
  shows "list_all2 (computes R P) (inputs (node_at P i)) ins"
proof -
  have "computes R P j d" if "j \<in> set (inputs (node_at P i))" "get_output (sc_data s) j = Some (Inr d)" for j d
  proof -
    have "j < length (cr_graph P)" using runnable_inputs [OF assms(2,3)] that(1) by simp
    from get_output_ok [OF assms(1) that(2) this] show ?thesis by simp
  qed
  with assms(4) show ?thesis by (auto simp: list_all2_conv_all_nth)
qed

lemma error_ok:
  assumes "scheduler_ok R P s" "runnable T P" "i < length (cr_graph P)"
    and "j \<in> set (inputs (node_at P i)) \<union> set (phantom_inputs (node_at P i))" "get_output (sc_data s) j = Some (Inl e)"
  shows "fails R P j e \<and> not_internal e"
proof -
  have "j < length (cr_graph P)" using assms(2-4) by (rule runnable_inputs)
  from get_output_ok [OF assms(1,5) this] show ?thesis by simp
qed

lemma read_cached_hit:
  assumes "read_cached R entry w = (Ok (Some d), w')"
  obtains v rest where "read_frame (rt_decode R) entry = Ok (v, rest)" "d = from_cacheable v"
  using assms by (auto simp: read_cached_def Let_def split: outcome.split_asm prod.split_asm if_split_asm)

lemma read_cached_panic:
  "read_cached R entry w = (Panic, w') \<Longrightarrow> read_frame (rt_decode R) entry = Panic"
  by (auto simp: read_cached_def Let_def split: outcome.split_asm prod.split_asm if_split_asm)

lemma run_ok:
  assumes "runnable T P" "i < length (cr_graph P)" "list_all2 (computes R P) (inputs (node_at P i)) ins"
  shows "ran_well (\<lambda>d. data_type_of d = T ! i) (fst (execute (rt_client R) (impl_at P i) ins w))"
proof -
  note n = runnable_node [OF assms(1,2)]
  have "map data_type_of ins = map ((!) T) (inputs (node_at P i))"
    using assms(3) by (auto simp: list_all2_conv_all_nth dest!: computes_typed [OF _ assms(1)] intro!: nth_equalityI)
  then show ?thesis using n(4,5) by (intro execute_sound) simp_all
qed

lemma store_result_valid:
  assumes "store_result R written key d w c = (w', c')" and "cache_valid R P c" and "engine_ok R P T"
    and "\<And>k. key = Some k \<Longrightarrow> \<exists>i ins. node_key R P i ins k \<and> may_return R (impl_at P i) ins d"
  shows "cache_valid R P c'"
proof (cases "c' = c")
  case False
  then obtain k v entry where k: "key = Some k" "cacheable d = Some v" "write_frame (rt_encode R) v = Ok entry"
    and c': "c' = c(k \<mapsto> entry)"
    using assms(1) by (auto simp: store_result_def split: option.split_asm outcome.split_asm if_split_asm)
  obtain i ins where n: "node_key R P i ins k" "may_return R (impl_at P i) ins d" using assms(4) [OF k(1)] by blast
  with k(2) have "storable R P v" unfolding storable_def by blast
  then obtain b where b: "write_frame (rt_encode R) v = Ok b" "\<forall>rest. read_frame (rt_decode R) (b @ rest) = Ok (v, rest)"
    using write_frame_read [of "storable R P" "rt_encode R" "rt_decode R" v] assms(3) by (auto simp: engine_ok_def)
  from b(1) k(3) have "b = entry" by simp
  with spec [OF b(2), of "[]"] have r: "read_frame (rt_decode R) entry = Ok (v, [])" by simp
  have "from_cacheable v = d" using k(2) by (cases d) auto
  with n assms(3) have "may_return R (impl_at P j) ins' (from_cacheable v)" if "node_key R P j ins' k" for j ins'
    using that unfolding engine_ok_def keys_separate_def by blast
  then have "entry_valid R P k entry" by (simp add: entry_valid_def r)
  with assms(2) show ?thesis by (auto simp: cache_valid_def c')
qed (use assms(2) in simp)


lemma list_all2_right: "list_all2 Q xs ys \<Longrightarrow> y \<in> set ys \<Longrightarrow> \<exists>x \<in> set xs. Q x y"
  by (induction xs ys rule: list_all2_induct) auto

section \<open>Steps keep the invariant\<close>

lemma task_step_ok:
  assumes ok: "scheduler_ok R P s" and P: "engine_ok R P T" and i: "i < length (cr_graph P)"
    and cell: "cell_ok R P i (Running initialiser ph)" and c: "cache_valid R P c"
    and step: "task_step R P (sc_data s) i ph w c r w' c'"
  shows "cell_ok R P i (conclude P i initialiser r) \<and> cache_valid R P c'"
proof -
  have rn: "runnable T P" using P by (simp add: engine_ok_def)
  note n = runnable_node [OF rn i]
  show ?thesis using step
  proof cases
    case phantoms_done
    have "j < length (cr_graph P)" if "j \<in> set (phantom_inputs (node_at P i))" for j
      using runnable_inputs [OF rn i] that by simp
    with phantoms_done have "phantoms_ok R P i"
      unfolding phantoms_ok_def by (metis get_output_ok [OF ok] cell_ok.simps(3))
    with phantoms_done cell c show ?thesis by simp
  next
    case (all_done rs ins)
    then have "list_all2 (\<lambda>j d. get_output (sc_data s) j = Some (Inr d)) (inputs (node_at P i)) ins"
      using all_results_values by (fastforce simp: list_all2_conv_all_nth)
    from outputs_ok [OF ok rn i this] all_done cell c show ?thesis by simp
  next
    case (all_failed rs es)
    then have es: "es = [e. Inl e \<leftarrow> rs]" "set es = {e. Inl e \<in> set rs}" "es \<noteq> []" using all_results_errors by blast+
    have all: "list_all2 (\<lambda>j r. get_output (sc_data s) j = Some r) (inputs (node_at P i)) rs" using all_failed by simp
    have one: "cell_ok R P j (Finished r)" if "j \<in> set (inputs (node_at P i))" "get_output (sc_data s) j = Some r" for j r
      using get_output_ok [OF ok that(2) runnable_inputs [OF rn i]] that(1) by simp
    have "list_all2 (\<lambda>j r. (\<forall>d. r = Inr d \<longrightarrow> computes R P j d) \<and> (\<forall>e. r = Inl e \<longrightarrow> fails R P j e)) (inputs (node_at P i)) rs"
      by (rule list.rel_mono_strong [OF all]) (auto dest: one)
    then have "fails R P i (AllErrors es)"
      using all_failed cell es(1,3) by (intro fails_all) (auto simp: phantoms_ok_def)
    moreover have "not_internal e" if "e \<in> set es" for e
      using list_all2_right [OF all] that es(2) one by fastforce
    ultimately show ?thesis using es(3) all_failed c by (simp add: list_all_iff)
  next
    case (inputs_done ins)
    with outputs_ok [OF ok rn i] cell c show ?thesis by simp
  next
    case (entry_used ins k entry d)
    then have k: "node_key R P i ins k" using cell i by (simp add: node_key_def)
    obtain v rest where v: "read_frame (rt_decode R) entry = Ok (v, rest)" "d = from_cacheable v"
      using entry_used(7) by (rule read_cached_hit)
    with k entry_used(6) c have "may_return R (impl_at P i) ins d"
      unfolding cache_valid_def entry_valid_def by blast
    with cell entry_used i c show ?thesis by (auto simp: phantoms_ok_def intro: computesI)
  next
    case (entry_panics ins k entry)
    have "read_frame (rt_decode R) entry = Panic" using entry_panics(7) by (rule read_cached_panic)
    moreover have "entry_valid R P k entry" using c entry_panics(6) by (simp add: cache_valid_def)
    ultimately show ?thesis by (simp add: entry_valid_def)
  next
    case (ran ins d w1 written key)
    then have m: "may_return R (impl_at P i) ins d" by (auto simp: may_return_def)
    with cell ran i have "computes R P i (set_producer (node_metadata.location (metadata_at P i)) d)"
      by (auto simp: phantoms_ok_def intro: computesI)
    moreover have "cache_valid R P c'"
      using ran cell m by (intro store_result_valid [OF ran(4) c P]) auto
    ultimately show ?thesis using ran(2) by simp
  next
    case (failed ins e key)
    have "\<And>msg. e \<noteq> Internal msg" using run_ok [OF rn i, of R ins w] cell failed by auto
    then have "not_internal (node_error P i (Failed e))" by (simp add: not_internal_node)
    moreover have "fails R P i (node_error P i (Failed e))"
      using failed cell by (intro fails_run) (auto simp: phantoms_ok_def)
    ultimately show ?thesis using failed c by simp
  next
    case (key_failed ins e)
    have "fails R P i (node_error P i (HashFailed e))"
      using key_failed cell by (intro fails_key) (auto simp: phantoms_ok_def)
    then show ?thesis using key_failed c by (simp add: not_internal_node)
  next
    case (input_failed j e)
    then show ?thesis using error_ok [OF ok rn i, of j e] cell c by (auto simp: phantoms_ok_def intro: fails_input)
  next
    case (phantom_failed j e)
    then show ?thesis using error_ok [OF ok rn i, of j e] c by (auto intro: fails_phantom)
  next
    case (panicked ins key)
    then show ?thesis using run_ok [OF rn i, of R ins w] cell by simp
  qed (use cell c i n(1) in \<open>auto simp: node_key_def\<close>)
qed

lemma set_cell_sel [simp]:
  "sc_data (set_cell j x s) = (sc_data s)[j := x]" "sc_world (set_cell j x s) = sc_world s" "sc_cache (set_cell j x s) = sc_cache s"
  by (simp_all add: set_cell_def)

lemma scheduler_ok_update:
  assumes "scheduler_ok R P s" "cell_ok R P j x" "cache_valid R P c" "sc_data s' = (sc_data s)[j := x]" "sc_cache s' = c"
  shows "scheduler_ok R P s'"
proof -
  have "cell_ok R P i ((sc_data s)[j := x] ! i)" if "i < length (cr_graph P)" for i
    using assms(1,2) that by (cases "i = j") (simp_all add: scheduler_ok_def)
  with assms show ?thesis by (simp add: scheduler_ok_def)
qed

lemma waits_for_subset: "set (waits_for P cs k) \<subseteq> set (inputs (node_at P k)) \<union> set (phantom_inputs (node_at P k))"
  by (cases "cs ! k") (auto simp: waits_for_def split: phase.split_asm)

lemma waits_for_less:
  assumes "runnable T P" "k < length (cr_graph P)" "j \<in> set (waits_for P cs k)"
  shows "j < k"
  using runnable_node(3) [OF assms(1,2)] waits_for_subset assms(3) by blast

lemma scheduler_step_ok:
  assumes ok: "scheduler_ok R P s" and P: "engine_ok R P T" and step: "scheduler_step R P s s'"
  shows "scheduler_ok R P s'"
proof -
  have c: "cache_valid R P (sc_cache s)" and len: "length (sc_data s) = length (cr_graph P)"
    using ok by (simp_all add: scheduler_ok_def)
  show ?thesis using step
  proof cases
    case start
    then show ?thesis by (intro scheduler_ok_update [OF ok _ c]) auto
  next
    case (spawn k j)
    with waits_for_less P len have "j < k" by (auto simp: engine_ok_def)
    with spawn len show ?thesis by (intro scheduler_ok_update [OF ok _ c]) auto
  next
    case (abort j)
    then show ?thesis by (intro scheduler_ok_update [OF ok _ c]) auto
  next
    case (move i initialiser ph result w c')
    then have "i < length (cr_graph P)" "cell_ok R P i (Running initialiser ph)"
      using ok len by (auto simp: scheduler_ok_def)
    with task_step_ok [OF ok P _ _ c move(5)] have "cell_ok R P i (conclude P i initialiser result) \<and> cache_valid R P c'"
      by blast
    with move(1) show ?thesis by (intro scheduler_ok_update [OF ok]) auto
  qed
qed

lemma scheduler_new_ok: "cache_valid R P c \<Longrightarrow> scheduler_ok R P (scheduler_new P w c)"
  by (simp add: scheduler_ok_def scheduler_new_def store_len_def)

lemma runs_ok: "runs R P s s' \<Longrightarrow> engine_ok R P T \<Longrightarrow> scheduler_ok R P s \<Longrightarrow> scheduler_ok R P s'"
proof (induction rule: runs.induct)
  case (runs_step s s' s'')
  then show ?case using scheduler_step_ok by blast
qed (simp_all add: scheduler_ok_def)

section \<open>Filled cells\<close>

lemma scheduler_step_finished:
  assumes "scheduler_step R P s s'" "sc_data s ! i = Finished r"
  shows "sc_data s' ! i = Finished r"
  using assms by cases (auto simp: nth_list_update orphan_def split: if_split_asm)

lemma runs_finished: "runs R P s s' \<Longrightarrow> sc_data s ! i = Finished r \<Longrightarrow> sc_data s' ! i = Finished r"
  by (induction rule: runs.induct) (auto dest: scheduler_step_finished)

lemma scheduler_step_length: "scheduler_step R P s s' \<Longrightarrow> length (sc_data s') = length (sc_data s)"
  by (cases rule: scheduler_step.cases) auto

section \<open>Runs end\<close>

text \<open>
  The work left for a cell: less and less as its task moves on, more while it is vacant, most while its task
  has lost its initialiser. A cell with a larger number weighs more than all those below it, because what
  it does can cost them their tasks.
\<close>

fun phase_rank :: "('p, 'h) phase \<Rightarrow> nat" where
  "phase_rank Phantoms = 4"
| "phase_rank Inputs = 3"
| "phase_rank (Looking ins) = 2"
| "phase_rank (Executing ins key) = 1"

definition cell_rank :: "'p compile_outcome \<Rightarrow> ('e, 'p, 'h) cell list \<Rightarrow> nat \<Rightarrow> nat" where
  "cell_rank P cs j = (if orphan P cs j then 6 else case cs ! j of
       Vacant \<Rightarrow> 5 | Running _ ph \<Rightarrow> phase_rank ph | Finished r \<Rightarrow> 0)"

definition work_left :: "'p compile_outcome \<Rightarrow> ('e, 'p, 'h) cell list \<Rightarrow> nat" where
  "work_left P cs = (\<Sum>j < length cs. cell_rank P cs j * 7 ^ j)"

lemma phase_rank_le: "0 < phase_rank ph" "phase_rank ph \<le> 4"
  by (cases ph; simp)+

lemma cell_rank_le: "cell_rank P cs j \<le> 6"
  by (auto simp: cell_rank_def split: cell.split intro: order_trans [OF phase_rank_le(2)])

lemma digits_bound: "(\<And>j. j < n \<Longrightarrow> f j \<le> (6::nat)) \<Longrightarrow> (\<Sum>j < n. f j * 7 ^ j) < 7 ^ n"
proof (induction n)
  case (Suc n)
  then have "(\<Sum>j < n. f j * 7 ^ j) < 7 ^ n" by simp
  moreover have "f n * 7 ^ n \<le> 6 * 7 ^ n" using Suc.prems by (intro mult_le_mono1) simp
  ultimately have "(\<Sum>j < n. f j * 7 ^ j) + f n * 7 ^ n < 7 ^ n + 6 * 7 ^ n" by (rule add_less_le_mono)
  then show ?case by simp
qed simp

text \<open>Sums of digits compare like the numbers they write.\<close>

lemma digits_less:
  fixes f g :: "nat \<Rightarrow> nat"
  assumes "k < n" "f k < g k" "\<And>j. k < j \<Longrightarrow> j < n \<Longrightarrow> f j = g j" "\<And>j. f j \<le> 6"
  shows "(\<Sum>j < n. f j * 7 ^ j) < (\<Sum>j < n. g j * 7 ^ j)"
proof -
  have split: "(\<Sum>j < n. h j * 7 ^ j) = (\<Sum>j < k. h j * 7 ^ j) + h k * 7 ^ k + (\<Sum>j \<in> {Suc k..<n}. h j * 7 ^ j)"
    for h :: "nat \<Rightarrow> nat"
    using sum.atLeastLessThan_concat [of 0 "Suc k" n "\<lambda>j. h j * 7 ^ j"] assms(1) by (simp add: lessThan_atLeast0)
  have "(\<Sum>j < k. f j * 7 ^ j) < 7 ^ k" by (rule digits_bound) (rule assms(4))
  moreover have "f k * 7 ^ k + 7 ^ k \<le> g k * 7 ^ k" using assms(2) mult_le_mono1 [of "Suc (f k)" "g k" "7 ^ k"] by simp
  moreover have "(\<Sum>j \<in> {Suc k..<n}. f j * 7 ^ j) = (\<Sum>j \<in> {Suc k..<n}. g j * 7 ^ j)"
    using assms(3) by (intro sum.cong) auto
  ultimately show ?thesis unfolding split [of f] split [of g] by linarith
qed

lemma task_step_rank: "task_step R P cs i ph w c (Inl ph') w' c' \<Longrightarrow> phase_rank ph' < phase_rank ph"
  by (cases rule: task_step.cases) auto

lemma orphan_cong:
  assumes "cs' ! i = cs ! i" "\<And>k ph. cs ! i = Running (Some k) ph \<Longrightarrow> cs' ! k = cs ! k"
  shows "orphan P cs' i = orphan P cs i"
  using assms by (cases "cs ! i") (auto simp: orphan_def waits_for_def split: option.split)

lemma initialiser_above:
  "scheduler_ok R P s \<Longrightarrow> i < length (cr_graph P) \<Longrightarrow> sc_data s ! i = Running (Some k) ph \<Longrightarrow> i < k"
  by (fastforce simp: scheduler_ok_def)

text \<open>A change of one cell makes less work if it does so for the cell itself.\<close>

lemma work_left_update:
  assumes "scheduler_ok R P s" "j < length (cr_graph P)"
    and "cell_rank P ((sc_data s)[j := x]) j < cell_rank P (sc_data s) j"
  shows "work_left P ((sc_data s)[j := x]) < work_left P (sc_data s)"
proof -
  have len: "length (sc_data s) = length (cr_graph P)" using assms(1) by (simp add: scheduler_ok_def)
  have "cell_rank P ((sc_data s)[j := x]) i = cell_rank P (sc_data s) i" if "j < i" "i < length (sc_data s)" for i
  proof -
    have "orphan P ((sc_data s)[j := x]) i = orphan P (sc_data s) i"
      using initialiser_above [OF assms(1)] that len by (intro orphan_cong) fastforce+
    then show ?thesis using that by (simp add: cell_rank_def)
  qed
  then show ?thesis unfolding work_left_def length_list_update
    using assms(2,3) len cell_rank_le by (intro digits_less [of j]) simp_all
qed

lemma scheduler_step_work:
  assumes ok: "scheduler_ok R P s" and P: "engine_ok R P T" and step: "scheduler_step R P s s'"
  shows "work_left P (sc_data s') < work_left P (sc_data s)"
proof -
  have len: "length (sc_data s) = length (cr_graph P)" using ok by (simp add: scheduler_ok_def)
  show ?thesis using step
  proof cases
    case start
    with len have "cell_rank P ((sc_data s)[start_node P := Running None Phantoms]) (start_node P) < cell_rank P (sc_data s) (start_node P)"
      by (simp add: cell_rank_def orphan_def)
    with start len work_left_update [OF ok] show ?thesis by simp
  next
    case (spawn k j)
    then have "j < k" using waits_for_less P len by (auto simp: engine_ok_def)
    then have "waits_for P ((sc_data s)[j := Running (Some k) Phantoms]) k = waits_for P (sc_data s) k"
      by (simp add: waits_for_def)
    with spawn have "cell_rank P ((sc_data s)[j := Running (Some k) Phantoms]) j < cell_rank P (sc_data s) j"
      by (simp add: cell_rank_def orphan_def)
    with spawn len work_left_update [OF ok] show ?thesis by simp
  next
    case (abort j)
    then have "cell_rank P ((sc_data s)[j := Vacant]) j < cell_rank P (sc_data s) j"
      by (simp add: cell_rank_def orphan_def)
    with abort len work_left_update [OF ok] show ?thesis by simp
  next
    case (move i initialiser ph result w c')
    have rank: "cell_rank P (sc_data s) i = phase_rank ph" using move by (simp add: cell_rank_def)
    have "cell_rank P ((sc_data s)[i := conclude P i initialiser result]) i < phase_rank ph"
    proof (cases result)
      case (Inl ph')
      have "\<not> orphan P ((sc_data s)[i := Running initialiser ph']) i"
      proof (cases initialiser)
        case (Some k)
        with initialiser_above [OF ok] move len have "i < k" by auto
        with Some move show ?thesis by (auto simp: orphan_def waits_for_def)
      qed (use move in \<open>simp add: orphan_def\<close>)
      with Inl move task_step_rank show ?thesis by (simp add: cell_rank_def)
    next
      case (Inr r)
      with move phase_rank_le(1) [of ph] show ?thesis by (cases r) (simp_all add: cell_rank_def orphan_def)
    qed
    with move len work_left_update [OF ok, of i "conclude P i initialiser result"] rank show ?thesis by simp
  qed
qed

section \<open>Runs do not get stuck\<close>

lemma some_output:
  assumes "j < length cs"
  obtains "cs ! j = Vacant" | init ph where "cs ! j = Running init ph" | r where "get_output cs j = Some r"
  using assms by (cases "cs ! j") (auto simp: get_output_def)

lemma data_key_returns: "data_key R node ins \<noteq> Panic \<and> data_key R node ins \<noteq> NoFuel"
proof -
  have body: "returns (data_content_hash E d)" for E :: "('e, 'p) content" and d
    by (cases d) (simp_all add: data_content_hash_def fs_content_hash_def split: sum.split)
  have "returns (try_map (data_content_hash E) ds)" for E :: "('e, 'p) content" and ds
    using body by (induction ds) (auto simp: outcome_simps)
  then have "returns (key_content_hash (rt_content R) node ins)" by (simp add: key_content_hash_def outcome_simps)
  then show ?thesis by (cases "key_content_hash (rt_content R) node ins") (simp_all add: data_key_def)
qed


definition can_move :: "('w, 'e, 'p, 'h) runtime \<Rightarrow> 'p compile_outcome \<Rightarrow> ('e, 'p, 'h) cell list \<Rightarrow> nat \<Rightarrow> ('p, 'h) phase \<Rightarrow> 'w \<Rightarrow>
    ('h \<Rightarrow> bytes option) \<Rightarrow> bool" where
  "can_move R P cs i ph w c \<longleftrightarrow> (\<exists>r w' c'. task_step R P cs i ph w c r w' c')"

lemma can_moveI: "task_step R P cs i ph w c r w' c' \<Longrightarrow> can_move R P cs i ph w c"
  by (auto simp: can_move_def)

lemma phantoms_can_move:
  assumes "kind (node_at P i) < length (cr_nodes P)"
    and out: "\<And>j. j \<in> set (phantom_inputs (node_at P i)) \<Longrightarrow> \<exists>r. get_output cs j = Some r"
  shows "can_move R P cs i Phantoms w c"
proof (cases "\<forall>j \<in> set (phantom_inputs (node_at P i)). \<exists>d. get_output cs j = Some (Inr d)")
  case True
  then show ?thesis using assms(1) by (rule can_moveI [OF phantoms_done])
next
  case False
  with out obtain j e where "j \<in> set (phantom_inputs (node_at P i))" "get_output cs j = Some (Inl e)"
    by (metis sum.exhaust)
  then show ?thesis by (rule can_moveI [OF phantom_failed])
qed

lemma inputs_can_move:
  assumes "\<And>j. j \<in> set (inputs (node_at P i)) \<Longrightarrow> \<exists>r. get_output cs j = Some r"
  shows "can_move R P cs i Inputs w c"
proof -
  define rs where "rs = map (\<lambda>j. the (get_output cs j)) (inputs (node_at P i))"
  have rs: "list_all2 (\<lambda>j r. get_output cs j = Some r) (inputs (node_at P i)) rs"
    using assms by (fastforce simp: rs_def list_all2_map2 list_all2_same)
  show ?thesis
  proof (cases "all_results rs (Inr [])")
    case (Inl es)
    show ?thesis
    proof (cases "impl_at P i = All")
      case True
      then show ?thesis using rs Inl by (rule can_moveI [OF all_failed])
    next
      case False
      have "{e. Inl e \<in> set rs} \<noteq> {}" using all_results_errors [OF Inl] by (metis set_empty)
      then obtain e where "Inl e \<in> set rs" by blast
      from list_all2_right [OF rs this] obtain j where "j \<in> set (inputs (node_at P i))" "get_output cs j = Some (Inl e)"
        by blast
      with False show ?thesis by (rule can_moveI [OF input_failed])
    qed
  next
    case (Inr ins)
    then have ins: "list_all2 (\<lambda>j d. get_output cs j = Some (Inr d)) (inputs (node_at P i)) ins"
      using rs all_results_values [OF Inr] by (simp add: list_all2_map2)
    show ?thesis
    proof (cases "impl_at P i = All")
      case True
      then show ?thesis using rs Inr by (rule can_moveI [OF all_done])
    next
      case False
      then show ?thesis using ins by (rule can_moveI [OF inputs_done])
    qed
  qed
qed

lemma looking_can_move: "can_move R P cs i (Looking ins) w c"
proof (cases "should_be_cached (impl_at P i)")
  case True
  then show ?thesis using data_key_returns [of R "kind (node_at P i)" ins]
    by (cases "data_key R (kind (node_at P i)) ins")
      (auto intro: can_moveI [OF no_entry] can_moveI [OF key_failed])
next
  case False
  then show ?thesis by (rule can_moveI [OF uncached])
qed

lemma executing_can_move:
  assumes "fst (execute (rt_client R) (impl_at P i) ins w) \<noteq> NoFuel"
  shows "can_move R P cs i (Executing ins key) w c"
proof -
  obtain r w' where r: "execute (rt_client R) (impl_at P i) ins w = (r, w')" by fastforce
  show ?thesis
  proof (cases r)
    case (Ok d)
    obtain w'' c' where "store_result R False key d w' c = (w'', c')" by fastforce
    then show ?thesis by (rule can_moveI [OF ran [OF r [unfolded Ok]]])
  next
    case (Err e)
    show ?thesis by (rule can_moveI [OF failed [OF r [unfolded Err]]])
  next
    case Panic
    show ?thesis by (rule can_moveI [OF panicked [OF r [unfolded Panic]]])
  qed (use assms r in simp)
qed

text \<open>A task whose inputs have all ended can move.\<close>

lemma task_can_move:
  assumes P: "runnable T P" and i: "i < length (cr_graph P)" and ph: "phase_ok R P i ph" "cs ! i = Running init ph"
    and outputs: "\<And>j. j \<in> set (waits_for P cs i) \<Longrightarrow> \<exists>r. get_output cs j = Some r"
  shows "can_move R P cs i ph w c"
proof (cases ph)
  case Phantoms
  with outputs ph(2) show ?thesis using runnable_node(1) [OF P i] by (simp add: waits_for_def phantoms_can_move)
next
  case Inputs
  with outputs ph(2) show ?thesis by (simp add: waits_for_def inputs_can_move)
next
  case (Executing ins key)
  have "ran_well (\<lambda>d. data_type_of d = T ! i) (fst (execute (rt_client R) (impl_at P i) ins w))"
    using ph(1) Executing by (intro run_ok [OF P i]) simp
  with Executing show ?thesis using executing_can_move [of R P i ins w cs key c]
    by (cases "fst (execute (rt_client R) (impl_at P i) ins w)") simp_all
qed (simp add: looking_can_move)

definition running :: "('e, 'p, 'h) cell list \<Rightarrow> nat \<Rightarrow> bool" where
  "running cs j \<longleftrightarrow> j < length cs \<and> (\<exists>init ph. cs ! j = Running init ph)"

text \<open>The running node with the least number waits only for nodes that are vacant or have ended.\<close>

lemma least_running_steps:
  assumes ok: "scheduler_ok R P s" and P: "runnable T P" and owned: "\<And>j. j < length (sc_data s) \<Longrightarrow> \<not> orphan P (sc_data s) j"
    and j: "running (sc_data s) j" and below: "\<And>p. p < j \<Longrightarrow> \<not> running (sc_data s) p"
  shows "\<exists>s'. scheduler_step R P s s'"
proof -
  have len: "length (sc_data s) = length (cr_graph P)" using ok by (simp add: scheduler_ok_def)
  obtain init ph where ph: "sc_data s ! j = Running init ph" and jl: "j < length (sc_data s)"
    using j by (auto simp: running_def)
  have less: "p < j \<and> p < length (sc_data s)" if "p \<in> set (waits_for P (sc_data s) j)" for p
    using waits_for_less [OF P _ that] jl len by simp
  show ?thesis
  proof (cases "\<exists>p \<in> set (waits_for P (sc_data s) j). sc_data s ! p = Vacant")
    case True
    then obtain p where p: "p \<in> set (waits_for P (sc_data s) j)" "sc_data s ! p = Vacant" by blast
    show ?thesis using spawn [OF jl owned [OF jl] p(1) _ p(2)] less [OF p(1)] by blast
  next
    case False
    have "\<exists>r. get_output (sc_data s) p = Some r" if "p \<in> set (waits_for P (sc_data s) j)" for p
      using less [OF that] below [of p] that False
      by (cases "sc_data s ! p") (auto simp: get_output_def running_def)
    moreover have "phase_ok R P j ph"
      using ok ph jl len unfolding scheduler_ok_def by (metis cell_ok.simps(2))
    ultimately have "can_move R P (sc_data s) j ph (sc_world s) (sc_cache s)"
      using jl len ph by (intro task_can_move [OF P]) simp_all
    then obtain r w c where "task_step R P (sc_data s) j ph (sc_world s) (sc_cache s) r w c"
      unfolding can_move_def by blast
    from move [OF jl owned [OF jl] ph this] show ?thesis by blast
  qed
qed

lemma scheduler_can_step:
  assumes ok: "scheduler_ok R P s" and P: "runnable T P" and unfinished: "\<And>r. sc_data s ! start_node P \<noteq> Finished r"
  shows "\<exists>s'. scheduler_step R P s s'"
proof (cases "\<exists>j < length (sc_data s). orphan P (sc_data s) j")
  case True
  then show ?thesis by (blast intro: abort)
next
  case owned: False
  show ?thesis
  proof (cases "\<exists>j. running (sc_data s) j")
    case True
    from LeastI_ex [OF this] show ?thesis
      using owned not_less_Least [of _ "running (sc_data s)"] by (intro least_running_steps [OF ok P]) blast+
  next
    case False
    have "start_node P < length (sc_data s)" using P ok by (simp add: runnable_def scheduler_ok_def)
    moreover from this have "sc_data s ! start_node P = Vacant"
      using False unfinished by (cases "sc_data s ! start_node P") (auto simp: running_def)
    ultimately show ?thesis using start by blast
  qed
qed

section \<open>Clients that always answer the same\<close>

definition deterministic :: "('w, 'e, 'p, 'h) runtime \<Rightarrow> 'p compile_outcome \<Rightarrow> bool" where
  "deterministic R P \<longleftrightarrow> (\<forall>impl \<in> set (cr_nodes P). \<forall>ins d d'. may_return R impl ins d \<longrightarrow> may_return R impl ins d' \<longrightarrow> d = d')"

lemma computes_unique:
  assumes "deterministic R P" "runnable T P"
  shows "computes R P i d \<Longrightarrow> computes R P i d' \<Longrightarrow> d = d'"
proof (induction arbitrary: d' rule: computes.induct)
  case (computesI i ins d)
  obtain ins' e where d': "d' = set_producer (node_metadata.location (metadata_at P i)) e"
    and ins': "list_all2 (computes R P) (inputs (node_at P i)) ins'" "may_return R (impl_at P i) ins' e"
    using computesI.prems by (cases rule: computes.cases) auto
  have "ins ! k = ins' ! k" if "k < length ins" for k
    using computesI.IH(2) ins'(1) that by (auto simp: list_all2_conv_all_nth)
  then have "ins = ins'"
    using computesI.IH(2) ins'(1) by (auto simp: list_all2_conv_all_nth intro: nth_equalityI)
  moreover have "impl_at P i \<in> set (cr_nodes P)"
    using runnable_node(1) [OF assms(2) computesI.hyps(1)] by (simp add: impl_at_def)
  ultimately show ?case using assms(1) computesI.hyps(2) ins'(2) d' unfolding deterministic_def by blast
qed

lemma value_computed:
  assumes "engine_ok R P T" "cache_valid R P c" "runs R P (scheduler_new P w c) s"
    and "get_output (sc_data s) i = Some (Inr d)"
  shows "computes R P i d"
proof -
  have ok: "scheduler_ok R P s" using runs_ok [OF assms(3,1) scheduler_new_ok [OF assms(2)]] .
  then have "i < length (cr_graph P)" using assms(4) by (simp add: get_output_def scheduler_ok_def split: if_split_asm)
  from get_output_ok [OF ok assms(4) this] show ?thesis by simp
qed

section \<open>Properties\<close>

text \<open>
  C2: the scheduler implements the reference semantics: whatever the interleaving, the aborted tasks and the state of
  the cache, a value in a cell is a value that its node computes, and it has the type that the
  compiler announced for the node.
\<close>

theorem scheduler_refines:
  assumes "engine_ok R P T" "cache_valid R P c" "runs R P (scheduler_new P w c) s"
    and "get_output (sc_data s) i = Some (Inr d)"
  shows "computes R P i d \<and> data_type_of d = T ! i"
proof -
  note value_computed [OF assms]
  with computes_typed [OF this] assms(1) show ?thesis by (simp add: engine_ok_def)
qed

text \<open>
  C4: an error in the cell of a node is one the reference gives to this node: it is what the node's own execution failed
  with on values of its inputs, or the failure to hash them, with the span and the stack of calls of the node, or an
  error of one of its inputs, or for \<open>All\<close> those of its inputs in their order. Errors of the client are passed on as
  they are; the engine itself adds no internal error, no panic and no id out of bounds.
\<close>

theorem scheduler_errors:
  assumes "engine_ok R P T" "cache_valid R P c" "runs R P (scheduler_new P w c) s"
    and "get_output (sc_data s) i = Some (Inl e)" "i < length (cr_graph P)"
  shows "fails R P i e \<and> not_internal e"
  using get_output_ok [OF runs_ok [OF assms(3,1) scheduler_new_ok [OF assms(2)]] assms(4,5)] by simp

text \<open>
  C3: every run ends: each step leaves less work, and as long as the start node has no result some step
  can be taken. Tasks that are aborted and started again do not go on for ever.
\<close>

theorem scheduler_terminates:
  assumes "engine_ok R P T" "cache_valid R P c" "runs R P (scheduler_new P w c) s"
  shows "(\<forall>s'. scheduler_step R P s s' \<longrightarrow> work_left P (sc_data s') < work_left P (sc_data s)) \<and>
    (get_output (sc_data s) (start_node P) = None \<longrightarrow> (\<exists>s'. scheduler_step R P s s'))"
proof -
  have ok: "scheduler_ok R P s" and P: "runnable T P"
    using runs_ok [OF assms(3,1) scheduler_new_ok [OF assms(2)]] assms(1) by (simp_all add: engine_ok_def)
  have "\<exists>s'. scheduler_step R P s s'" if "get_output (sc_data s) (start_node P) = None"
    using that P ok
    by (intro scheduler_can_step [OF ok P]) (auto simp: get_output_def runnable_def scheduler_ok_def split: if_split_asm)
  with scheduler_step_work [OF ok assms(1)] show ?thesis by blast
qed

text \<open>
  A result is final: once a node has a value or an error, its cell keeps it in every continuation of the run, and
  every later request gets it.
\<close>

theorem output_final:
  assumes "runs R P s s'" "i < length (sc_data s)" "get_output (sc_data s) i = Some r"
  shows "get_output (sc_data s') i = Some r"
proof -
  have "length (sc_data s') = length (sc_data s)"
    using assms(1) by (induction rule: runs.induct) (auto dest: scheduler_step_length)
  moreover have "sc_data s ! i = Finished r" using assms(2,3) by (auto simp: get_output_def split: cell.split_asm)
  ultimately show ?thesis using runs_finished [OF assms(1)] assms(2) by (simp add: get_output_def)
qed

text \<open>
  C36: with a client whose answers do not depend on the state of the world, neither the interleaving nor the cache
  has an influence on the values: two runs from any states of the world, and from any caches whose entries are valid,
  give a node the same value.
\<close>

theorem schedule_independent:
  assumes "engine_ok R P T" "deterministic R P" "cache_valid R P c" "cache_valid R P c'"
    and "runs R P (scheduler_new P w c) s" "runs R P (scheduler_new P w' c') s'"
    and "get_output (sc_data s) i = Some (Inr d)" "get_output (sc_data s') i = Some (Inr d')"
  shows "d = d'"
proof -
  have "runnable T P" using assms(1) by (simp add: engine_ok_def)
  from computes_unique [OF assms(2) this] show ?thesis
    using value_computed [OF assms(1,3,5,7)] value_computed [OF assms(1,4,6,8)] .
qed

end
