(* ===== verification/Demo_Scheduler.thy ===== *)
theory Demo_Scheduler
  imports Scheduler_Props
begin

text \<open>
  A run of the scheduler to the end, on a graph of four nodes: a literal, an image and a service of that name,
  and \<open>All\<close> over the two. The client of the example has images and no services.
\<close>

definition demo_span :: "nat \<Rightarrow> span" where
  "demo_span i = span_new 0 i (Suc i)"

definition demo_meta :: "nat \<Rightarrow> node_metadata" where
  "demo_meta i = \<lparr>node_metadata.location = demo_span i, stack_trace = []\<rparr>"

definition demo_name :: ustr where
  "demo_name = ustr ''alpine''"

definition demo_image :: "nat node_impl" where
  "demo_image = wrap_new F_image [RString] RContainer"

definition demo_service :: "nat node_impl" where
  "demo_service = wrap_new F_image_service [RString] RService"

definition demo_program :: "nat compile_outcome" where
  "demo_program = \<lparr>cr_nodes = [LiteralNode (DString demo_name), demo_image, demo_service, All],
     cr_graph =
       [(\<lparr>kind = 0, inputs = [], phantom_inputs = []\<rparr>, demo_meta 0),
        (\<lparr>kind = 1, inputs = [0], phantom_inputs = []\<rparr>, demo_meta 1),
        (\<lparr>kind = 2, inputs = [0], phantom_inputs = []\<rparr>, demo_meta 2),
        (\<lparr>kind = 3, inputs = [1, 2], phantom_inputs = []\<rparr>, demo_meta 3)],
     start_node = 3\<rparr>"

definition demo_types :: "data_type list" where
  "demo_types = [TString, TContainer, TService, TContainer]"

definition demo_state :: container_state where
  "demo_state = ContainerState demo_name (config_from_oci None None None)"

definition demo_content :: "(unit, nat) content" where
  "demo_content = \<lparr>ser_int = \<lambda>i. [], ser_string = \<lambda>s. [1], ser_container = \<lambda>c. [], ser_service = \<lambda>s. [], fs_digest = \<lambda>_. Inl ()\<rparr>"

definition demo_runtime :: "(nat, unit, nat, bytes) runtime" where
  "demo_runtime = \<lparr>rt_client = example_client, rt_content = demo_content, rt_blake3 = id,
     rt_encode = \<lambda>v. Some [7], rt_decode = \<lambda>b. Some (CContainer demo_state),
     check_container = \<lambda>c w. (True, w), check_service = \<lambda>s w. (True, w),
     export_container = \<lambda>c w. w, export_service = \<lambda>s w. w, standalone_cache = False\<rparr>"

lemmas demo_defs = demo_program_def node_at_def metadata_at_def impl_at_def

lemma demo_nodes [simp]:
  "length (cr_graph demo_program) = 4" "start_node demo_program = 3" "length (cr_nodes demo_program) = 4"
  "node_at demo_program 0 = \<lparr>kind = 0, inputs = [], phantom_inputs = []\<rparr>"
  "node_at demo_program (Suc 0) = \<lparr>kind = 1, inputs = [0], phantom_inputs = []\<rparr>"
  "node_at demo_program 2 = \<lparr>kind = 2, inputs = [0], phantom_inputs = []\<rparr>"
  "node_at demo_program 3 = \<lparr>kind = 3, inputs = [1, 2], phantom_inputs = []\<rparr>"
  "impl_at demo_program 0 = LiteralNode (DString demo_name)" "impl_at demo_program (Suc 0) = demo_image"
  "impl_at demo_program 2 = demo_service" "impl_at demo_program 3 = All"
  by (simp_all add: demo_defs)

lemma less_four: "i < 4 \<longleftrightarrow> i = 0 \<or> i = Suc 0 \<or> i = 2 \<or> i = (3::nat)"
  by auto

lemma demo_runnable: "runnable demo_types demo_program"
proof -
  have "node_typed (cr_nodes demo_program) (take i demo_types) (node_at demo_program i) (demo_types ! i)" if "i < 4" for i
    using that unfolding less_four
    by (auto simp: node_typed_def demo_types_def demo_defs demo_image_def demo_service_def wrap_new_def)
  moreover have "distinct (map fst (cr_graph demo_program))" by (simp add: demo_program_def)
  moreover have "\<forall>impl \<in> set (cr_nodes demo_program). well_signed impl"
    by (simp add: demo_program_def well_signed_def demo_image_def demo_service_def wrap_new_def)
  ultimately show ?thesis by (simp add: runnable_def graph_typed_def demo_types_def node_at_def)
qed

lemma demo_may_return:
  "may_return demo_runtime (LiteralNode (DString s)) ins d \<longleftrightarrow> d = DString s"
  "may_return demo_runtime demo_image [DString s] d \<longleftrightarrow> d = DContainer (ContainerState s (config_from_oci None None None))"
  "\<not> may_return demo_runtime demo_service [DString s] d"
  by (auto simp: may_return_def demo_runtime_def example_client_def demo_image_def demo_service_def wrap_new_def
    wrap_execute_def run_function_def call_def returning_def)

lemma demo_literal: "computes demo_runtime demo_program 0 d \<Longrightarrow> d = DString demo_name"
  by (cases rule: computes.cases [of demo_runtime demo_program 0 d]) (simp_all add: demo_may_return)

lemma demo_computes: "list_all2 (computes demo_runtime demo_program) [0] ins \<Longrightarrow> ins = [DString demo_name]"
  by (metis list_all2_Cons1 list_all2_Nil demo_literal)

lemma demo_key:
  assumes "node_key demo_runtime demo_program i ins k"
  shows "(i = Suc 0 \<or> i = 2) \<and> ins = [DString demo_name] \<and> data_key demo_runtime i [DString demo_name] = Ok k"
proof -
  from assms have "i < 4" and c: "should_be_cached (impl_at demo_program i)" by (simp_all add: node_key_def)
  then have i: "i = Suc 0 \<or> i = 2" unfolding less_four by auto
  with assms have "ins = [DString demo_name]" by (auto simp: node_key_def intro: demo_computes)
  with i assms show ?thesis by (auto simp: node_key_def)
qed

lemma demo_keys: "data_key demo_runtime (Suc 0) [DString demo_name] \<noteq> data_key demo_runtime 2 [DString demo_name]"
  using le_bytes_inj [of "Suc 0" 2]
  by (auto simp: data_key_def key_content_hash_def hash_from_data_def demo_runtime_def data_content_hash_def demo_content_def)

lemma demo_storable: "storable demo_runtime demo_program v \<Longrightarrow> v = CContainer demo_state"
  by (auto simp: storable_def demo_may_return demo_state_def dest!: demo_key)

lemma demo_separate: "keys_separate demo_runtime demo_program"
  unfolding keys_separate_def
  by (metis demo_key demo_keys outcome.inject(1))

lemma demo_engine: "engine_ok demo_runtime demo_program demo_types"
proof -
  have "codec (storable demo_runtime demo_program) (rt_encode demo_runtime) (rt_decode demo_runtime)"
    by (auto simp: codec_def demo_runtime_def dest!: demo_storable [unfolded demo_runtime_def])
  with demo_runnable demo_separate show ?thesis by (simp add: engine_ok_def)
qed

lemma demo_deterministic: "deterministic demo_runtime demo_program"
proof -
  have "d = d'" if "may_return demo_runtime impl ins d" "may_return demo_runtime impl ins d'"
    "impl \<in> set (cr_nodes demo_program)" for impl ins d d'
    using that
    by (auto simp: may_return_def demo_program_def demo_runtime_def example_client_def demo_image_def demo_service_def
      wrap_new_def wrap_execute_def run_function_def call_def returning_def
      split: list.split_asm outcome.split_asm raw_value.split_asm)
  then show ?thesis unfolding deterministic_def by blast
qed

section \<open>The run\<close>

abbreviation demo_at :: "(unit, nat, bytes) cell list \<Rightarrow> nat \<Rightarrow> (bytes \<Rightarrow> bytes option) \<Rightarrow> (nat, unit, nat, bytes) scheduler" where
  "demo_at cs w c \<equiv> \<lparr>sc_data = cs, sc_world = w, sc_cache = c\<rparr>"

abbreviation demo_runs :: "nat \<Rightarrow> (bytes \<Rightarrow> bytes option) \<Rightarrow> (unit, nat, bytes) cell list \<Rightarrow> nat \<Rightarrow> (bytes \<Rightarrow> bytes option) \<Rightarrow> bool" where
  "demo_runs w0 c0 cs w c \<equiv> runs demo_runtime demo_program (scheduler_new demo_program w0 c0) (demo_at cs w c)"

lemma demo_move:
  assumes "demo_runs w0 c0 cs w c" "cs ! i = Running init ph" "i < length cs" "\<not> orphan demo_program cs i"
    and "task_step demo_runtime demo_program cs i ph w c r w' c'"
  shows "demo_runs w0 c0 (cs[i := conclude demo_program i init r]) w' c'"
  using runs_step [OF assms(1) move [of i "demo_at cs w c" demo_program init ph demo_runtime r w' c']] assms(2-5)
  by (simp add: set_cell_def)

lemma demo_spawn:
  assumes "demo_runs w0 c0 cs w c" "k < length cs" "\<not> orphan demo_program cs k" "j \<in> set (waits_for demo_program cs k)"
    and "j < length cs" "cs ! j = Vacant"
  shows "demo_runs w0 c0 (cs[j := Running (Some k) Phantoms]) w c"
  using runs_step [OF assms(1) spawn [of k "demo_at cs w c" demo_program j demo_runtime]] assms(2-6)
  by (simp add: set_cell_def)

text \<open>The start node waits for the image and the service, the image for its name.\<close>

definition demo_key_of :: "nat \<Rightarrow> bytes" where
  "demo_key_of i = 0 # le_bytes 8 i @ le_bytes 8 1 @ [1, 1]"

lemma demo_data_key: "data_key demo_runtime i [DString demo_name] = Ok (demo_key_of i)"
  by (simp add: data_key_def key_content_hash_def hash_from_data_def demo_runtime_def data_content_hash_def
    demo_content_def demo_key_of_def)

lemmas demo_ph = phantoms_done [of demo_program _ _ demo_runtime]

lemma demo_1: "demo_runs w0 c0 [Vacant, Running (Some 3) Phantoms, Running (Some 3) Phantoms, Running None Inputs] w0 c0"
proof -
  have "demo_runs w0 c0 [Vacant, Vacant, Vacant, Running None Phantoms] w0 c0"
    using runs_step [OF runs_refl start [of demo_program "scheduler_new demo_program w0 c0" demo_runtime]]
    by (simp add: scheduler_new_def store_len_def set_cell_def eval_nat_numeral)
  from demo_move [OF this _ _ _ demo_ph, of 3 None]
  have "demo_runs w0 c0 [Vacant, Vacant, Vacant, Running None Inputs] w0 c0" by (simp add: orphan_def)
  from demo_spawn [OF this, of 3 1] have "demo_runs w0 c0 [Vacant, Running (Some 3) Phantoms, Vacant, Running None Inputs] w0 c0"
    by (simp add: orphan_def waits_for_def)
  from demo_spawn [OF this, of 3 2] show ?thesis by (simp add: orphan_def waits_for_def)
qed

lemma demo_2: "demo_runs w0 c0 [Running (Some 1) (Looking []), Running (Some 3) Inputs, Running (Some 3) Inputs, Running None Inputs] w0 c0"
proof -
  from demo_move [OF demo_1 _ _ _ demo_ph, of 1 "Some 3"]
  have "demo_runs w0 c0 [Vacant, Running (Some 3) Inputs, Running (Some 3) Phantoms, Running None Inputs] w0 c0"
    by (simp add: orphan_def waits_for_def)
  from demo_move [OF this _ _ _ demo_ph, of 2 "Some 3"]
  have "demo_runs w0 c0 [Vacant, Running (Some 3) Inputs, Running (Some 3) Inputs, Running None Inputs] w0 c0"
    by (simp add: orphan_def waits_for_def)
  from demo_spawn [OF this, of 1 0]
  have "demo_runs w0 c0 [Running (Some 1) Phantoms, Running (Some 3) Inputs, Running (Some 3) Inputs, Running None Inputs] w0 c0"
    by (simp add: orphan_def waits_for_def)
  from demo_move [OF this _ _ _ demo_ph, of 0 "Some 1"]
  have "demo_runs w0 c0 [Running (Some 1) Inputs, Running (Some 3) Inputs, Running (Some 3) Inputs, Running None Inputs] w0 c0"
    by (simp add: orphan_def waits_for_def)
  from demo_move [OF this _ _ _ inputs_done, of 0 "Some 1" "[]"]
  show ?thesis by (simp add: orphan_def waits_for_def)
qed

text \<open>The name is there; the image is looked for in the cache.\<close>

lemma demo_3: "demo_runs w0 c0 [Finished (Inr (DString demo_name)), Running (Some 3) (Looking [DString demo_name]),
    Running (Some 3) (Looking [DString demo_name]), Running None Inputs] w0 c0"
proof -
  from demo_move [OF demo_2 _ _ _ uncached, of 0 "Some 1"]
  have "demo_runs w0 c0 [Running (Some 1) (Executing [] None), Running (Some 3) Inputs, Running (Some 3) Inputs, Running None Inputs] w0 c0"
    by (simp add: orphan_def waits_for_def)
  from demo_move [OF this _ _ _ ran, of 0 "Some 1" "[]" None "DString demo_name" w0 False w0 c0]
  have "demo_runs w0 c0 [Finished (Inr (DString demo_name)), Running (Some 3) Inputs, Running (Some 3) Inputs, Running None Inputs] w0 c0"
    by (simp add: orphan_def waits_for_def store_result_def)
  from demo_move [OF this _ _ _ inputs_done, of 1 "Some 3" "[DString demo_name]"]
  have "demo_runs w0 c0 [Finished (Inr (DString demo_name)), Running (Some 3) (Looking [DString demo_name]), Running (Some 3) Inputs, Running None Inputs] w0 c0"
    by (simp add: orphan_def waits_for_def demo_image_def wrap_new_def get_output_def)
  from demo_move [OF this _ _ _ inputs_done, of 2 "Some 3" "[DString demo_name]"]
  show ?thesis by (simp add: orphan_def waits_for_def demo_service_def wrap_new_def get_output_def)
qed

text \<open>The image is pulled and stored, and the service fails; \<open>All\<close> waits for both.\<close>

abbreviation demo_cell :: "(unit, nat, bytes) cell" where
  "demo_cell \<equiv> Finished (Inr (DString demo_name))"

definition demo_failure :: "unit scheduler_error" where
  "demo_failure = NodeError (demo_span 2) [] (Failed (External ()))"

definition demo_cache :: "bytes \<Rightarrow> bytes option" where
  "demo_cache = [demo_key_of 1 \<mapsto> le_bytes 8 1 @ [7]]"

lemma demo_4: "demo_runs 0 Map.empty [demo_cell, Finished (Inr (DContainer demo_state)), Running (Some 3) (Looking [DString demo_name]),
    Running None Inputs] 1 demo_cache"
proof -
  from demo_move [OF demo_3 _ _ _ no_entry, of 1 "Some 3" "[DString demo_name]" "demo_key_of 1"]
  have "demo_runs 0 Map.empty [demo_cell, Running (Some 3) (Executing [DString demo_name] (Some (demo_key_of 1))),
      Running (Some 3) (Looking [DString demo_name]), Running None Inputs] 0 Map.empty"
    by (simp add: orphan_def waits_for_def demo_image_def wrap_new_def demo_data_key)
  from demo_move [OF this _ _ _ ran, of 1 "Some 3" "[DString demo_name]" "Some (demo_key_of 1)"
      "DContainer demo_state" 1 True 1 demo_cache]
  show ?thesis
    by (simp add: orphan_def waits_for_def store_result_def demo_image_def wrap_new_def demo_runtime_def example_client_def
      wrap_execute_def run_function_def call_def returning_def demo_state_def write_frame_def demo_cache_def)
qed

lemma demo_5: "demo_runs 0 Map.empty [demo_cell, Finished (Inr (DContainer demo_state)), Finished (Inl demo_failure),
    Running None Inputs] 1 demo_cache"
proof -
  from demo_move [OF demo_4 _ _ _ no_entry, of 2 "Some 3" "[DString demo_name]" "demo_key_of 2"]
  have "demo_runs 0 Map.empty [demo_cell, Finished (Inr (DContainer demo_state)),
      Running (Some 3) (Executing [DString demo_name] (Some (demo_key_of 2))), Running None Inputs] 1 demo_cache"
    by (simp add: orphan_def waits_for_def demo_service_def wrap_new_def demo_data_key)
  from demo_move [OF this _ _ _ failed, of 2 "Some 3" "[DString demo_name]" "Some (demo_key_of 2)" "External ()" 1]
  show ?thesis
    by (simp add: orphan_def waits_for_def demo_service_def wrap_new_def demo_runtime_def example_client_def node_error_def
      wrap_execute_def run_function_def call_def returning_def demo_failure_def demo_defs demo_meta_def)
qed

lemma demo_6: "demo_runs 0 Map.empty [demo_cell, Finished (Inr (DContainer demo_state)), Finished (Inl demo_failure),
    Finished (Inl (AllErrors [demo_failure]))] 1 demo_cache"
  using demo_move [OF demo_5 _ _ _ all_failed, of 3 None "[Inr (DContainer demo_state), Inl demo_failure]" "[demo_failure]"]
  by (simp add: orphan_def get_output_def)

section \<open>Witnesses\<close>

lemma demo_empty: "cache_valid demo_runtime demo_program Map.empty"
  by (simp add: cache_valid_def)

theorem scheduler_refines_witness: "computes demo_runtime demo_program 1 (DContainer demo_state)"
  using scheduler_refines [OF demo_engine demo_empty demo_6, of 1 "DContainer demo_state"] by (simp add: get_output_def)

theorem scheduler_errors_witness:
  "fails demo_runtime demo_program 3 (AllErrors [demo_failure]) \<and> not_internal (AllErrors [demo_failure])"
  using scheduler_errors [OF demo_engine demo_empty demo_6, of 3 "AllErrors [demo_failure]"] by (simp add: get_output_def)

theorem scheduler_terminates_witness: "\<exists>s'. scheduler_step demo_runtime demo_program
    (demo_at [demo_cell, Finished (Inr (DContainer demo_state)), Finished (Inl demo_failure), Running None Inputs] 1 demo_cache) s'"
  using scheduler_terminates [OF demo_engine demo_empty demo_5] by (simp add: get_output_def)

theorem output_final_witness: "get_output (sc_data (demo_at [demo_cell, Finished (Inr (DContainer demo_state)),
    Finished (Inl demo_failure), Finished (Inl (AllErrors [demo_failure]))] 1 demo_cache)) 2 = Some (Inl demo_failure)"
proof (rule output_final)
  show "runs demo_runtime demo_program (demo_at [demo_cell, Finished (Inr (DContainer demo_state)), Finished (Inl demo_failure),
      Running None Inputs] 1 demo_cache) (demo_at [demo_cell, Finished (Inr (DContainer demo_state)),
      Finished (Inl demo_failure), Finished (Inl (AllErrors [demo_failure]))] 1 demo_cache)"
    using runs_step [OF runs_refl move [of 3 "demo_at [demo_cell, Finished (Inr (DContainer demo_state)), Finished (Inl demo_failure),
        Running None Inputs] 1 demo_cache" demo_program None Inputs demo_runtime "Inr (Inl (AllErrors [demo_failure]))" 1 demo_cache]]
      all_failed [of demo_program 3 "[demo_cell, Finished (Inr (DContainer demo_state)), Finished (Inl demo_failure),
        Running None Inputs]" "[Inr (DContainer demo_state), Inl demo_failure]" "[demo_failure]" demo_runtime 1 demo_cache]
    by (simp add: orphan_def get_output_def set_cell_def)
qed (simp_all add: get_output_def)

text \<open>
  Two runs for the image: the first finds nothing in its cache and pulls it, in the second, which begins in another
  state of the world, a run before has stored it.
\<close>

lemma demo_cache_valid: "cache_valid demo_runtime demo_program demo_cache"
proof -
  have "may_return demo_runtime (impl_at demo_program i) ins (DContainer demo_state)"
    if "node_key demo_runtime demo_program i ins (demo_key_of 1)" for i ins
  proof -
    have "i = Suc 0 \<and> ins = [DString demo_name]" using demo_key [OF that] demo_keys by (auto simp: demo_data_key)
    then show ?thesis by (simp add: demo_may_return demo_state_def)
  qed
  moreover have "read_frame (rt_decode demo_runtime) (le_bytes 8 1 @ [7]) = Ok (CContainer demo_state, [])"
    by (simp add: demo_runtime_def read_frame_def le_value_le_bytes read_exact_def)
  ultimately show ?thesis by (auto simp: cache_valid_def entry_valid_def demo_cache_def split: if_split_asm)
qed

lemma demo_hit: "demo_runs 5 demo_cache [demo_cell, Finished (Inr (DContainer demo_state)), Running (Some 3) (Looking [DString demo_name]),
    Running None Inputs] 5 demo_cache"
proof -
  have "read_cached demo_runtime (le_bytes 8 1 @ [7]) 5 = (Ok (Some (DContainer demo_state)), 5)"
    by (simp add: read_cached_def demo_runtime_def read_frame_def le_value_le_bytes read_exact_def Let_def)
  with demo_move [OF demo_3 [of 5 demo_cache] _ _ _ entry_used, of 1 "Some 3" "[DString demo_name]" "demo_key_of 1" "le_bytes 8 1 @ [7]"
      "DContainer demo_state" 5]
  show ?thesis
    by (simp add: orphan_def waits_for_def demo_image_def wrap_new_def demo_data_key demo_cache_def)
qed

theorem schedule_independent_witness:
  "\<exists>s s'. runs demo_runtime demo_program (scheduler_new demo_program 0 Map.empty) s \<and>
    runs demo_runtime demo_program (scheduler_new demo_program 5 demo_cache) s' \<and> sc_world s \<noteq> sc_world s' \<and>
    get_output (sc_data s) 1 = get_output (sc_data s') 1 \<and> get_output (sc_data s) 1 \<noteq> None"
proof -
  let ?s = "demo_at [demo_cell, Finished (Inr (DContainer demo_state)), Finished (Inl demo_failure),
    Finished (Inl (AllErrors [demo_failure]))] 1 demo_cache"
  let ?s' = "demo_at [demo_cell, Finished (Inr (DContainer demo_state)), Running (Some 3) (Looking [DString demo_name]),
    Running None Inputs] 5 demo_cache"
  obtain d d' where out: "get_output (sc_data ?s) 1 = Some (Inr d)" "get_output (sc_data ?s') 1 = Some (Inr d')"
    by (simp add: get_output_def)
  have "d = d'"
    by (rule schedule_independent [OF demo_engine demo_deterministic demo_empty demo_cache_valid demo_6 demo_hit out])
  then have "get_output (sc_data ?s) 1 = get_output (sc_data ?s') 1 \<and> get_output (sc_data ?s) 1 \<noteq> None"
    unfolding out by simp
  moreover have "sc_world ?s \<noteq> sc_world ?s'" by simp
  ultimately show ?thesis using demo_6 demo_hit by blast
qed

end
