(* ===== verification/Cache_Backends.thy ===== *)
theory Cache_Backends
  imports Streams
begin

text \<open>
  The contract of a cache backend and its providers: \<^verbatim>\<open>engine/cache/mod.rs\<close> (\<open>CacheBackend\<close>,
  \<open>NoneCacheBackend\<close>) and \<^verbatim>\<open>engine/cache/filesystem_backend.rs\<close>. Names of entries are encoded keys; the
  encoding (base64) is injective, so that a directory of entries is a map from keys.

  What the operating system and tokio do with a request is an argument of the operation: whether a file can be created,
  and whether a write, a flush, a close or a rename is pending, done or failed. As tokio documents it, a write that is accepted is not
  yet on disk; it gets there, or fails, in the background, and a flush or close is done when all is there and no
  failure is left to report. A rename takes effect at some time between the first poll and the one that reports it, also when its
  future is dropped.
\<close>

section \<open>The contract\<close>

text \<open>
  What the users of a backend see: that a writer was handed out for a key, that it took some bytes, that it reported an error of its file,
  that it was asked to shut down. Besides, other instances put entries of their own in the same place.
\<close>

datatype 'k cache_event = Opened nat 'k | Accepted nat bytes | Failed nat | Closing nat | Foreign 'k bytes

fun accepted :: "nat \<Rightarrow> 'k cache_event list \<Rightarrow> bytes" where
  "accepted j [] = []"
| "accepted j (Accepted i b # h) = (if i = j then b else []) @ accepted j h"
| "accepted j (_ # h) = accepted j h"

text \<open>
  The value of an entry is accounted for: it was there at the start or is of another instance, or it is all that was written to a writer for
  the key that was shut down, unless that writer had reported an error.
\<close>

definition accounted :: "('k \<Rightarrow> bytes option) \<Rightarrow> 'k cache_event list \<Rightarrow> 'k \<Rightarrow> bytes \<Rightarrow> bool" where
  "accounted start h k b \<longleftrightarrow> start k = Some b \<or> Foreign k b \<in> set h \<or>
     (\<exists>j. Opened j k \<in> set h \<and> Closing j \<in> set h \<and> (b = accepted j h \<or> Failed j \<in> set h))"

locale cache_backend =
  fixes read_entry :: "'s \<Rightarrow> 'k \<Rightarrow> bytes option"
    and backend_step :: "'s \<Rightarrow> 'k cache_event list \<Rightarrow> 's \<Rightarrow> bool"
    and backend_inv :: "('k \<Rightarrow> bytes option) \<Rightarrow> 'k cache_event list \<Rightarrow> 's \<Rightarrow> bool"
  assumes steps: "backend_inv start h s \<Longrightarrow> backend_step s es s' \<Longrightarrow> backend_inv start (h @ es) s'"
    and reading: "backend_inv start h s \<Longrightarrow> read_entry s k = Some b \<Longrightarrow> accounted start h k b"
begin

inductive runs :: "'s \<Rightarrow> 'k cache_event list \<Rightarrow> 's \<Rightarrow> bool" where
  runs_refl: "runs s [] s"
| runs_step: "runs s h s' \<Longrightarrow> backend_step s' es s'' \<Longrightarrow> runs s (h @ es) s''"

lemma runs_inv: "runs s h s' \<Longrightarrow> backend_inv start [] s \<Longrightarrow> backend_inv start h s'"
  by (induction rule: runs.induct) (auto intro: steps)

text \<open>What \<open>read_key\<close> returns is accounted for.\<close>

lemma read_accounted: "runs s h s' \<Longrightarrow> backend_inv start [] s \<Longrightarrow> read_entry s' k = Some b \<Longrightarrow> accounted start h k b"
  by (rule reading [OF runs_inv])

end

lemma accepted_append: "accepted j (h @ h') = accepted j h @ accepted j h'"
  by (induction j h rule: accepted.induct) simp_all

section \<open>No backend\<close>

definition none_read :: "unit \<Rightarrow> 'k \<Rightarrow> bytes option" where
  "none_read s k = None"

definition none_write :: "'k \<Rightarrow> unit \<Rightarrow> nat option" where
  "none_write k s = None"

definition none_step :: "unit \<Rightarrow> 'k cache_event list \<Rightarrow> unit \<Rightarrow> bool" where
  "none_step s es s' \<longleftrightarrow> es = []"

interpretation none: cache_backend none_read none_step "\<lambda>start h s. True"
  by unfold_locales (simp_all add: none_read_def)

section \<open>The local file system\<close>

text \<open>The bit of \<open>Renaming\<close>: its future has ended, which it does in an error.\<close>

datatype writer_state = Writing | Renaming bool | Done

text \<open>
  A scratch file: what of it is on disk and what is still to be written; \<open>sf_broken\<close> says that a write failed in the
  background and this is not reported yet, \<open>sf_moved\<close> that the file has its real name, \<open>sf_dropped\<close> that its user is gone.
\<close>

record 'k scratch_file =
  sf_state :: writer_state
  sf_disk :: bytes
  sf_flight :: bytes
  sf_broken :: bool
  sf_moved :: bool
  sf_dropped :: bool
  sf_destination :: 'k

record 'k local_backend =
  lb_files :: "'k \<Rightarrow> bytes option"
  lb_locks :: "'k set"
  lb_writers :: "'k scratch_file list"

definition local_read :: "'k local_backend \<Rightarrow> 'k \<Rightarrow> bytes option" where
  "local_read s k = lb_files s k"

definition scratch_create :: "'k \<Rightarrow> 'k scratch_file" where
  "scratch_create k = \<lparr>sf_state = Writing, sf_disk = [], sf_flight = [], sf_broken = False, sf_moved = False,
     sf_dropped = False, sf_destination = k\<rparr>"

definition local_write_key :: "bool \<Rightarrow> 'k \<Rightarrow> 'k local_backend \<Rightarrow> nat option \<times> 'k local_backend" where
  "local_write_key creatable k s =
     (if k \<in> lb_locks s then (None, s)
      else let s = s\<lparr>lb_locks := insert k (lb_locks s)\<rparr> in
        if lb_files s k \<noteq> None \<or> \<not> creatable then (None, s)
        else (Some (length (lb_writers s)), s\<lparr>lb_writers := lb_writers s @ [scratch_create k]\<rparr>))"

datatype 'a poll = Pending | Ready 'a

datatype write_error = AlreadyFinished | OsError

text \<open>
  A write is accepted as far as the answer of the file says, \<open>Ready None\<close> being an error. An error that is reported is not
  reported again.
\<close>

definition poll_write :: "nat option poll \<Rightarrow> bytes \<Rightarrow> 'k scratch_file \<Rightarrow> (write_error, nat) outcome poll \<times> 'k scratch_file" where
  "poll_write written buf w = (case sf_state w of
       Writing \<Rightarrow> (case written of
           Pending \<Rightarrow> (Pending, w)
         | Ready None \<Rightarrow> (Ready (Err OsError), w\<lparr>sf_broken := False\<rparr>)
         | Ready (Some n) \<Rightarrow> (Ready (Ok (min n (length buf))), w\<lparr>sf_flight := sf_flight w @ take n buf\<rparr>))
     | _ \<Rightarrow> (Ready (Err AlreadyFinished), w))"

definition poll_flush :: "bool poll \<Rightarrow> 'k scratch_file \<Rightarrow> (write_error, unit) outcome poll \<times> 'k scratch_file" where
  "poll_flush flushed w = (case sf_state w of
       Writing \<Rightarrow> (case flushed of
           Pending \<Rightarrow> (Pending, w)
         | Ready False \<Rightarrow> (Ready (Err OsError), w\<lparr>sf_broken := False\<rparr>)
         | Ready True \<Rightarrow> (Ready (Ok ()), w))
     | _ \<Rightarrow> (Ready (Ok ()), w))"

text \<open>
  The loop of \<open>poll_shutdown\<close>, which returns where a stage is pending or fails. \<open>closed\<close> and \<open>renamed\<close> are
  the answers to closing the file and to renaming it; \<open>bool\<close> tells success. A future that has ended panics when it is
  polled again.
\<close>

definition move_file :: "'k scratch_file \<Rightarrow> ('k \<Rightarrow> bytes option) \<Rightarrow> ('k \<Rightarrow> bytes option)" where
  "move_file w files = (if sf_moved w then files else files(sf_destination w \<mapsto> sf_disk w))"

definition poll_rename :: "bool poll \<Rightarrow> 'k scratch_file \<Rightarrow> ('k \<Rightarrow> bytes option) \<Rightarrow>
    (write_error, unit) outcome poll \<times> 'k scratch_file \<times> ('k \<Rightarrow> bytes option)" where
  "poll_rename renamed w files = (case renamed of
       Pending \<Rightarrow> (Pending, w\<lparr>sf_state := Renaming False\<rparr>, files)
     | Ready False \<Rightarrow> (Ready (Err OsError), w\<lparr>sf_state := Renaming True\<rparr>, files)
     | Ready True \<Rightarrow> (Ready (Ok ()), w\<lparr>sf_state := Done, sf_moved := True\<rparr>, move_file w files))"

definition poll_shutdown :: "bool poll \<Rightarrow> bool poll \<Rightarrow> 'k scratch_file \<Rightarrow> ('k \<Rightarrow> bytes option) \<Rightarrow>
    (write_error, unit) outcome poll \<times> 'k scratch_file \<times> ('k \<Rightarrow> bytes option)" where
  "poll_shutdown closed renamed w files = (case sf_state w of
       Writing \<Rightarrow> (case closed of
           Pending \<Rightarrow> (Pending, w, files)
         | Ready False \<Rightarrow> (Ready (Err OsError), w\<lparr>sf_broken := False\<rparr>, files)
         | Ready True \<Rightarrow> poll_rename renamed w files)
     | Renaming False \<Rightarrow> poll_rename renamed w files
     | Renaming True \<Rightarrow> (Ready Panic, w, files)
     | Done \<Rightarrow> (Ready (Ok ()), w, files))"

text \<open>
  What tokio documents of its files: a failure of a write in the background is reported at the next operation that is ready, and a flush or a
  close is only done when all that was written is on disk. And a rename that is said to have failed has not happened.
\<close>

definition write_answer :: "nat option poll \<Rightarrow> 'k scratch_file \<Rightarrow> bool" where
  "write_answer written w \<longleftrightarrow> (\<forall>n. written = Ready (Some n) \<longrightarrow> \<not> sf_broken w)"

definition flush_answer :: "bool poll \<Rightarrow> 'k scratch_file \<Rightarrow> bool" where
  "flush_answer flushed w \<longleftrightarrow> (flushed = Ready True \<longrightarrow> sf_flight w = [] \<and> \<not> sf_broken w)"

definition rename_answer :: "bool poll \<Rightarrow> 'k scratch_file \<Rightarrow> bool" where
  "rename_answer renamed w \<longleftrightarrow> (renamed = Ready False \<longrightarrow> \<not> sf_moved w)"

text \<open>
  What can happen to the backend: tasks ask for writers, write, flush, shut down and drop them, in any order and interleaving. In the
  background, writes get to the disk or fail, and a rename happens, whether or not the writer is still there.
\<close>

definition has_writer :: "'k local_backend \<Rightarrow> nat \<Rightarrow> 'k scratch_file \<Rightarrow> bool" where
  "has_writer s j w \<longleftrightarrow> j < length (lb_writers s) \<and> lb_writers s ! j = w"

definition put_writer :: "nat \<Rightarrow> 'k scratch_file \<Rightarrow> 'k local_backend \<Rightarrow> 'k local_backend" where
  "put_writer j w s = s\<lparr>lb_writers := (lb_writers s)[j := w]\<rparr>"

inductive own_step :: "'k local_backend \<Rightarrow> 'k cache_event list \<Rightarrow> 'k local_backend \<Rightarrow> bool" where
  step_open: "local_write_key creatable k s = (Some j, s') \<Longrightarrow> own_step s [Opened j k] s'"
| step_refuse: "local_write_key creatable k s = (None, s') \<Longrightarrow> own_step s [] s'"
| step_write: "has_writer s j w \<Longrightarrow> \<not> sf_dropped w \<Longrightarrow> write_answer written w \<Longrightarrow> poll_write written buf w = (r, w') \<Longrightarrow>
    own_step s (case r of Ready (Ok n) \<Rightarrow> [Accepted j (take n buf)] | Ready (Err OsError) \<Rightarrow> [Failed j] | _ \<Rightarrow> []) (put_writer j w' s)"
| step_flush: "has_writer s j w \<Longrightarrow> \<not> sf_dropped w \<Longrightarrow> flush_answer flushed w \<Longrightarrow> poll_flush flushed w = (r, w') \<Longrightarrow>
    own_step s (case r of Ready (Err OsError) \<Rightarrow> [Failed j] | _ \<Rightarrow> []) (put_writer j w' s)"
| step_shutdown: "has_writer s j w \<Longrightarrow> \<not> sf_dropped w \<Longrightarrow> flush_answer closed w \<Longrightarrow> rename_answer renamed w \<Longrightarrow>
    poll_shutdown closed renamed w (lb_files s) = (r, w', files) \<Longrightarrow>
    own_step s (Closing j # (if sf_state w = Writing \<and> closed = Ready False then [Failed j] else []))
      (put_writer j w' s\<lparr>lb_files := files\<rparr>)"
| step_drop: "has_writer s j w \<Longrightarrow> own_step s [] (put_writer j (w\<lparr>sf_dropped := True\<rparr>) s)"
| step_disk: "has_writer s j w \<Longrightarrow> sf_flight w = a @ b \<Longrightarrow> own_step s [] (put_writer j (w\<lparr>sf_disk := sf_disk w @ a, sf_flight := b\<rparr>) s)"
| step_break: "has_writer s j w \<Longrightarrow> sf_flight w = a @ b \<Longrightarrow> b \<noteq> [] \<Longrightarrow>
    own_step s [] (put_writer j (w\<lparr>sf_disk := sf_disk w @ a, sf_flight := [], sf_broken := True\<rparr>) s)"
| step_move: "has_writer s j w \<Longrightarrow> sf_state w = Renaming False \<Longrightarrow>
    own_step s [] (put_writer j (w\<lparr>sf_moved := True\<rparr>) s\<lparr>lb_files := move_file w (lb_files s)\<rparr>)"

inductive local_step :: "'k local_backend \<Rightarrow> 'k cache_event list \<Rightarrow> 'k local_backend \<Rightarrow> bool" where
  step_own: "own_step s es s' \<Longrightarrow> local_step s es s'"
| step_other: "local_step s [Foreign k b] (s\<lparr>lb_files := (lb_files s)(k \<mapsto> b)\<rparr>)"

inductive_cases local_stepE: "local_step s l s'"

definition backend_new :: "('k \<Rightarrow> bytes option) \<Rightarrow> 'k local_backend" where
  "backend_new files = \<lparr>lb_files = files, lb_locks = {}, lb_writers = []\<rparr>"

section \<open>What a writer has taken\<close>

text \<open>
  What was accepted is on disk or on its way there; from the close on it is on disk, and a file has its real name only then.
\<close>

definition writer_account :: "'k cache_event list \<Rightarrow> nat \<Rightarrow> 'k scratch_file \<Rightarrow> bool" where
  "writer_account h j w \<longleftrightarrow> Opened j (sf_destination w) \<in> set h \<and>
     (sf_broken w \<or> Failed j \<in> set h \<or> accepted j h = sf_disk w @ sf_flight w) \<and>
     (sf_state w \<noteq> Writing \<longrightarrow> Closing j \<in> set h \<and> sf_flight w = [] \<and> \<not> sf_broken w) \<and>
     (sf_state w = Writing \<longrightarrow> \<not> sf_moved w)"

definition local_inv :: "('k \<Rightarrow> bytes option) \<Rightarrow> 'k cache_event list \<Rightarrow> 'k local_backend \<Rightarrow> bool" where
  "local_inv start h s \<longleftrightarrow> (\<forall>j < length (lb_writers s). writer_account h j (lb_writers s ! j)) \<and>
     (\<forall>j \<ge> length (lb_writers s). accepted j h = []) \<and>
     (\<forall>k b. lb_files s k = Some b \<longrightarrow> start k = Some b \<or> Foreign k b \<in> set h \<or>
        (\<exists>j < length (lb_writers s). sf_destination (lb_writers s ! j) = k \<and> sf_state (lb_writers s ! j) \<noteq> Writing \<and>
           (sf_disk (lb_writers s ! j) = b \<or> Failed j \<in> set h)))"

lemma local_inv_reading:
  assumes "local_inv start h s" "local_read s k = Some b"
  shows "accounted start h k b"
proof -
  from assms consider "start k = Some b \<or> Foreign k b \<in> set h"
    | j where "j < length (lb_writers s)" "sf_destination (lb_writers s ! j) = k" "sf_state (lb_writers s ! j) \<noteq> Writing"
        "sf_disk (lb_writers s ! j) = b \<or> Failed j \<in> set h"
    unfolding local_inv_def local_read_def by blast
  then show ?thesis
  proof cases
    case 2
    then have "writer_account h j (lb_writers s ! j)" using assms(1) by (simp add: local_inv_def)
    with 2 show ?thesis unfolding accounted_def writer_account_def by auto
  qed (auto simp: accounted_def)
qed

text \<open>An event of the writer \<open>j\<close> is not one of another writer.\<close>

definition of_writer :: "nat \<Rightarrow> 'k cache_event list \<Rightarrow> bool" where
  "of_writer j es \<longleftrightarrow> (\<forall>i. i \<noteq> j \<longrightarrow> accepted i es = [])"

lemma writer_account_later: "writer_account h j w \<Longrightarrow> accepted j es = [] \<Longrightarrow> writer_account (h @ es) j w"
  by (auto simp: writer_account_def accepted_append)

lemma local_inv_put:
  assumes inv: "local_inv start h s" and j: "has_writer s j w" and es: "of_writer j es"
    and w': "writer_account (h @ es) j w'" "sf_destination w' = sf_destination w"
    and fixed: "sf_state w \<noteq> Writing \<Longrightarrow> sf_state w' \<noteq> Writing \<and> sf_disk w' = sf_disk w"
    and files: "files = lb_files s \<or> files = (lb_files s)(sf_destination w \<mapsto> sf_disk w') \<and> sf_state w' \<noteq> Writing"
  shows "local_inv start (h @ es) (put_writer j w' s\<lparr>lb_files := files\<rparr>)"
proof -
  let ?s = "put_writer j w' s\<lparr>lb_files := files\<rparr>"
  have j': "j < length (lb_writers s)" "lb_writers s ! j = w" using j by (auto simp: has_writer_def)
  have "writer_account (h @ es) i (lb_writers ?s ! i)" if "i < length (lb_writers ?s)" for i
    using inv that w'(1) j'(1) es writer_account_later [of h i "lb_writers s ! i" es]
    by (cases "i = j") (auto simp: put_writer_def local_inv_def of_writer_def)
  moreover have "accepted i (h @ es) = []" if "i \<ge> length (lb_writers ?s)" for i
  proof -
    have "i \<noteq> j" "accepted i h = []" using inv that j'(1) by (auto simp: put_writer_def local_inv_def)
    then show ?thesis using es by (simp add: accepted_append of_writer_def)
  qed
  moreover have "start k = Some b \<or> Foreign k b \<in> set (h @ es) \<or>
      (\<exists>i < length (lb_writers ?s). sf_destination (lb_writers ?s ! i) = k \<and> sf_state (lb_writers ?s ! i) \<noteq> Writing \<and>
         (sf_disk (lb_writers ?s ! i) = b \<or> Failed i \<in> set (h @ es)))" if "files k = Some b" for k b
  proof (cases "lb_files s k = Some b")
    case True
    with inv consider "start k = Some b \<or> Foreign k b \<in> set h"
      | i where "i < length (lb_writers s)" "sf_destination (lb_writers s ! i) = k" "sf_state (lb_writers s ! i) \<noteq> Writing"
          "sf_disk (lb_writers s ! i) = b \<or> Failed i \<in> set h"
      unfolding local_inv_def by blast
    then show ?thesis
    proof cases
      case (2 i)
      then show ?thesis using j' fixed w'(2) by (intro disjI2 exI [of _ i]) (cases "i = j"; auto simp: put_writer_def)
    qed auto
  next
    case False
    with that files have "k = sf_destination w" "b = sf_disk w'" "sf_state w' \<noteq> Writing" by (auto split: if_split_asm)
    then show ?thesis using j'(1) w'(2) by (intro disjI2 exI [of _ j]) (simp add: put_writer_def)
  qed
  ultimately show ?thesis by (auto simp: local_inv_def)
qed

lemma local_inv_open:
  assumes inv: "local_inv start h s" and op: "local_write_key creatable k s = (i, s')"
  shows "local_inv start (h @ (case i of Some j \<Rightarrow> [Opened j k] | None \<Rightarrow> [])) s'"
proof (cases i)
  case None
  then have "lb_files s' = lb_files s" "lb_writers s' = lb_writers s"
    using op by (auto simp: local_write_key_def Let_def split: if_split_asm)
  with inv None show ?thesis by (simp add: local_inv_def)
next
  case (Some j)
  then have s': "lb_files s' = lb_files s" "lb_writers s' = lb_writers s @ [scratch_create k]" "j = length (lb_writers s)"
    using op by (auto simp: local_write_key_def Let_def split: if_split_asm)
  have fresh: "accepted j h = []" using inv s'(3) by (simp add: local_inv_def)
  have "writer_account (h @ [Opened j k]) l (lb_writers s' ! l)" if "l < length (lb_writers s')" for l
  proof (cases "l = j")
    case True
    with fresh s' show ?thesis by (simp add: writer_account_def scratch_create_def accepted_append)
  next
    case False
    with inv that s' show ?thesis by (auto simp: local_inv_def nth_append intro!: writer_account_later)
  qed
  moreover have "start k' = Some b \<or> Foreign k' b \<in> set (h @ [Opened j k]) \<or>
      (\<exists>l < length (lb_writers s'). sf_destination (lb_writers s' ! l) = k' \<and> sf_state (lb_writers s' ! l) \<noteq> Writing \<and>
         (sf_disk (lb_writers s' ! l) = b \<or> Failed l \<in> set (h @ [Opened j k])))" if f: "lb_files s' k' = Some b" for k' b
  proof -
    from f inv consider "start k' = Some b \<or> Foreign k' b \<in> set h"
      | l where "l < length (lb_writers s)" "sf_destination (lb_writers s ! l) = k'" "sf_state (lb_writers s ! l) \<noteq> Writing"
          "sf_disk (lb_writers s ! l) = b \<or> Failed l \<in> set h"
      unfolding local_inv_def s'(1) by blast
    then show ?thesis
    proof cases
      case (2 l)
      then show ?thesis using s' by (intro disjI2 exI [of _ l]) (auto simp: nth_append)
    qed auto
  qed
  ultimately show ?thesis using inv Some s' by (simp add: local_inv_def accepted_append)
qed

lemma poll_shutdown_cases:
  assumes "poll_shutdown closed renamed w files = (r, w', files')" "flush_answer closed w"
  obtains (same) "w' = w" "files' = files" "sf_state w = Writing \<longrightarrow> closed = Pending"
    | (failed) "w' = w\<lparr>sf_broken := False\<rparr>" "files' = files" "sf_state w = Writing" "closed = Ready False"
    | (begun) finished where "w' = w\<lparr>sf_state := Renaming finished\<rparr>" "files' = files" "sf_flight w = [] \<and> \<not> sf_broken w \<and> closed = Ready True \<or> sf_state w \<noteq> Writing"
    | (moved) "w' = w\<lparr>sf_state := Done, sf_moved := True\<rparr>" "files' = move_file w files"
        "sf_flight w = [] \<and> \<not> sf_broken w \<and> closed = Ready True \<or> sf_state w \<noteq> Writing"
  using assms
  by (auto simp: poll_shutdown_def poll_rename_def flush_answer_def split: writer_state.split_asm poll.split_asm bool.split_asm)

lemma own_step_accounts:
  assumes "own_step s es s'" "local_inv start h s"
  shows "local_inv start (h @ es) s'"
  using assms(1)
proof cases
  case (step_open creatable k j)
  with local_inv_open [OF assms(2), of creatable k "Some j"] show ?thesis by simp
next
  case (step_refuse creatable k)
  with local_inv_open [OF assms(2), of creatable k None] show ?thesis by simp
next
  case (step_write j w written buf r w')
  have w: "writer_account h j w" using assms(2) step_write(3) by (auto simp: local_inv_def has_writer_def)
  have "local_inv start (h @ es) (put_writer j w' s\<lparr>lb_files := lb_files s\<rparr>)"
    using w step_write(1,5,6)
    by (intro local_inv_put [OF assms(2) step_write(3)])
      (auto simp: poll_write_def write_answer_def writer_account_def of_writer_def accepted_append min_def
        split: writer_state.split_asm poll.split_asm option.split_asm)
  then show ?thesis using step_write(2) by (simp add: put_writer_def)
next
  case (step_flush j w flushed r w')
  have w: "writer_account h j w" using assms(2) step_flush(3) by (auto simp: local_inv_def has_writer_def)
  have "local_inv start (h @ es) (put_writer j w' s\<lparr>lb_files := lb_files s\<rparr>)"
    using w step_flush(1,6)
    by (intro local_inv_put [OF assms(2) step_flush(3)])
      (auto simp: poll_flush_def writer_account_def of_writer_def accepted_append
        split: writer_state.split_asm poll.split_asm bool.split_asm)
  then show ?thesis using step_flush(2) by (simp add: put_writer_def)
next
  case (step_shutdown j w closed renamed r w' files)
  have w: "writer_account h j w" using assms(2) step_shutdown(3) by (auto simp: local_inv_def has_writer_def)
  have es: "accepted i es = []" "Closing j \<in> set es" "of_writer j es" for i by (simp_all add: step_shutdown(1) of_writer_def)
  show ?thesis
    unfolding step_shutdown(2)
  proof (rule local_inv_put [OF assms(2) step_shutdown(3) es(3)])
    show "writer_account (h @ es) j w'" "sf_destination w' = sf_destination w"
      "sf_state w \<noteq> Writing \<Longrightarrow> sf_state w' \<noteq> Writing \<and> sf_disk w' = sf_disk w"
      "files = lb_files s \<or> files = (lb_files s)(sf_destination w \<mapsto> sf_disk w') \<and> sf_state w' \<noteq> Writing"
      using step_shutdown(7,5) w es(1,2)
      by (elim poll_shutdown_cases; auto simp: writer_account_def accepted_append move_file_def step_shutdown(1))+
  qed
next
  case (step_drop j w)
  have w: "writer_account h j w" using assms(2) step_drop(3) by (auto simp: local_inv_def has_writer_def)
  have "local_inv start (h @ es) (put_writer j (w\<lparr>sf_dropped := True\<rparr>) s\<lparr>lb_files := lb_files s\<rparr>)"
    using w step_drop(1)
    by (intro local_inv_put [OF assms(2) step_drop(3)]) (auto simp: writer_account_def of_writer_def)
  then show ?thesis using step_drop(2) by (simp add: put_writer_def)
next
  case (step_disk j w a b)
  have w: "writer_account h j w" using assms(2) step_disk(3) by (auto simp: local_inv_def has_writer_def)
  have "local_inv start (h @ es) (put_writer j (w\<lparr>sf_disk := sf_disk w @ a, sf_flight := b\<rparr>) s\<lparr>lb_files := lb_files s\<rparr>)"
    using w step_disk(1,4)
    by (intro local_inv_put [OF assms(2) step_disk(3)]) (auto simp: writer_account_def of_writer_def)
  then show ?thesis using step_disk(2) by (simp add: put_writer_def)
next
  case (step_break j w a b)
  have w: "writer_account h j w" using assms(2) step_break(3) by (auto simp: local_inv_def has_writer_def)
  have "local_inv start (h @ es) (put_writer j (w\<lparr>sf_disk := sf_disk w @ a, sf_flight := [], sf_broken := True\<rparr>) s\<lparr>lb_files := lb_files s\<rparr>)"
    using w step_break(1,4,5)
    by (intro local_inv_put [OF assms(2) step_break(3)]) (auto simp: writer_account_def of_writer_def)
  then show ?thesis using step_break(2) by (simp add: put_writer_def)
next
  case (step_move j w)
  have w: "writer_account h j w" using assms(2) step_move(3) by (auto simp: local_inv_def has_writer_def)
  show ?thesis
    unfolding step_move(2)
    using w step_move(1,4)
    by (intro local_inv_put [OF assms(2) step_move(3)]) (auto simp: writer_account_def of_writer_def move_file_def)
qed

lemma local_inv_foreign:
  "local_inv start h s \<Longrightarrow> local_inv start (h @ [Foreign k b]) (s\<lparr>lb_files := (lb_files s)(k \<mapsto> b)\<rparr>)"
  by (auto simp: local_inv_def accepted_append intro!: writer_account_later split: if_split_asm)

interpretation disk: cache_backend local_read local_step local_inv
  by unfold_locales (auto elim!: local_stepE intro: own_step_accounts local_inv_foreign local_inv_reading)

section \<open>One writer per entry\<close>

definition writer_ok :: "'k local_backend \<Rightarrow> 'k scratch_file \<Rightarrow> bool" where
  "writer_ok s w \<longleftrightarrow> sf_destination w \<in> lb_locks s \<and> (\<not> sf_moved w \<longrightarrow> lb_files s (sf_destination w) = None)"

definition backend_ok :: "'k local_backend \<Rightarrow> bool" where
  "backend_ok s \<longleftrightarrow> (\<forall>w \<in> set (lb_writers s). writer_ok s w) \<and> distinct (map sf_destination (lb_writers s))"

lemma backend_ok_open:
  assumes "backend_ok s" "local_write_key creatable k s = (i, s')"
  shows "backend_ok s' \<and> lb_files s' = lb_files s"
  using assms by (auto simp: local_write_key_def Let_def backend_ok_def writer_ok_def scratch_create_def split: if_split_asm)

lemma map_same_update: "j < length xs \<Longrightarrow> f x = f (xs ! j) \<Longrightarrow> map f (xs[j := x]) = map f xs"
  by (simp add: map_update) (metis length_map list_update_id nth_map)

lemma backend_ok_put:
  assumes ok: "backend_ok s" and j: "has_writer s j w"
    and w': "sf_destination w' = sf_destination w" "sf_moved w \<longrightarrow> sf_moved w'"
    and files: "files = lb_files s \<or> files = move_file w (lb_files s) \<and> sf_moved w'"
  shows "backend_ok (put_writer j w' s\<lparr>lb_files := files\<rparr>) \<and> (\<forall>k b. lb_files s k = Some b \<longrightarrow> files k = Some b)"
proof -
  have j': "j < length (lb_writers s)" "lb_writers s ! j = w" using j by (auto simp: has_writer_def)
  have w: "writer_ok s w" using ok j' by (auto simp: backend_ok_def)
  have other: "sf_destination (lb_writers s ! i) \<noteq> sf_destination w" if "i < length (lb_writers s)" "i \<noteq> j" for i
    using ok that j' by (auto simp: backend_ok_def distinct_conv_nth)
  have "writer_ok (put_writer j w' s\<lparr>lb_files := files\<rparr>) v" if "v \<in> set ((lb_writers s)[j := w'])" for v
  proof -
    from that obtain i where i: "i < length (lb_writers s)" "(lb_writers s)[j := w'] ! i = v" by (auto simp: in_set_conv_nth)
    show ?thesis
    proof (cases "i = j")
      case True
      with i w w' files show ?thesis by (auto simp: writer_ok_def put_writer_def)
    next
      case False
      with i have v: "v = lb_writers s ! i" by simp
      then have "writer_ok s v" using ok i(1) by (simp add: backend_ok_def)
      with other [OF i(1) False] v files show ?thesis by (auto simp: writer_ok_def put_writer_def move_file_def)
    qed
  qed
  moreover have "map sf_destination ((lb_writers s)[j := w']) = map sf_destination (lb_writers s)"
    using j' w'(1) by (intro map_same_update) simp_all
  ultimately show ?thesis using ok w files
    by (auto simp: backend_ok_def put_writer_def writer_ok_def move_file_def)
qed

lemma own_step_ok:
  assumes "backend_ok s" "own_step s es s'"
  shows "backend_ok s' \<and> (\<forall>k b. lb_files s k = Some b \<longrightarrow> lb_files s' k = Some b)"
proof -
  have put: "backend_ok (put_writer j w' s) \<and> (\<forall>k b. lb_files s k = Some b \<longrightarrow> lb_files (put_writer j w' s) k = Some b)"
    if "has_writer s j w" "sf_destination w' = sf_destination w" "sf_moved w' = sf_moved w" for j w w'
    using backend_ok_put [OF assms(1) that(1,2), of "lb_files s"] that(3) by (simp add: put_writer_def)
  show ?thesis using assms(2)
  proof cases
    case (step_write j w written buf r w')
    then show ?thesis using put [OF step_write(3), of w']
      by (auto simp: poll_write_def split: writer_state.split_asm poll.split_asm option.split_asm)
  next
    case (step_flush j w flushed r w')
    then show ?thesis using put [OF step_flush(3), of w']
      by (auto simp: poll_flush_def split: writer_state.split_asm poll.split_asm bool.split_asm)
  next
    case (step_shutdown j w closed renamed r w' files)
    have "sf_destination w' = sf_destination w" "sf_moved w \<longrightarrow> sf_moved w'"
      "files = lb_files s \<or> files = move_file w (lb_files s) \<and> sf_moved w'"
      using step_shutdown(7,5) by (elim poll_shutdown_cases; simp)+
    from backend_ok_put [OF assms(1) step_shutdown(3) this] step_shutdown(2) show ?thesis by simp
  next
    case (step_move j w)
    from backend_ok_put [OF assms(1) step_move(3), of "w\<lparr>sf_moved := True\<rparr>" "move_file w (lb_files s)"] step_move(2)
    show ?thesis by simp
  qed (use backend_ok_open [OF assms(1)] put in auto)
qed

text \<open>Runs of the backend without another instance.\<close>

inductive own_steps :: "'k local_backend \<Rightarrow> 'k local_backend \<Rightarrow> bool" where
  own_refl: "own_steps s s"
| own_more: "own_steps s s' \<Longrightarrow> own_step s' es s'' \<Longrightarrow> own_steps s s''"

lemma own_steps_ok: "own_steps s s' \<Longrightarrow> backend_ok s \<Longrightarrow> backend_ok s'"
  by (induction rule: own_steps.induct) (auto dest: own_step_ok)

lemma own_steps_keep: "own_steps s s' \<Longrightarrow> backend_ok s \<Longrightarrow> lb_files s k = Some b \<Longrightarrow> lb_files s' k = Some b"
  by (induction rule: own_steps.induct) (auto dest!: own_steps_ok dest: own_step_ok)

lemma backend_new_ok: "backend_ok (backend_new files)" "local_inv files [] (backend_new files)"
  by (simp_all add: backend_ok_def backend_new_def local_inv_def)

section \<open>Properties\<close>

text \<open>
  C37: In any interleaving of the backend's own operations, of what the system does in the background and of other instances that share
  the directory, the entry a key is read as was there at the start, or is of another instance, or is all that a writer for
  this key had accepted, which was then shut down. So a truncated entry, of a writer that was dropped, is still
  writing, or whose bytes are not on disk yet, is never seen; the one exception is a user that goes on to shut the writer down after a
  write was reported to have failed.
\<close>

theorem local_backend_sound:
  assumes "disk.runs (backend_new files) h s" "local_read s k = Some b"
  shows "files k = Some b \<or> Foreign k b \<in> set h \<or>
    (\<exists>j. Opened j k \<in> set h \<and> Closing j \<in> set h \<and> (b = accepted j h \<or> Failed j \<in> set h))"
  using disk.read_accounted [OF assms(1) backend_new_ok(2) assms(2)] by (simp add: accounted_def)

text \<open>
  As long as no other instance writes to the directory, an entry that can be read keeps its value: the
  locks and the check for an existing entry leave at most one writer to each key, and no writer ever
  replaces an entry.
\<close>

theorem entries_stable:
  assumes "own_steps (backend_new files) s" "own_steps s s'" "local_read s k = Some b"
  shows "local_read s' k = Some b"
  using assms own_steps_keep own_steps_ok backend_new_ok(1) unfolding local_read_def by metis

text \<open>A backend that starts empty and writes one entry, which gets to the disk before it is closed; the close waits for it.\<close>

definition demo_writer :: "nat scratch_file" where
  "demo_writer = (scratch_create 7)\<lparr>sf_flight := [1, 2]\<rparr>"

definition demo_open :: "nat local_backend" where
  "demo_open = snd (local_write_key True 7 (backend_new Map.empty))"

lemmas demo_simps = demo_writer_def demo_open_def backend_new_def local_write_key_def scratch_create_def has_writer_def put_writer_def
  poll_write_def poll_shutdown_def poll_rename_def move_file_def write_answer_def flush_answer_def rename_answer_def Let_def

definition demo_written :: "nat local_backend" where
  "demo_written = put_writer 0 demo_writer demo_open"

definition demo_settled :: "nat local_backend" where
  "demo_settled = put_writer 0 ((scratch_create 7)\<lparr>sf_disk := [1, 2]\<rparr>) demo_open"

definition demo_done :: "nat local_backend" where
  "demo_done = put_writer 0 ((scratch_create 7)\<lparr>sf_disk := [1, 2], sf_state := Done, sf_moved := True\<rparr>) demo_open\<lparr>lb_files := [7 \<mapsto> [1, 2]]\<rparr>"

lemma demo_steps:
  "own_step (backend_new Map.empty) [Opened 0 7] demo_open"
  "own_step demo_open [Accepted 0 [1, 2]] demo_written"
  "own_step demo_written [Closing 0] demo_written"
  "own_step demo_written [] demo_settled"
  "own_step demo_settled [Closing 0] demo_done"
proof -
  show "own_step (backend_new Map.empty) [Opened 0 7] demo_open"
    by (rule step_open [of True]) (simp add: demo_simps)
  show "own_step demo_open [Accepted 0 [1, 2]] demo_written"
    using step_write [of demo_open 0 "scratch_create 7" "Ready (Some 2)" "[1, 2]" "Ready (Ok 2)" demo_writer]
    by (simp add: demo_simps demo_written_def)
  show "own_step demo_written [Closing 0] demo_written"
    using step_shutdown [of demo_written 0 demo_writer Pending Pending Pending demo_writer "Map.empty"]
    by (simp add: demo_simps demo_written_def)
  show "own_step demo_written [] demo_settled"
    using step_disk [of demo_written 0 demo_writer "[1, 2]" "[]"] by (simp add: demo_simps demo_written_def demo_settled_def)
  show "own_step demo_settled [Closing 0] demo_done"
    using step_shutdown [of demo_settled 0 "(scratch_create 7)\<lparr>sf_disk := [1, 2]\<rparr>" "Ready True" "Ready True" "Ready (Ok ())"
      "(scratch_create 7)\<lparr>sf_disk := [1, 2], sf_state := Done, sf_moved := True\<rparr>" "[7 \<mapsto> [1, 2]]"]
    by (simp add: demo_simps demo_settled_def demo_done_def)
qed

lemma demo_read: "local_read demo_done 7 = Some [1, 2]"
  by (simp add: local_read_def demo_done_def)

theorem local_backend_sound_witness:
  "\<exists>h. disk.runs (backend_new Map.empty) h demo_done \<and> local_read demo_done 7 = Some [1, 2] \<and> Closing 0 \<in> set h \<and> [1, 2] = accepted 0 h"
proof -
  note steps = demo_steps [THEN step_own]
  let ?h = "(((([] @ [Opened 0 7]) @ [Accepted 0 [1, 2]]) @ [Closing 0]) @ []) @ [Closing 0] :: nat cache_event list"
  have run: "disk.runs (backend_new Map.empty) ?h demo_done"
    by (rule disk.runs_step disk.runs_refl steps)+
  have "Closing 0 \<in> set ?h \<and> [1, 2] = accepted 0 ?h" using local_backend_sound [OF run demo_read] by auto
  with run demo_read show ?thesis by blast
qed

theorem entries_stable_witness: "local_read demo_done 7 = Some [1, 2]"
proof (rule entries_stable)
  show "own_steps (backend_new Map.empty) demo_done"
    using demo_steps by (meson own_refl own_more)
  show "own_steps demo_done demo_done" by (rule own_refl)
  show "local_read demo_done 7 = Some [1, 2]" by (rule demo_read)
qed

end
