(* ===== verification/Github_Backend.thy ===== *)
theory Github_Backend
  imports Cache_Backends Tokenizer_Props
begin

text \<open>
  \<^verbatim>\<open>engine/cache/github_backend.rs\<close>: the cache of GitHub actions. An entry is created at GitHub, its contents are put
  to Azure in blocks, a list of the blocks makes the blob, and GitHub is told that it is complete.

  The writer is the state machine of \<open>AsyncWrite\<close>. Its uploads run in the background (\<open>JoinSet\<close>): the ones that run,
  and the results of those that have ended, in the order in which they did. The requests that Azure and GitHub
  have accepted are kept in order. Base64 is a parameter. A join error counts as the failure of the upload.
\<close>

section \<open>Requests\<close>

datatype github_request =
    GetDownloadURL ustr
  | CreateEntry ustr
  | GetBlob ustr
  | PutBlock ustr bytes
  | PutBlockList "ustr list"
  | FinalizeUpload ustr nat

text \<open>A reply that was read; an error status, or one that is not what was asked for, is no reply.\<close>

datatype github_reply =
    DownloadURL bool ustr
  | EntryCreated bool ustr
  | BlobContents bytes

type_synonym 's github_service = "github_request \<Rightarrow> 's \<Rightarrow> github_reply option \<times> 's"

section \<open>The keys\<close>

definition CACHE_PREFIX :: ustr where
  "CACHE_PREFIX = ustr ''serpentine-''"

definition hash_to_key :: "(bytes \<Rightarrow> ustr) \<Rightarrow> bytes \<Rightarrow> ustr" where
  "hash_to_key base64_url key = CACHE_PREFIX @ base64_url key"

definition get_reader_for_github_key :: "'s github_service \<Rightarrow> ustr \<Rightarrow> 's \<Rightarrow> bytes option \<times> 's" where
  "get_reader_for_github_key serve key s = (case serve (GetDownloadURL key) s of
       (Some (DownloadURL True signed_download_url), s) \<Rightarrow> (case serve (GetBlob signed_download_url) s of
           (Some (BlobContents b), s) \<Rightarrow> (Some b, s)
         | (_, s) \<Rightarrow> (None, s))
     | (_, s) \<Rightarrow> (None, s))"

text \<open>The URL to put the blocks to.\<close>

definition create_writer_for_github_key :: "'s github_service \<Rightarrow> ustr \<Rightarrow> 's \<Rightarrow> ustr option \<times> 's" where
  "create_writer_for_github_key serve key s = (case get_reader_for_github_key serve key s of
       (Some _, s) \<Rightarrow> (None, s)
     | (None, s) \<Rightarrow> (case serve (CreateEntry key) s of
           (Some (EntryCreated True signed_upload_url), s) \<Rightarrow> (Some signed_upload_url, s)
         | (_, s) \<Rightarrow> (None, s)))"

definition github_read_key :: "(bytes \<Rightarrow> ustr) \<Rightarrow> 's github_service \<Rightarrow> bytes \<Rightarrow> 's \<Rightarrow> bytes option \<times> 's" where
  "github_read_key base64_url serve key = get_reader_for_github_key serve (hash_to_key base64_url key)"

definition github_write_key :: "(bytes \<Rightarrow> ustr) \<Rightarrow> 's github_service \<Rightarrow> bytes \<Rightarrow> bytes set \<Rightarrow> 's \<Rightarrow> ustr option \<times> bytes set \<times> 's" where
  "github_write_key base64_url serve key locks s =
     (if key \<in> locks then (None, locks, s)
      else let (writer, s) = create_writer_for_github_key serve (hash_to_key base64_url key) s in (writer, insert key locks, s))"

section \<open>The writer\<close>

definition BLOCK_SIZE :: nat where
  "BLOCK_SIZE = 1024 * 1024 * 32"

definition MINIMUM_BLOCK_SIZE :: nat where
  "MINIMUM_BLOCK_SIZE = 1024 * 1024 * 5"

definition CONCURRENT_UPLOADS :: nat where
  "CONCURRENT_UPLOADS = 4"

text \<open>The commits carry the request that is on its way and its answer, once there is one.\<close>

datatype shutdown_state =
    ShutdownFlush
  | CommittingAzure "ustr list" "bool option"
  | CommittingGithub nat "bool option"
  | ShutdownDone

record blob_writer =
  bw_buffer :: bytes
  bw_running :: "(ustr \<times> bytes) list"
  bw_ended :: "bool list"
  bytes_written :: nat
  block_id_counter :: nat
  shutdown_state :: "shutdown_state option"

definition blob_writer_new :: blob_writer where
  "blob_writer_new = \<lparr>bw_buffer = [], bw_running = [], bw_ended = [], bytes_written = 0, block_id_counter = 0,
     shutdown_state = None\<rparr>"

definition padded_index :: "nat \<Rightarrow> ustr" where
  "padded_index index = replicate (12 - length (dec index)) 48 @ ustr (dec index)"

definition raw_block_id :: "nat \<Rightarrow> ustr" where
  "raw_block_id index = ustr ''00000000-0000-0000-0000-000000000000'' @ padded_index index"

definition generate_block_id :: "(ustr \<Rightarrow> ustr) \<Rightarrow> nat \<Rightarrow> ustr" where
  "generate_block_id base64 index = base64 (raw_block_id index)"

text \<open>\<open>saturating_add\<close> on \<open>u16\<close> and \<open>u64\<close>.\<close>

definition saturating :: "nat \<Rightarrow> nat \<Rightarrow> nat \<Rightarrow> nat" where
  "saturating bits a b = min (a + b) (2 ^ bits - 1)"

definition get_next_block_id :: "(ustr \<Rightarrow> ustr) \<Rightarrow> blob_writer \<Rightarrow> ustr \<times> blob_writer" where
  "get_next_block_id base64 w =
     (generate_block_id base64 (block_id_counter w), w\<lparr>block_id_counter := saturating 16 (block_id_counter w) 1\<rparr>)"

definition get_block_ids :: "(ustr \<Rightarrow> ustr) \<Rightarrow> blob_writer \<Rightarrow> ustr list" where
  "get_block_ids base64 w = map (generate_block_id base64) [0..<block_id_counter w]"

definition upload_buffer :: "(ustr \<Rightarrow> ustr) \<Rightarrow> blob_writer \<Rightarrow> blob_writer" where
  "upload_buffer base64 w =
     (if bw_buffer w = [] then w
      else let buffer = bw_buffer w;
               w = w\<lparr>bw_buffer := [], bytes_written := saturating 64 (bytes_written w) (length buffer)\<rparr>;
               (block_id, w) = get_next_block_id base64 w
           in w\<lparr>bw_running := bw_running w @ [(block_id, buffer)]\<rparr>)"

definition uploads :: "blob_writer \<Rightarrow> nat" where
  "uploads w = length (bw_running w) + length (bw_ended w)"

text \<open>\<open>poll_join_next\<close>: the next result, \<open>None\<close> if there are no uploads.\<close>

definition poll_join_next :: "blob_writer \<Rightarrow> bool option poll \<times> blob_writer" where
  "poll_join_next w = (case bw_ended w of
       r # rs \<Rightarrow> (Ready (Some r), w\<lparr>bw_ended := rs\<rparr>)
     | [] \<Rightarrow> (if bw_running w = [] then Ready None else Pending, w))"

datatype blob_error = WriteAfterShutdown | UploadFailed | CommitFailed

definition take_bytes :: "(ustr \<Rightarrow> ustr) \<Rightarrow> bytes \<Rightarrow> blob_writer \<Rightarrow> (blob_error, nat) outcome poll \<times> blob_writer" where
  "take_bytes base64 buf w =
     (let written = min (length buf) (BLOCK_SIZE - length (bw_buffer w));
          w = w\<lparr>bw_buffer := bw_buffer w @ take written buf\<rparr>;
          w = (if BLOCK_SIZE \<le> length (bw_buffer w) then upload_buffer base64 w else w)
      in (Ready (Ok written), w))"

definition blob_write :: "(ustr \<Rightarrow> ustr) \<Rightarrow> bytes \<Rightarrow> blob_writer \<Rightarrow> (blob_error, nat) outcome poll \<times> blob_writer" where
  "blob_write base64 buf w =
     (if shutdown_state w \<noteq> None then (Ready (Err WriteAfterShutdown), w)
      else case poll_join_next w of
          (Ready (Some False), w) \<Rightarrow> (Ready (Err UploadFailed), w)
        | (Pending, w) \<Rightarrow> if CONCURRENT_UPLOADS \<le> uploads w then (Pending, w) else take_bytes base64 buf w
        | (_, w) \<Rightarrow> take_bytes base64 buf w)"

text \<open>The loop of \<open>poll_flush\<close> over the results that are there.\<close>

fun drain :: "bool list \<Rightarrow> blob_writer \<Rightarrow> (blob_error, unit) outcome poll \<times> blob_writer" where
  "drain [] w = (if bw_running w = [] then Ready (Ok ()) else Pending, w\<lparr>bw_ended := []\<rparr>)"
| "drain (True # rs) w = drain rs w"
| "drain (False # rs) w = (Ready (Err UploadFailed), w\<lparr>bw_ended := rs\<rparr>)"

definition blob_flush :: "(ustr \<Rightarrow> ustr) \<Rightarrow> blob_writer \<Rightarrow> (blob_error, unit) outcome poll \<times> blob_writer" where
  "blob_flush base64 w =
     (let w = (if MINIMUM_BLOCK_SIZE \<le> length (bw_buffer w) then upload_buffer base64 w else w)
      in drain (bw_ended w) w)"

text \<open>The iterations of the loop of \<open>poll_shutdown\<close>, which goes on where a state is left.\<close>

definition commit_github :: "blob_writer \<Rightarrow> (blob_error, unit) outcome poll \<times> blob_writer" where
  "commit_github w = (case shutdown_state w of
       Some (CommittingGithub sz answer) \<Rightarrow> (case answer of
           None \<Rightarrow> (Pending, w)
         | Some False \<Rightarrow> (Ready (Err CommitFailed), w)
         | Some True \<Rightarrow> (Ready (Ok ()), w\<lparr>shutdown_state := Some ShutdownDone\<rparr>))
     | _ \<Rightarrow> (Ready (Ok ()), w))"

definition commit_azure :: "blob_writer \<Rightarrow> (blob_error, unit) outcome poll \<times> blob_writer" where
  "commit_azure w = (case shutdown_state w of
       Some (CommittingAzure ids answer) \<Rightarrow> (case answer of
           None \<Rightarrow> (Pending, w)
         | Some False \<Rightarrow> (Ready (Err CommitFailed), w)
         | Some True \<Rightarrow> commit_github (w\<lparr>shutdown_state := Some (CommittingGithub (bytes_written w) None)\<rparr>))
     | _ \<Rightarrow> commit_github w)"

definition blob_shutdown :: "(ustr \<Rightarrow> ustr) \<Rightarrow> blob_writer \<Rightarrow> (blob_error, unit) outcome poll \<times> blob_writer" where
  "blob_shutdown base64 w =
     (let w = (if shutdown_state w = None then w\<lparr>shutdown_state := Some ShutdownFlush\<rparr> else w) in
      if shutdown_state w = Some ShutdownFlush then
        (case blob_flush base64 (upload_buffer base64 w) of
           (Ready (Ok _), w) \<Rightarrow> commit_azure (w\<lparr>shutdown_state := Some (CommittingAzure (get_block_ids base64 w) None)\<rparr>)
         | r \<Rightarrow> r)
      else commit_azure w)"

section \<open>What happens to a writer\<close>

text \<open>What Azure documents of a blob: the blocks of the list, each as it was put last before. The list is refused if
  a block is not there.\<close>

fun put_last :: "github_request list \<Rightarrow> ustr \<Rightarrow> bytes option" where
  "put_last [] i = None"
| "put_last (PutBlock j b # log) i = (case put_last log i of Some b' \<Rightarrow> Some b' | None \<Rightarrow> if i = j then Some b else None)"
| "put_last (r # log) i = put_last log i"

text \<open>
  A writer in use, with the requests accepted so far and the bytes that \<open>poll_write\<close> said were written. Uploads end
  in any order; one that is given up may have been stored all the same.
\<close>

record blob_run =
  br_writer :: blob_writer
  br_log :: "github_request list"
  br_accepted :: bytes

inductive blob_step :: "(ustr \<Rightarrow> ustr) \<Rightarrow> ustr \<Rightarrow> blob_run \<Rightarrow> blob_run \<Rightarrow> bool" for base64 key where
  step_write: "blob_write base64 buf (br_writer s) = (r, w) \<Longrightarrow>
    blob_step base64 key s (s\<lparr>br_writer := w, br_accepted := br_accepted s @ (case r of Ready (Ok n) \<Rightarrow> take n buf | _ \<Rightarrow> [])\<rparr>)"
| step_flush: "blob_flush base64 (br_writer s) = (r, w) \<Longrightarrow> blob_step base64 key s (s\<lparr>br_writer := w\<rparr>)"
| step_close: "blob_shutdown base64 (br_writer s) = (r, w) \<Longrightarrow> blob_step base64 key s (s\<lparr>br_writer := w\<rparr>)"
| step_upload: "bw_running (br_writer s) = before @ (i, b) # after \<Longrightarrow> (ok \<longrightarrow> stored) \<Longrightarrow>
    blob_step base64 key s (s\<lparr>br_writer := (br_writer s)\<lparr>bw_running := before @ after, bw_ended := bw_ended (br_writer s) @ [ok]\<rparr>,
      br_log := br_log s @ (if stored then [PutBlock i b] else [])\<rparr>)"
| step_azure: "shutdown_state (br_writer s) = Some (CommittingAzure ids None) \<Longrightarrow>
    (ok \<longrightarrow> stored) \<Longrightarrow> (stored \<longrightarrow> (\<forall>i \<in> set ids. put_last (br_log s) i \<noteq> None)) \<Longrightarrow>
    blob_step base64 key s (s\<lparr>br_writer := (br_writer s)\<lparr>shutdown_state := Some (CommittingAzure ids (Some ok))\<rparr>,
      br_log := br_log s @ (if stored then [PutBlockList ids] else [])\<rparr>)"
| step_github: "shutdown_state (br_writer s) = Some (CommittingGithub sz None) \<Longrightarrow> (ok \<longrightarrow> stored) \<Longrightarrow>
    blob_step base64 key s (s\<lparr>br_writer := (br_writer s)\<lparr>shutdown_state := Some (CommittingGithub sz (Some ok))\<rparr>,
      br_log := br_log s @ (if stored then [FinalizeUpload key sz] else [])\<rparr>)"

inductive_cases blob_stepE: "blob_step base64 key s s'"

definition blob_start :: blob_run where
  "blob_start = \<lparr>br_writer = blob_writer_new, br_log = [], br_accepted = []\<rparr>"

text \<open>The blob after some requests, here the last first: what the last list of blocks names.\<close>

fun last_blob :: "github_request list \<Rightarrow> bytes option" where
  "last_blob [] = None"
| "last_blob (PutBlockList ids # before) = Some (concat (map (\<lambda>i. case put_last (rev before) i of Some b \<Rightarrow> b | None \<Rightarrow> []) ids))"
| "last_blob (r # before) = last_blob before"

definition blob_of :: "github_request list \<Rightarrow> bytes option" where
  "blob_of log = last_blob (rev log)"

lemma blob_of_snoc [simp]:
  "blob_of (log @ [PutBlockList ids]) = Some (concat (map (\<lambda>i. case put_last log i of Some b \<Rightarrow> b | None \<Rightarrow> []) ids))"
  "blob_of (log @ [PutBlock i b]) = blob_of log" "blob_of (log @ [FinalizeUpload k n]) = blob_of log"
  by (simp_all add: blob_of_def)

lemma put_last_mem: "put_last log i = Some b \<Longrightarrow> PutBlock i b \<in> set log"
  by (induction log i rule: put_last.induct) (auto split: option.split_asm if_split_asm)

section \<open>Invariant\<close>

text \<open>The blocks cut so far are named by their positions, whether they are on their way or stored.\<close>

definition block_at :: "(ustr \<Rightarrow> ustr) \<Rightarrow> bytes list \<Rightarrow> ustr \<Rightarrow> bytes \<Rightarrow> bool" where
  "block_at base64 blocks i b \<longleftrightarrow> (\<exists>k < length blocks. i = generate_block_id base64 k \<and> b = blocks ! k)"

definition blocks_ok :: "(ustr \<Rightarrow> ustr) \<Rightarrow> blob_writer \<Rightarrow> github_request list \<Rightarrow> bytes \<Rightarrow> bytes list \<Rightarrow> bool" where
  "blocks_ok base64 w log acc blocks \<longleftrightarrow>
     acc = concat blocks @ bw_buffer w \<and> block_id_counter w = length blocks \<and> bytes_written w = length (concat blocks) \<and>
     (\<forall>(i, b) \<in> set (bw_running w). block_at base64 blocks i b) \<and>
     (\<forall>i b. PutBlock i b \<in> set log \<longrightarrow> block_at base64 blocks i b) \<and>
     (\<forall>b \<in> set (butlast blocks). MINIMUM_BLOCK_SIZE \<le> length b) \<and> uploads w \<le> CONCURRENT_UPLOADS \<and>
     (bw_buffer w \<noteq> [] \<longrightarrow> (\<forall>b \<in> set blocks. MINIMUM_BLOCK_SIZE \<le> length b) \<and> uploads w < CONCURRENT_UPLOADS)"

definition status_ok :: "(ustr \<Rightarrow> ustr) \<Rightarrow> ustr \<Rightarrow> blob_writer \<Rightarrow> github_request list \<Rightarrow> bytes list \<Rightarrow> bool" where
  "status_ok base64 key w log blocks \<longleftrightarrow> (case shutdown_state w of
       None \<Rightarrow> length (bw_buffer w) < BLOCK_SIZE \<and> (\<forall>b \<in> set blocks. MINIMUM_BLOCK_SIZE \<le> length b)
     | Some st \<Rightarrow> bw_buffer w = [] \<and> (case st of
           ShutdownFlush \<Rightarrow> True
         | CommittingAzure ids answer \<Rightarrow>
             ids = get_block_ids base64 w \<and> bw_running w = [] \<and> (answer = Some True \<longrightarrow> blob_of log = Some (concat blocks))
         | CommittingGithub sz answer \<Rightarrow> sz = length (concat blocks) \<and> bw_running w = [] \<and> blob_of log = Some (concat blocks) \<and>
             (answer = Some True \<longrightarrow> FinalizeUpload key sz \<in> set log)
         | ShutdownDone \<Rightarrow> bw_running w = [] \<and> blob_of log = Some (concat blocks) \<and> FinalizeUpload key (length (concat blocks)) \<in> set log))"

definition blob_inv :: "(ustr \<Rightarrow> ustr) \<Rightarrow> ustr \<Rightarrow> blob_run \<Rightarrow> bytes list \<Rightarrow> bool" where
  "blob_inv base64 key s blocks \<longleftrightarrow> blocks_ok base64 (br_writer s) (br_log s) (br_accepted s) blocks \<and>
     status_ok base64 key (br_writer s) (br_log s) blocks"

lemma block_at_more: "block_at base64 blocks i b \<Longrightarrow> block_at base64 (blocks @ [c]) i b"
  unfolding block_at_def by (metis length_append_singleton less_Suc_eq nth_append)

lemma total_bound:
  "\<forall>b \<in> set (butlast blocks). m \<le> length b \<Longrightarrow> (length blocks - 1) * m \<le> length (concat blocks)"
proof -
  have "length xs * m \<le> length (concat xs)" if "\<forall>b \<in> set xs. m \<le> length b" for xs :: "'a list list"
    using that by (induction xs) auto
  moreover assume "\<forall>b \<in> set (butlast blocks). m \<le> length b"
  moreover have "length (concat (butlast blocks)) \<le> length (concat blocks)"
    by (cases blocks rule: rev_cases) simp_all
  ultimately show ?thesis by (metis le_trans length_butlast)
qed

text \<open>Up to 256 GiB, more than any cache holds, neither counter saturates.\<close>

lemma counters_exact:
  assumes "\<forall>b \<in> set (butlast blocks). MINIMUM_BLOCK_SIZE \<le> length b" "length (concat blocks) < 2 ^ 38"
  shows "saturating 16 (length blocks) 1 = Suc (length blocks)" "n < 2 ^ 38 \<Longrightarrow> saturating 64 (length (concat blocks)) n = length (concat blocks) + n"
  using total_bound [OF assms(1)] assms(2) by (auto simp: saturating_def MINIMUM_BLOCK_SIZE_def)

lemma upload_ok:
  assumes ok: "blocks_ok base64 w log acc blocks" and full: "bw_buffer w \<noteq> []" and small: "length acc < 2 ^ 38"
  shows "blocks_ok base64 (upload_buffer base64 w) log acc (blocks @ [bw_buffer w]) \<and> bw_buffer (upload_buffer base64 w) = [] \<and>
    shutdown_state (upload_buffer base64 w) = shutdown_state w \<and> bw_ended (upload_buffer base64 w) = bw_ended w"
proof -
  have c: "saturating 16 (length blocks) 1 = Suc (length blocks)"
      "saturating 64 (length (concat blocks)) (length (bw_buffer w)) = length (concat blocks) + length (bw_buffer w)"
    using ok small by (auto simp: blocks_ok_def intro!: counters_exact simp del: One_nat_def)
  have "block_at base64 (blocks @ [bw_buffer w]) (generate_block_id base64 (length blocks)) (bw_buffer w)"
    by (auto simp: block_at_def intro!: exI [of _ "length blocks"])
  with ok full c show ?thesis
    by (auto simp: blocks_ok_def upload_buffer_def get_next_block_id_def uploads_def Let_def block_at_more)
qed

section \<open>The names of blocks\<close>

lemma raw_block_id_inj: "raw_block_id i = raw_block_id j \<Longrightarrow> i = j"
proof -
  have zeros: "digits_value 0 (replicate n 48) = 0" for n by (induction n) auto
  have "digits_value 0 (padded_index k) = k" for k
    by (simp add: padded_index_def digits_value_append zeros digits_value_dec)
  moreover assume "raw_block_id i = raw_block_id j"
  then have "padded_index i = padded_index j" unfolding raw_block_id_def by simp
  ultimately show ?thesis by metis
qed

lemma block_id_inj: "inj base64 \<Longrightarrow> generate_block_id base64 i = generate_block_id base64 j \<Longrightarrow> i = j"
  by (auto simp: generate_block_id_def dest: injD raw_block_id_inj)

lemma stored_blocks:
  assumes "inj base64" "\<forall>i b. PutBlock i b \<in> set log \<longrightarrow> block_at base64 blocks i b" "block_id_counter w = length blocks"
    "\<forall>i \<in> set (get_block_ids base64 w). put_last log i \<noteq> None"
  shows "map (\<lambda>i. case put_last log i of Some b \<Rightarrow> b | None \<Rightarrow> []) (get_block_ids base64 w) = blocks"
proof (rule nth_equalityI)
  fix k assume "k < length (map (\<lambda>i. case put_last log i of Some b \<Rightarrow> b | None \<Rightarrow> []) (get_block_ids base64 w))"
  then have k: "k < length blocks" using assms(3) by (simp add: get_block_ids_def)
  then obtain b where b: "put_last log (generate_block_id base64 k) = Some b"
    using assms(3,4) by (fastforce simp: get_block_ids_def)
  then have "b = blocks ! k" using assms(2) put_last_mem block_id_inj [OF assms(1)] unfolding block_at_def by metis
  with b k assms(3) show "map (\<lambda>i. case put_last log i of Some b \<Rightarrow> b | None \<Rightarrow> []) (get_block_ids base64 w) ! k = blocks ! k"
    by (simp add: get_block_ids_def)
qed (simp add: get_block_ids_def assms(3))

section \<open>Preservation\<close>

lemma fewer_ok:
  "blocks_ok base64 w log acc blocks \<Longrightarrow> length rs \<le> length (bw_ended w) \<Longrightarrow> blocks_ok base64 (w\<lparr>bw_ended := rs\<rparr>) log acc blocks"
  unfolding blocks_ok_def uploads_def by simp linarith

lemma join_form:
  "poll_join_next w = (r, w') \<Longrightarrow> w' = w \<and> (bw_ended w = [] \<and> r = (if bw_running w = [] then Ready None else Pending)) \<or>
     (\<exists>x rs. bw_ended w = x # rs \<and> r = Ready (Some x) \<and> w' = w\<lparr>bw_ended := rs\<rparr>)"
  by (auto simp: poll_join_next_def split: list.split_asm)

lemma join_ok:
  assumes ok: "blocks_ok base64 w log acc blocks" and j: "poll_join_next w = (r, w')"
  shows "blocks_ok base64 w' log acc blocks \<and> bw_buffer w' = bw_buffer w \<and> shutdown_state w' = shutdown_state w \<and>
    (r = Pending \<or> uploads w' < CONCURRENT_UPLOADS)"
  using join_form [OF j]
proof (elim disjE exE conjE)
  fix x rs assume e: "bw_ended w = x # rs" "w' = w\<lparr>bw_ended := rs\<rparr>"
  then have "blocks_ok base64 w' log acc blocks" using fewer_ok [OF ok, of rs] by simp
  moreover have "uploads w \<le> CONCURRENT_UPLOADS" using ok by (simp add: blocks_ok_def)
  ultimately show ?thesis using e by (simp add: uploads_def)
qed (use ok in \<open>simp add: uploads_def CONCURRENT_UPLOADS_def\<close>)

lemma drain_form:
  "drain rs w = (r, w') \<Longrightarrow> \<exists>rs'. length rs' \<le> length rs \<and> w' = w\<lparr>bw_ended := rs'\<rparr> \<and> (r = Ready (Ok ()) \<longrightarrow> bw_running w = [])"
proof (induction rs w arbitrary: w' rule: drain.induct)
  case (2 rs w)
  from "2.IH" [of w'] "2.prems" obtain rs' where "length rs' \<le> length rs" "w' = w\<lparr>bw_ended := rs'\<rparr>"
      "r = Ready (Ok ()) \<longrightarrow> bw_running w = []"
    by auto
  then show ?case by (intro exI [of _ rs']) simp
next
  case (3 rs w)
  then show ?case by (auto intro!: exI [of _ rs])
qed (auto split: if_split_asm)

lemma drain_ok:
  assumes "blocks_ok base64 w log acc blocks" "drain (bw_ended w) w = (r, w')"
  shows "blocks_ok base64 w' log acc blocks \<and> bw_buffer w' = bw_buffer w \<and> shutdown_state w' = shutdown_state w \<and>
    bw_running w' = bw_running w \<and> (r = Ready (Ok ()) \<longrightarrow> bw_running w = [])"
  using drain_form [OF assms(2)] fewer_ok [OF assms(1)] by auto

lemma accept_ok:
  assumes ok: "blocks_ok base64 w log acc blocks" and big: "\<forall>b \<in> set blocks. MINIMUM_BLOCK_SIZE \<le> length b"
    and room: "uploads w < CONCURRENT_UPLOADS"
  shows "blocks_ok base64 (w\<lparr>bw_buffer := bw_buffer w @ c\<rparr>) log (acc @ c) blocks"
  using assms by (auto simp: blocks_ok_def uploads_def)

lemma take_ok:
  assumes ok: "blocks_ok base64 w log acc blocks" and big: "\<forall>b \<in> set blocks. MINIMUM_BLOCK_SIZE \<le> length b"
    and room: "uploads w < CONCURRENT_UPLOADS" and buffer: "length (bw_buffer w) < BLOCK_SIZE" and st: "shutdown_state w = None"
    and take: "take_bytes base64 buf w = (r, w')" and small: "length (acc @ (case r of Ready (Ok n) \<Rightarrow> take n buf | _ \<Rightarrow> [])) < 2 ^ 38"
  shows "\<exists>blocks'. blocks_ok base64 w' log (acc @ (case r of Ready (Ok n) \<Rightarrow> take n buf | _ \<Rightarrow> [])) blocks' \<and> status_ok base64 key w' log blocks'"
proof -
  define n where "n = min (length buf) (BLOCK_SIZE - length (bw_buffer w))"
  define v where "v = w\<lparr>bw_buffer := bw_buffer w @ take n buf\<rparr>"
  have v: "blocks_ok base64 v log (acc @ take n buf) blocks" unfolding v_def using accept_ok [OF ok big room] .
  have r: "r = Ready (Ok n)" and w': "w' = (if BLOCK_SIZE \<le> length (bw_buffer v) then upload_buffer base64 v else v)"
    using take by (auto simp: take_bytes_def Let_def n_def v_def split: if_split_asm)
  show ?thesis
  proof (cases "BLOCK_SIZE \<le> length (bw_buffer v)")
    case True
    then have "bw_buffer v \<noteq> []" "MINIMUM_BLOCK_SIZE \<le> length (bw_buffer v)" by (auto simp: BLOCK_SIZE_def MINIMUM_BLOCK_SIZE_def)
    moreover from this have "blocks_ok base64 w' log (acc @ take n buf) (blocks @ [bw_buffer v])"
        "bw_buffer w' = [] \<and> shutdown_state w' = shutdown_state v"
      using upload_ok [OF v] small r w' True by auto
    ultimately show ?thesis using big st r
      by (intro exI [of _ "blocks @ [bw_buffer v]"]) (auto simp: status_ok_def v_def BLOCK_SIZE_def)
  next
    case False
    then show ?thesis using v big st r w' by (auto simp: status_ok_def v_def)
  qed
qed

lemma write_ok:
  assumes inv: "blob_inv base64 key s blocks" and w: "blob_write base64 buf (br_writer s) = (r, w)"
    and small: "length (br_accepted s @ (case r of Ready (Ok n) \<Rightarrow> take n buf | _ \<Rightarrow> [])) < 2 ^ 38"
  shows "\<exists>blocks'. blocks_ok base64 w (br_log s) (br_accepted s @ (case r of Ready (Ok n) \<Rightarrow> take n buf | _ \<Rightarrow> [])) blocks' \<and>
    status_ok base64 key w (br_log s) blocks'"
proof (cases "shutdown_state (br_writer s)")
  case (Some st)
  then show ?thesis using inv w by (auto simp: blob_write_def blob_inv_def)
next
  case None
  obtain p v where p: "poll_join_next (br_writer s) = (p, v)" by fastforce
  have v: "blocks_ok base64 v (br_log s) (br_accepted s) blocks" "shutdown_state v = None"
      "p = Pending \<or> uploads v < CONCURRENT_UPLOADS" and b: "bw_buffer v = bw_buffer (br_writer s)"
    using join_ok [OF _ p] inv None by (auto simp: blob_inv_def)
  have st: "length (bw_buffer v) < BLOCK_SIZE" "\<forall>b \<in> set blocks. MINIMUM_BLOCK_SIZE \<le> length b"
    using inv None b by (auto simp: blob_inv_def status_ok_def)
  have same: "status_ok base64 key v (br_log s) blocks" using v(2) st by (simp add: status_ok_def)
  have dispatch: "(r, w) = (case p of Ready (Some False) \<Rightarrow> (Ready (Err UploadFailed), v)
      | Pending \<Rightarrow> if CONCURRENT_UPLOADS \<le> uploads v then (Pending, v) else take_bytes base64 buf v | _ \<Rightarrow> take_bytes base64 buf v)"
    using w None unfolding blob_write_def p by simp
  consider (refused) "r = Ready (Err UploadFailed)" "w = v" | (full) "r = Pending" "w = v"
    | (taken) "uploads v < CONCURRENT_UPLOADS" "take_bytes base64 buf v = (r, w)"
  proof (cases p)
    case Pending
    then show ?thesis using dispatch that(2,3) by (cases "CONCURRENT_UPLOADS \<le> uploads v") simp_all
  next
    case (Ready x)
    then have room: "uploads v < CONCURRENT_UPLOADS" using v(3) by simp
    show ?thesis
    proof (cases "x = Some False")
      case True
      then show ?thesis using dispatch that(1) Ready by simp
    next
      case False
      then have "(r, w) = take_bytes base64 buf v" using dispatch Ready by (cases x) auto
      then show ?thesis using that(3) room by simp
    qed
  qed
  then show ?thesis
  proof cases
    case taken
    then show ?thesis using take_ok [OF v(1) st(2) _ st(1) v(2) _ small] by blast
  qed (use v(1) same in auto)
qed

text \<open>A flush; after the shutdown began there is nothing to upload.\<close>

lemma flush_form:
  assumes ok: "blocks_ok base64 w log acc blocks" and f: "blob_flush base64 w = (r, w')" and small: "length acc < 2 ^ 38"
  shows "\<exists>blocks'. blocks_ok base64 w' log acc blocks' \<and> shutdown_state w' = shutdown_state w \<and>
    (blocks' = blocks \<and> bw_buffer w' = bw_buffer w \<and> bw_running w' = bw_running w \<or>
     blocks' = blocks @ [bw_buffer w] \<and> MINIMUM_BLOCK_SIZE \<le> length (bw_buffer w) \<and> bw_buffer w' = []) \<and>
    (r = Ready (Ok ()) \<longrightarrow> bw_running w' = [])"
proof (cases "MINIMUM_BLOCK_SIZE \<le> length (bw_buffer w)")
  case True
  then have "bw_buffer w \<noteq> []" by (auto simp: MINIMUM_BLOCK_SIZE_def)
  note u = upload_ok [OF ok this small]
  have "drain (bw_ended (upload_buffer base64 w)) (upload_buffer base64 w) = (r, w')"
    using f True by (simp add: blob_flush_def Let_def)
  from drain_ok [OF conjunct1 [OF u] this] u True show ?thesis by (intro exI [of _ "blocks @ [bw_buffer w]"]) simp
next
  case False
  then have "drain (bw_ended w) w = (r, w')" using f by (simp add: blob_flush_def Let_def)
  from drain_ok [OF ok this] show ?thesis by (intro exI [of _ blocks]) simp
qed

lemma flush_ok:
  assumes inv: "blob_inv base64 key s blocks" and f: "blob_flush base64 (br_writer s) = (r, w)" and small: "length (br_accepted s) < 2 ^ 38"
  shows "\<exists>blocks'. blocks_ok base64 w (br_log s) (br_accepted s) blocks' \<and> status_ok base64 key w (br_log s) blocks'"
proof -
  have ok: "blocks_ok base64 (br_writer s) (br_log s) (br_accepted s) blocks" and st: "status_ok base64 key (br_writer s) (br_log s) blocks"
    using inv by (simp_all add: blob_inv_def)
  obtain blocks' where b: "blocks_ok base64 w (br_log s) (br_accepted s) blocks'" "shutdown_state w = shutdown_state (br_writer s)"
      "blocks' = blocks \<and> bw_buffer w = bw_buffer (br_writer s) \<and> bw_running w = bw_running (br_writer s) \<or>
       blocks' = blocks @ [bw_buffer (br_writer s)] \<and> MINIMUM_BLOCK_SIZE \<le> length (bw_buffer (br_writer s)) \<and> bw_buffer w = []"
    using flush_form [OF ok f small] by blast
  from b(3) have "status_ok base64 key w (br_log s) blocks'"
  proof (elim disjE conjE)
    assume same: "blocks' = blocks" "bw_buffer w = bw_buffer (br_writer s)" "bw_running w = bw_running (br_writer s)"
    moreover have "get_block_ids base64 w = get_block_ids base64 (br_writer s)"
      using b(1) ok same(1) by (simp add: get_block_ids_def blocks_ok_def)
    ultimately show ?thesis using st b(2) unfolding status_ok_def by (simp split: option.splits shutdown_state.splits)
  next
    assume cut: "blocks' = blocks @ [bw_buffer (br_writer s)]" "MINIMUM_BLOCK_SIZE \<le> length (bw_buffer (br_writer s))" "bw_buffer w = []"
    then have "shutdown_state (br_writer s) = None"
      using st by (auto simp: status_ok_def MINIMUM_BLOCK_SIZE_def split: option.split_asm)
    then show ?thesis using st b(2) cut by (auto simp: status_ok_def BLOCK_SIZE_def)
  qed
  with b(1) show ?thesis by blast
qed

text \<open>The iterations after the flush.\<close>

lemma commit_github_ok:
  assumes "blocks_ok base64 w log acc blocks" "status_ok base64 key w log blocks" "commit_github w = (r, w')"
  shows "blocks_ok base64 w' log acc blocks \<and> status_ok base64 key w' log blocks"
  using assms
  by (auto simp: commit_github_def blocks_ok_def uploads_def status_ok_def
      split: option.split_asm shutdown_state.split_asm bool.split_asm)

lemma commit_azure_ok:
  assumes ok: "blocks_ok base64 w log acc blocks" and st: "status_ok base64 key w log blocks" and c: "commit_azure w = (r, w')"
  shows "blocks_ok base64 w' log acc blocks \<and> status_ok base64 key w' log blocks"
proof (cases "\<exists>ids. shutdown_state w = Some (CommittingAzure ids (Some True))")
  case True
  let ?v = "w\<lparr>shutdown_state := Some (CommittingGithub (bytes_written w) None)\<rparr>"
  have "blocks_ok base64 ?v log acc blocks" using ok unfolding blocks_ok_def uploads_def by simp
  moreover have "status_ok base64 key ?v log blocks" using st ok True by (auto simp: status_ok_def blocks_ok_def)
  moreover have "commit_github ?v = (r, w')" using c True by (auto simp: commit_azure_def)
  ultimately show ?thesis by (rule commit_github_ok)
next
  case False
  then consider "commit_github w = (r, w')" | "w' = w"
    using c by (auto simp: commit_azure_def split: option.split_asm shutdown_state.split_asm bool.split_asm)
  then show ?thesis using commit_github_ok [OF ok st] ok st by cases auto
qed

lemma blocks_ok_state: "blocks_ok base64 (w\<lparr>shutdown_state := st\<rparr>) log acc blocks \<longleftrightarrow> blocks_ok base64 w log acc blocks"
  by (simp add: blocks_ok_def uploads_def)

lemma close_ok:
  assumes ok: "blocks_ok base64 w log acc blocks" and st: "status_ok base64 key w log blocks"
    and c: "blob_shutdown base64 w = (r, w')" and small: "length acc < 2 ^ 38"
  shows "\<exists>blocks'. blocks_ok base64 w' log acc blocks' \<and> status_ok base64 key w' log blocks'"
proof (cases "shutdown_state w = None \<or> shutdown_state w = Some ShutdownFlush")
  case False
  then have "commit_azure w = (r, w')" using c by (auto simp: blob_shutdown_def)
  then show ?thesis using commit_azure_ok [OF ok st] by blast
next
  case True
  define v where "v = w\<lparr>shutdown_state := Some ShutdownFlush\<rparr>"
  have v: "blocks_ok base64 v log acc blocks" using ok by (simp add: v_def blocks_ok_state)
  have vf: "shutdown_state v = Some ShutdownFlush" by (simp add: v_def)
  have "(if shutdown_state w = None then w\<lparr>shutdown_state := Some ShutdownFlush\<rparr> else w) = v"
    using True by (cases w) (auto simp: v_def)
  then have c: "(case blob_flush base64 (upload_buffer base64 v) of
      (Ready (Ok _), w) \<Rightarrow> commit_azure (w\<lparr>shutdown_state := Some (CommittingAzure (get_block_ids base64 w) None)\<rparr>)
    | r \<Rightarrow> r) = (r, w')"
    using c vf by (simp add: blob_shutdown_def Let_def)
  obtain b1 where u: "blocks_ok base64 (upload_buffer base64 v) log acc b1" "bw_buffer (upload_buffer base64 v) = []"
      "shutdown_state (upload_buffer base64 v) = Some ShutdownFlush"
  proof (cases "bw_buffer v = []")
    case empty: True
    then show ?thesis using that [of blocks] v vf by (simp add: upload_buffer_def)
  next
    case False
    then show ?thesis using that [of "blocks @ [bw_buffer v]"] upload_ok [OF v _ small] vf by simp
  qed
  obtain q x where q: "blob_flush base64 (upload_buffer base64 v) = (q, x)" by fastforce
  have x: "blocks_ok base64 x log acc b1" "shutdown_state x = Some ShutdownFlush" "bw_buffer x = []"
      "q = Ready (Ok ()) \<longrightarrow> bw_running x = []"
    using flush_form [OF u(1) q small] u(2,3) by (auto simp: MINIMUM_BLOCK_SIZE_def)
  show ?thesis
  proof (cases "q = Ready (Ok ())")
    case True
    let ?y = "x\<lparr>shutdown_state := Some (CommittingAzure (get_block_ids base64 x) None)\<rparr>"
    have "blocks_ok base64 ?y log acc b1" using x(1) by (simp add: blocks_ok_state)
    moreover have "status_ok base64 key ?y log b1" using x True by (simp add: status_ok_def get_block_ids_def)
    moreover have "commit_azure ?y = (r, w')" using c q True by simp
    ultimately show ?thesis using commit_azure_ok by blast
  next
    case False
    then have "w' = x" using c q by (auto split: poll.split_asm outcome.split_asm)
    then show ?thesis using x by (auto simp: status_ok_def)
  qed
qed

text \<open>What goes on outside the writer.\<close>

lemma upload_end_ok:
  assumes inv: "blob_inv base64 key s blocks" and run: "bw_running (br_writer s) = before @ (i, b) # after"
  shows "blob_inv base64 key (s\<lparr>br_writer := (br_writer s)\<lparr>bw_running := before @ after, bw_ended := bw_ended (br_writer s) @ [ok]\<rparr>,
    br_log := br_log s @ (if stored then [PutBlock i b] else [])\<rparr>) blocks"
proof -
  have "block_at base64 blocks i b" using inv run by (auto simp: blob_inv_def blocks_ok_def)
  then show ?thesis
    using inv run
    by (auto simp: blob_inv_def blocks_ok_def uploads_def status_ok_def split: option.split_asm shutdown_state.split_asm)
qed

lemma azure_ok:
  assumes inv: "blob_inv base64 key s blocks" and i: "inj base64"
    and st: "shutdown_state (br_writer s) = Some (CommittingAzure ids None)" and "ok \<longrightarrow> stored"
    and there: "stored \<longrightarrow> (\<forall>i \<in> set ids. put_last (br_log s) i \<noteq> None)"
  shows "blob_inv base64 key (s\<lparr>br_writer := (br_writer s)\<lparr>shutdown_state := Some (CommittingAzure ids (Some ok))\<rparr>,
    br_log := br_log s @ (if stored then [PutBlockList ids] else [])\<rparr>) blocks"
proof -
  have ids: "ids = get_block_ids base64 (br_writer s)" using inv st by (simp add: blob_inv_def status_ok_def)
  have "concat (map (\<lambda>i. case put_last (br_log s) i of Some b \<Rightarrow> b | None \<Rightarrow> []) ids) = concat blocks" if stored
    using stored_blocks [OF i, of "br_log s" blocks "br_writer s"] inv there ids that by (simp add: blob_inv_def blocks_ok_def)
  then show ?thesis
    using inv st ids \<open>ok \<longrightarrow> stored\<close>
    by (auto simp: blob_inv_def blocks_ok_def uploads_def status_ok_def get_block_ids_def)
qed

lemma github_ok:
  assumes inv: "blob_inv base64 key s blocks"
    and st: "shutdown_state (br_writer s) = Some (CommittingGithub sz None)" and "ok \<longrightarrow> stored"
  shows "blob_inv base64 key (s\<lparr>br_writer := (br_writer s)\<lparr>shutdown_state := Some (CommittingGithub sz (Some ok))\<rparr>,
    br_log := br_log s @ (if stored then [FinalizeUpload key sz] else [])\<rparr>) blocks"
  using inv st \<open>ok \<longrightarrow> stored\<close> by (auto simp: blob_inv_def blocks_ok_def uploads_def status_ok_def)

lemma accepted_grows: "blob_step base64 key s s' \<Longrightarrow> length (br_accepted s) \<le> length (br_accepted s')"
  by (erule blob_stepE) (auto split: poll.split outcome.split)

lemma blob_step_inv:
  assumes "blob_inv base64 key s blocks" "inj base64" "blob_step base64 key s s'" "length (br_accepted s') < 2 ^ 38"
  shows "\<exists>blocks'. blob_inv base64 key s' blocks'"
  using assms(3)
proof cases
  case (step_write buf r w)
  then show ?thesis using write_ok [OF assms(1), of buf r w] assms(4) by (simp add: blob_inv_def)
next
  case (step_flush r w)
  then show ?thesis using flush_ok [OF assms(1), of r w] assms(4) by (simp add: blob_inv_def)
next
  case (step_close r w)
  then show ?thesis using close_ok [of base64 "br_writer s" "br_log s" "br_accepted s" blocks key r w] assms(1,4)
    by (simp add: blob_inv_def)
next
  case (step_upload before i b after ok stored)
  then show ?thesis using upload_end_ok [OF assms(1)] by blast
next
  case (step_azure ids ok stored)
  then show ?thesis using azure_ok [OF assms(1,2)] by blast
next
  case (step_github sz ok stored)
  then show ?thesis using github_ok [OF assms(1)] by blast
qed

lemma blob_runs_inv:
  assumes "(blob_step base64 key)\<^sup>*\<^sup>* blob_start s" "inj base64" "length (br_accepted s) < 2 ^ 38"
  shows "\<exists>blocks. blob_inv base64 key s blocks"
  using assms
proof (induction rule: rtranclp_induct)
  case base
  have "blob_inv base64 key blob_start []"
    by (simp add: blob_inv_def blocks_ok_def status_ok_def blob_start_def blob_writer_new_def uploads_def CONCURRENT_UPLOADS_def BLOCK_SIZE_def)
  then show ?case ..
next
  case (step s s')
  then have "\<exists>blocks. blob_inv base64 key s blocks" using accepted_grows by fastforce
  with step show ?case using blob_step_inv by blast
qed

section \<open>Properties\<close>

text \<open>C15: An upload whose shutdown has ended is complete. However the writes, flushes and polls of the shutdown were mixed,
  in whatever order the background uploads ended and whichever of them failed on the way, the blob that Azure has
  is exactly the bytes that were accepted, in order, and GitHub was told that it is finished, with its length.
  The hypotheses: base64 is injective, and fewer than 256 GiB were written.\<close>
theorem upload_complete:
  assumes "(blob_step base64 key)\<^sup>*\<^sup>* blob_start s" "inj base64" "length (br_accepted s) < 2 ^ 38"
    "shutdown_state (br_writer s) = Some ShutdownDone"
  shows "blob_of (br_log s) = Some (br_accepted s) \<and> FinalizeUpload key (length (br_accepted s)) \<in> set (br_log s)"
proof -
  obtain blocks where "blob_inv base64 key s blocks" using blob_runs_inv [OF assms(1-3)] ..
  then show ?thesis using assms(4) by (auto simp: blob_inv_def blocks_ok_def status_ok_def)
qed

text \<open>C20: The uploads keep to their bounds. There are never more than \<open>CONCURRENT_UPLOADS\<close> of them, the buffer never holds more
  than \<open>BLOCK_SIZE\<close> bytes, and of the blocks that were put, each one but the last is of the minimal size
  that other stores ask for.\<close>
theorem uploads_bounded:
  assumes "(blob_step base64 key)\<^sup>*\<^sup>* blob_start s" "inj base64" "length (br_accepted s) < 2 ^ 38"
  shows "uploads (br_writer s) \<le> CONCURRENT_UPLOADS \<and> length (bw_buffer (br_writer s)) \<le> BLOCK_SIZE \<and>
    (\<forall>i b. PutBlock i b \<in> set (br_log s) \<longrightarrow>
      MINIMUM_BLOCK_SIZE \<le> length b \<or> i = generate_block_id base64 (block_id_counter (br_writer s) - 1))"
proof -
  obtain blocks where inv: "blob_inv base64 key s blocks" using blob_runs_inv [OF assms] ..
  then have ok: "\<forall>b \<in> set (butlast blocks). MINIMUM_BLOCK_SIZE \<le> length b" "block_id_counter (br_writer s) = length blocks"
      "\<forall>i b. PutBlock i b \<in> set (br_log s) \<longrightarrow> block_at base64 blocks i b" "uploads (br_writer s) \<le> CONCURRENT_UPLOADS"
    by (simp_all add: blob_inv_def blocks_ok_def)
  have "MINIMUM_BLOCK_SIZE \<le> length b \<or> i = generate_block_id base64 (block_id_counter (br_writer s) - 1)"
    if "PutBlock i b \<in> set (br_log s)" for i b
  proof -
    from ok(3) that obtain k where k: "k < length blocks" "i = generate_block_id base64 k" "b = blocks ! k"
      unfolding block_at_def by blast
    then show ?thesis using ok(1,2) nth_mem [of k "butlast blocks"] by (cases "k = length blocks - 1") (simp_all add: nth_butlast)
  qed
  moreover have "length (bw_buffer (br_writer s)) \<le> BLOCK_SIZE"
    using inv by (cases "shutdown_state (br_writer s)") (simp_all add: blob_inv_def status_ok_def)
  ultimately show ?thesis using ok(4) by blast
qed

text \<open>C21: No poll of the writer waits for nothing. If a write or a flush is pending, an upload is running; if the shutdown is
  pending, an upload is running or a commit has not been answered. The uploads and the commits wake the task.\<close>
theorem pending_waits:
  "(blob_write base64 buf w = (Pending, w') \<longrightarrow> bw_running w' \<noteq> []) \<and>
   (blob_flush base64 w = (Pending, w') \<longrightarrow> bw_running w' \<noteq> []) \<and>
   (blob_shutdown base64 w = (Pending, w') \<longrightarrow> bw_running w' \<noteq> [] \<or>
     (\<exists>ids sz. shutdown_state w' = Some (CommittingAzure ids None) \<or> shutdown_state w' = Some (CommittingGithub sz None)))"
proof (intro conjI impI)
  have drain: "bw_running w' \<noteq> []" if "drain rs w = (Pending, w')" for rs w
    using that by (induction rs w rule: drain.induct) (auto split: if_split_asm)
  show flush: "bw_running w' \<noteq> []" if "blob_flush base64 w = (Pending, w')" for w
    using drain that by (simp add: blob_flush_def Let_def)
  show "bw_running w' \<noteq> []" if "blob_write base64 buf w = (Pending, w')"
  proof -
    obtain p v where p: "poll_join_next w = (p, v)" by fastforce
    have "p = Pending \<and> w' = v"
      using that unfolding blob_write_def p
      by (auto simp: take_bytes_def Let_def split: if_split_asm poll.split_asm option.split_asm bool.split_asm)
    then show ?thesis using join_form [OF p] by (auto split: if_split_asm)
  qed
  have github: "\<exists>sz. shutdown_state w' = Some (CommittingGithub sz None)" if "commit_github w = (Pending, w')" for w
    using that by (auto simp: commit_github_def split: option.split_asm shutdown_state.split_asm bool.split_asm)
  have azure: "\<exists>ids sz. shutdown_state w' = Some (CommittingAzure ids None) \<or> shutdown_state w' = Some (CommittingGithub sz None)"
    if "commit_azure w = (Pending, w')" for w
    using that github
    by (auto simp: commit_azure_def split: option.split_asm shutdown_state.split_asm bool.split_asm)
  assume "blob_shutdown base64 w = (Pending, w')"
  then consider v where "blob_flush base64 v = (Pending, w')" | v where "commit_azure v = (Pending, w')"
    by (auto simp: blob_shutdown_def Let_def split: if_split_asm prod.split_asm poll.split_asm outcome.split_asm)
  then show "bw_running w' \<noteq> [] \<or> (\<exists>ids sz. shutdown_state w' = Some (CommittingAzure ids None) \<or>
      shutdown_state w' = Some (CommittingGithub sz None))"
    by cases (use flush azure in blast)+
qed

text \<open>A key is written at most once by a backend.\<close>

lemma github_write_once:
  "github_write_key base64_url serve key locks s = (r, locks', s') \<Longrightarrow> github_write_key base64_url serve key locks' s' = (None, locks', s')"
  by (auto simp: github_write_key_def split: if_split_asm prod.split_asm)

section \<open>An upload\<close>

text \<open>Three bytes, and a first upload that fails after Azure stored the block: the shutdown fails, and the one after it commits.\<close>

definition demo_writer :: "bool list \<Rightarrow> shutdown_state \<Rightarrow> blob_writer" where
  "demo_writer rs st = \<lparr>bw_buffer = [], bw_running = [], bw_ended = rs, bytes_written = 3, block_id_counter = 1,
     shutdown_state = Some st\<rparr>"

definition demo_log :: "github_request list" where
  "demo_log = [PutBlock (raw_block_id 0) [1, 2, 3], PutBlockList [raw_block_id 0], FinalizeUpload (ustr ''key'') 3]"

definition demo_end :: blob_run where
  "demo_end = \<lparr>br_writer = demo_writer [] ShutdownDone, br_log = demo_log, br_accepted = [1, 2, 3]\<rparr>"

lemmas demo_defs = blob_start_def blob_writer_new_def demo_writer_def blob_write_def poll_join_next_def take_bytes_def
  BLOCK_SIZE_def MINIMUM_BLOCK_SIZE_def blob_shutdown_def blob_flush_def upload_buffer_def get_next_block_id_def
  saturating_def commit_azure_def commit_github_def get_block_ids_def generate_block_id_def

lemma writing: "blob_step base64 key s (s\<lparr>br_writer := snd (blob_write base64 buf (br_writer s)),
    br_accepted := br_accepted s @ (case fst (blob_write base64 buf (br_writer s)) of Ready (Ok n) \<Rightarrow> take n buf | _ \<Rightarrow> [])\<rparr>)"
  by (rule step_write [OF surjective_pairing])

lemma closing: "blob_step base64 key s (s\<lparr>br_writer := snd (blob_shutdown base64 (br_writer s))\<rparr>)"
  by (rule step_close [OF surjective_pairing])

lemma demo_run: "(blob_step (\<lambda>x. x) (ustr ''key''))\<^sup>*\<^sup>* blob_start demo_end"
proof -
  let ?step = "blob_step (\<lambda>x. x) (ustr ''key'')"
  let ?run = "\<lambda>rs st n. \<lparr>br_writer = demo_writer rs st, br_log = take n demo_log, br_accepted = [1, 2, 3 :: 8 word]\<rparr>"
  let ?s1 = "\<lparr>br_writer = blob_writer_new\<lparr>bw_buffer := [1, 2, 3 :: 8 word]\<rparr>, br_log = [], br_accepted = [1, 2, 3]\<rparr>"
  let ?s2 = "\<lparr>br_writer = (demo_writer [] ShutdownFlush)\<lparr>bw_running := [(raw_block_id 0, [1, 2, 3 :: 8 word])]\<rparr>, br_log = [],
    br_accepted = [1, 2, 3]\<rparr>"
  have "?step blob_start ?s1"
    using writing [of "\<lambda>x. x" "ustr ''key''" blob_start "[1, 2, 3]"] by (simp add: demo_defs)
  moreover have "?step ?s1 ?s2"
    using closing [of "\<lambda>x. x" "ustr ''key''" ?s1] by (simp add: demo_defs numeral_3_eq_3)
  moreover have "?step ?s2 (?run [False] ShutdownFlush 1)"
    using step_upload [of ?s2 "[]" "raw_block_id 0" "[1, 2, 3]" "[]" False True] by (simp add: demo_writer_def demo_log_def)
  moreover have "?step (?run [False] ShutdownFlush 1) (?run [] ShutdownFlush 1)"
    using closing [of "\<lambda>x. x" "ustr ''key''" "?run [False] ShutdownFlush 1"] by (simp add: demo_defs)
  moreover have "?step (?run [] ShutdownFlush 1) (?run [] (CommittingAzure [raw_block_id 0] None) 1)"
    using closing [of "\<lambda>x. x" "ustr ''key''" "?run [] ShutdownFlush 1"] by (simp add: demo_defs)
  moreover have "?step (?run [] (CommittingAzure [raw_block_id 0] None) 1) (?run [] (CommittingAzure [raw_block_id 0] (Some True)) 2)"
    using step_azure [of "?run [] (CommittingAzure [raw_block_id 0] None) 1" "[raw_block_id 0]" True True]
    by (simp add: demo_writer_def demo_log_def numeral_2_eq_2)
  moreover have "?step (?run [] (CommittingAzure [raw_block_id 0] (Some True)) 2) (?run [] (CommittingGithub 3 None) 2)"
    using closing [of "\<lambda>x. x" "ustr ''key''" "?run [] (CommittingAzure [raw_block_id 0] (Some True)) 2"] by (simp add: demo_defs)
  moreover have "?step (?run [] (CommittingGithub 3 None) 2) (?run [] (CommittingGithub 3 (Some True)) 3)"
    using step_github [of "?run [] (CommittingGithub 3 None) 2" 3 True True "\<lambda>x. x" "ustr ''key''"]
    by (simp add: demo_writer_def demo_log_def numeral_2_eq_2)
  moreover have "?step (?run [] (CommittingGithub 3 (Some True)) 3) demo_end"
    using closing [of "\<lambda>x. x" "ustr ''key''" "?run [] (CommittingGithub 3 (Some True)) 3"] by (simp add: demo_defs demo_end_def demo_log_def)
  ultimately show ?thesis
    by - ((rule converse_rtranclp_into_rtranclp, assumption)+, rule rtranclp.rtrancl_refl)
qed

theorem upload_complete_witness:
  "blob_of demo_log = Some [1, 2, 3] \<and> FinalizeUpload (ustr ''key'') (length [1, 2, 3 :: 8 word]) \<in> set demo_log"
  using upload_complete [OF demo_run inj_on_id2] by (simp add: demo_end_def demo_writer_def)

theorem uploads_bounded_witness: "uploads (demo_writer [] ShutdownDone) \<le> CONCURRENT_UPLOADS"
proof -
  have "length (br_accepted demo_end) < 2 ^ 38" by (simp add: demo_end_def)
  from uploads_bounded [OF demo_run inj_on_id2 this] show ?thesis by (simp add: demo_end_def)
qed

definition demo_uploading :: blob_writer where
  "demo_uploading = (demo_writer [] ShutdownFlush)\<lparr>bw_running := [(raw_block_id 0, [1, 2, 3])]\<rparr>"

theorem pending_waits_witness:
  "blob_flush (\<lambda>x. x) demo_uploading = (Pending, demo_uploading) \<and> bw_running demo_uploading \<noteq> []"
proof -
  have "blob_flush (\<lambda>x. x) demo_uploading = (Pending, demo_uploading)"
    by (simp add: demo_defs demo_uploading_def)
  then show ?thesis using pending_waits [of "\<lambda>x. x" "[]" demo_uploading demo_uploading] by blast
qed

end
