(* ===== verification/Effects.thy ===== *)
theory Effects
  imports Base
begin

text \<open>
  Fallible code with state, shared by the theories on services: an \<open>action\<close> takes a state and gives an outcome
  and the state after it. The state is kept when the outcome is an error, as with \<open>?\<close> in asynchronous code,
  which undoes nothing.
\<close>

type_synonym ('s, 'e, 'a) action = "'s \<Rightarrow> ('e, 'a) outcome \<times> 's"

definition give :: "'a \<Rightarrow> ('s, 'e, 'a) action" where
  "give x s = (Ok x, s)"

definition fail :: "'e \<Rightarrow> ('s, 'e, 'a) action" where
  "fail e s = (Err e, s)"

definition lift_outcome :: "('e, 'a) outcome \<Rightarrow> ('s, 'e, 'a) action" where
  "lift_outcome r s = (r, s)"

definition and_do :: "('s, 'e, 'a) action \<Rightarrow> ('a \<Rightarrow> ('s, 'e, 'b) action) \<Rightarrow> ('s, 'e, 'b) action" where
  "and_do f g s = (case f s of
       (Ok x, s) \<Rightarrow> g x s | (Err e, s) \<Rightarrow> (Err e, s) | (Panic, s) \<Rightarrow> (Panic, s) | (NoFuel, s) \<Rightarrow> (NoFuel, s))"

definition update :: "('s \<Rightarrow> 's) \<Rightarrow> ('s, 'e, unit) action" where
  "update u s = (Ok (), u s)"

definition inspect :: "('s \<Rightarrow> 'a) \<Rightarrow> ('s, 'e, 'a) action" where
  "inspect r s = (Ok (r s), s)"

lemma and_do_cong [fundef_cong]:
  "f s = f' s' \<Longrightarrow> (\<And>x s1. f' s' = (Ok x, s1) \<Longrightarrow> g x s1 = g' x s1) \<Longrightarrow> and_do f g s = and_do f' g' s'"
  by (auto simp: and_do_def split: prod.split outcome.split)

lemma and_do_Ok [outcome_simps]: "and_do f g s = (Ok y, s') \<longleftrightarrow> (\<exists>x s1. f s = (Ok x, s1) \<and> g x s1 = (Ok y, s'))"
  by (auto simp: and_do_def split: prod.split outcome.split)

lemma and_do_Err [outcome_simps]:
  "and_do f g s = (Err e, s') \<longleftrightarrow> f s = (Err e, s') \<or> (\<exists>x s1. f s = (Ok x, s1) \<and> g x s1 = (Err e, s'))"
  by (auto simp: and_do_def split: prod.split outcome.split)

lemma action_Ok [outcome_simps]:
  "give x s = (Ok y, s') \<longleftrightarrow> y = x \<and> s' = s"
  "fail e s = (Ok z, s') \<longleftrightarrow> False"
  "lift_outcome r s = (Ok k, s') \<longleftrightarrow> r = Ok k \<and> s' = s"
  "update u s = (Ok v, s') \<longleftrightarrow> s' = u s"
  "inspect q s = (Ok w, s') \<longleftrightarrow> w = q s \<and> s' = s"
  by (auto simp: give_def fail_def lift_outcome_def update_def inspect_def)

lemma action_Err [outcome_simps]:
  "give x s = (Err e, s') \<longleftrightarrow> False"
  "fail e s = (Err e', s') \<longleftrightarrow> e' = e \<and> s' = s"
  "lift_outcome r s = (Err e, s') \<longleftrightarrow> r = Err e \<and> s' = s"
  "update u s = (Err e, s') \<longleftrightarrow> False"
  "inspect q s = (Err e, s') \<longleftrightarrow> False"
  by (auto simp: give_def fail_def lift_outcome_def update_def inspect_def)

end
