(* ===== verification/Utf8.thy ===== *)
theory Utf8
  imports Base "HOL-Library.Word"
begin

text \<open>
  The standard library's conversions between text and its bytes: \<open>str::as_bytes\<close> and \<open>str::from_utf8\<close>, which
  refuses overlong forms, surrogates and values beyond \<open>0x10FFFF\<close>.
\<close>

fun encode_char :: "uchar \<Rightarrow> nat list" where
  "encode_char c =
     (if c < 0x80 then [c]
      else if c < 0x800 then [0xC0 + c div 64, 0x80 + c mod 64]
      else if c < 0x10000 then [0xE0 + c div 4096, 0x80 + c div 64 mod 64, 0x80 + c mod 64]
      else [0xF0 + c div 262144, 0x80 + c div 4096 mod 64, 0x80 + c div 64 mod 64, 0x80 + c mod 64])"

definition utf8_encode :: "ustr \<Rightarrow> 8 word list" where
  "utf8_encode s = map word_of_nat (concat (map encode_char s))"

definition scalar :: "uchar \<Rightarrow> bool" where
  "scalar c \<longleftrightarrow> c < 0xD800 \<or> 0xE000 \<le> c \<and> c < 0x110000"

definition continuation :: "nat \<Rightarrow> bool" where
  "continuation b \<longleftrightarrow> 0x80 \<le> b \<and> b < 0xC0"

text \<open>One character from the front, with the bytes after it.\<close>

fun decode_char :: "nat list \<Rightarrow> (uchar \<times> nat list) option" where
  "decode_char (a # bs) =
     (if a < 0x80 then Some (a, bs)
      else case bs of
        b # bs \<Rightarrow>
          if \<not> continuation b then None
          else if 0xC0 \<le> a \<and> a < 0xE0 then
            (let c = (a - 0xC0) * 64 + (b - 0x80) in if 0x80 \<le> c then Some (c, bs) else None)
          else (case bs of
            c # bs \<Rightarrow>
              if \<not> continuation c then None
              else if 0xE0 \<le> a \<and> a < 0xF0 then
                (let d = (a - 0xE0) * 4096 + (b - 0x80) * 64 + (c - 0x80) in
                 if 0x800 \<le> d \<and> scalar d then Some (d, bs) else None)
              else (case bs of
                d # bs \<Rightarrow>
                  if \<not> continuation d then None
                  else if 0xF0 \<le> a \<and> a < 0xF8 then
                    (let e = (a - 0xF0) * 262144 + (b - 0x80) * 4096 + (c - 0x80) * 64 + (d - 0x80) in
                     if 0x10000 \<le> e \<and> scalar e then Some (e, bs) else None)
                  else None
              | [] \<Rightarrow> None)
          | [] \<Rightarrow> None)
      | [] \<Rightarrow> None)"
| "decode_char [] = None"

lemma decode_char_shorter: "decode_char bs = Some (c, bs') \<Longrightarrow> length bs' < length bs"
  by (induction bs rule: decode_char.induct) (auto simp: Let_def split: if_split_asm list.split_asm)

function decode_bytes :: "nat list \<Rightarrow> ustr option" where
  "decode_bytes bs = (if bs = [] then Some [] else
     case decode_char bs of None \<Rightarrow> None | Some (c, bs') \<Rightarrow> map_option ((#) c) (decode_bytes bs'))"
  by pat_completeness auto
termination by (relation "measure length") (auto dest: decode_char_shorter)

declare decode_bytes.simps [simp del]

definition utf8_decode :: "8 word list \<Rightarrow> ustr option" where
  "utf8_decode bs = decode_bytes (map unat bs)"

lemma encode_char_nonempty: "encode_char c \<noteq> []"
  by simp

lemma digits_of:
  "(c :: nat) div 64 * 64 + c mod 64 = c"
  "c div 4096 * 4096 + c div 64 mod 64 * 64 + c mod 64 = c"
  "c div 262144 * 262144 + c div 4096 mod 64 * 4096 + c div 64 mod 64 * 64 + c mod 64 = c"
proof -
  have "c div 4096 = c div 64 div 64" "c div 262144 = c div 4096 div 64" by (simp_all flip: div_mult2_eq)
  then show "c div 64 * 64 + c mod 64 = c" "c div 4096 * 4096 + c div 64 mod 64 * 64 + c mod 64 = c"
    "c div 262144 * 262144 + c div 4096 mod 64 * 4096 + c div 64 mod 64 * 64 + c mod 64 = c"
    using div_mult_mod_eq [of c 64] div_mult_mod_eq [of "c div 64" 64] div_mult_mod_eq [of "c div 4096" 64] by linarith+
qed

lemma decode_char_bytes:
  "128 \<le> q * 64 + r \<Longrightarrow> q < 32 \<Longrightarrow> r < 64 \<Longrightarrow> decode_char ((0xC0 + q) # (0x80 + r) # bs) = Some (q * 64 + r, bs)"
  "2048 \<le> p * 4096 + q * 64 + r \<Longrightarrow> scalar (p * 4096 + q * 64 + r) \<Longrightarrow> p < 16 \<Longrightarrow> q < 64 \<Longrightarrow> r < 64 \<Longrightarrow>
     decode_char ((0xE0 + p) # (0x80 + q) # (0x80 + r) # bs) = Some (p * 4096 + q * 64 + r, bs)"
  "65536 \<le> n * 262144 + p * 4096 + q * 64 + r \<Longrightarrow> scalar (n * 262144 + p * 4096 + q * 64 + r) \<Longrightarrow>
     n < 8 \<Longrightarrow> p < 64 \<Longrightarrow> q < 64 \<Longrightarrow> r < 64 \<Longrightarrow>
     decode_char ((0xF0 + n) # (0x80 + p) # (0x80 + q) # (0x80 + r) # bs) = Some (n * 262144 + p * 4096 + q * 64 + r, bs)"
  by (simp_all add: continuation_def Let_def)

lemma decode_encode_char:
  assumes "scalar c"
  shows "decode_char (encode_char c @ bs) = Some (c, bs)"
proof -
  consider "c < 0x80" | "0x80 \<le> c" "c < 0x800" | "0x800 \<le> c" "c < 0x10000" | "0x10000 \<le> c" by linarith
  then show ?thesis
  proof cases
    case 2
    then have "c div 64 < 32" by (intro less_mult_imp_div_less) simp
    from decode_char_bytes(1) [OF _ this, of "c mod 64" bs] 2 show ?thesis
      unfolding digits_of by (simp del: decode_char.simps)
  next
    case 3
    then have "c div 4096 < 16" by (intro less_mult_imp_div_less) simp
    from decode_char_bytes(2) [OF _ _ this, of "c div 64 mod 64" "c mod 64" bs] 3 assms show ?thesis
      unfolding digits_of by (simp del: decode_char.simps)
  next
    case 4
    then have "c div 262144 < 8" using assms by (intro less_mult_imp_div_less) (simp add: scalar_def)
    from decode_char_bytes(3) [OF _ _ this, of "c div 4096 mod 64" "c div 64 mod 64" "c mod 64" bs] 4 assms show ?thesis
      unfolding digits_of by (simp del: decode_char.simps)
  qed simp
qed

lemma encode_char_bytes: "scalar c \<Longrightarrow> b \<in> set (encode_char c) \<Longrightarrow> b < 256"
  using less_mult_imp_div_less [of c 32 64] less_mult_imp_div_less [of c 16 4096] less_mult_imp_div_less [of c 8 262144]
  by (auto simp: scalar_def split: if_split_asm)

lemma utf8_roundtrip:
  assumes "list_all scalar s"
  shows "utf8_decode (utf8_encode s) = Some s"
proof -
  have "unat (word_of_nat b :: 8 word) = b" if "b \<in> set (concat (map encode_char s))" for b
    using that assms encode_char_bytes by (auto simp: list_all_iff unsigned_of_nat take_bit_nat_eq_self simp del: encode_char.simps)
  then have "map unat (utf8_encode s) = concat (map encode_char s)"
    unfolding utf8_encode_def map_map comp_def by (rule map_idI)
  moreover have "decode_bytes (concat (map encode_char s)) = Some s"
    using assms by (induction s)
      (simp_all add: decode_bytes.simps [of "[]"] decode_bytes.simps [of "encode_char _ @ _"] decode_encode_char encode_char_nonempty del: encode_char.simps)
  ultimately show ?thesis by (simp add: utf8_decode_def)
qed

end
