(* ===== verification/Sidecar_Network.thy ===== *)
theory Sidecar_Network
  imports Effects Paths Topology "HOL-Library.Word"
begin

text \<open>
  \<^verbatim>\<open>sidecar/src/main.rs\<close>, networks: a topology of services is realised as network namespaces with bridges
  between them, each bridge in a subnet of its own. Random names, the network plugins and the namespaces of the
  system are the parameter \<open>network_env\<close>; the configuration of a plugin, a JSON text in the code, is the
  data written into it. Requests are handled one after another; the counter of subnets is shared by all of them.
\<close>

unbundle bit_operations_syntax

type_synonym ipv4 = "32 word"

section \<open>Subnets\<close>

definition from_octets :: "8 word \<Rightarrow> 8 word \<Rightarrow> 8 word \<Rightarrow> 8 word \<Rightarrow> ipv4" where
  "from_octets a b c d = push_bit 24 (ucast a) OR push_bit 16 (ucast b) OR push_bit 8 (ucast c) OR ucast d"

definition SUBNET_SIZE :: nat where
  "SUBNET_SIZE = 31"

definition SUBNET_PREFIX :: ipv4 where
  "SUBNET_PREFIX = from_octets 198 18 0 0"

definition SUBNET_PREFIX_LENGTH :: nat where
  "SUBNET_PREFIX_LENGTH = 15"

definition pick_subnet :: "16 word \<Rightarrow> (ipv4 \<times> ipv4 \<times> ipv4) \<times> 16 word" where
  "pick_subnet counter =
     (let subnet_free_bits = push_bit (32 - SUBNET_SIZE) (ucast counter);
          subnet = SUBNET_PREFIX OR subnet_free_bits
      in ((subnet, subnet, subnet OR 1), counter + 1))"

abbreviation low_ip :: "16 word \<Rightarrow> ipv4" where
  "low_ip c \<equiv> fst (snd (fst (pick_subnet c)))"

abbreviation high_ip :: "16 word \<Rightarrow> ipv4" where
  "high_ip c \<equiv> snd (snd (fst (pick_subnet c)))"

lemma subnet_prefix_value: "SUBNET_PREFIX = push_bit 17 25353"
  by (simp add: SUBNET_PREFIX_def from_octets_def)

lemma counter_less: "unat (c :: 16 word) < 65536"
  using unsigned_less [of c] by simp

lemma prefix_bits: "bit SUBNET_PREFIX n \<Longrightarrow> 17 \<le> n"
  unfolding subnet_prefix_value bit_push_bit_iff by blast

lemma free_bits: "bit (push_bit 1 (ucast (c :: 16 word) :: ipv4)) n \<Longrightarrow> 1 \<le> n \<and> n < 17"
  unfolding bit_push_bit_iff by (auto simp: bit_ucast_iff dest: bit_imp_le_length)

lemma low_ip_value: "unat (low_ip c) = 3323068416 + 2 * unat c"
proof -
  have free: "push_bit 1 (ucast c :: ipv4) = word_of_nat (2 * unat c)"
    by (simp add: push_bit_eq_mult)
  have "\<not> bit (SUBNET_PREFIX AND push_bit 1 (ucast c)) n" for n
    using prefix_bits [of n] free_bits [of c n] unfolding bit_and_iff by linarith
  then have "SUBNET_PREFIX AND push_bit 1 (ucast c) = 0" by (simp only: bit_eq_iff bit_0_eq bot_apply bot_bool_def) blast
  from disjunctive_add_eq_or [OF this] have "low_ip c = SUBNET_PREFIX + word_of_nat (2 * unat c)"
    by (simp add: pick_subnet_def SUBNET_SIZE_def Let_def push_bit_eq_mult mult.commute)
  also have "\<dots> = word_of_nat (3323068416 + 2 * unat c)" by (simp add: subnet_prefix_value)
  finally have "unat (low_ip c) = unat (word_of_nat (3323068416 + 2 * unat c) :: ipv4)" by (rule arg_cong)
  also have "\<dots> = 3323068416 + 2 * unat c"
    using counter_less [of c] by (simp add: unsigned_of_nat take_bit_nat_eq_self del: of_nat_add of_nat_mult)
  finally show ?thesis .
qed

lemma high_ip_value: "unat (high_ip c) = unat (low_ip c) + 1"
proof -
  have "\<not> bit (low_ip c) 0"
    using prefix_bits [of 0] free_bits [of c 0] by (auto simp: pick_subnet_def SUBNET_SIZE_def Let_def bit_or_iff simp del: bit_0)
  then have "high_ip c = low_ip c + 1" by (simp add: pick_subnet_def or_one_eq Let_def bit_0)
  moreover have "unat (low_ip c) + 1 < 2 ^ 32" using counter_less [of c] by (simp add: low_ip_value)
  ultimately show ?thesis by (simp add: unat_word_ariths(1))
qed

section \<open>Namespaces\<close>

datatype adapter_config =
    LoopbackConfig
  | InternetConfig ustr ipv4 ipv4
  | BridgeConfig ustr ipv4

record adapter =
  ifname :: ustr
  adapter_config :: adapter_config

record namespace =
  ns_path :: ustr
  ns_ip :: ipv4
  ns_adapters :: "adapter list"

record bridge_definition =
  bd_name :: ustr
  bd_ip :: ipv4

datatype network_error = NamespaceFailed | AttachFailed | NotAscii | NoFilename | NoSuchNamespace | RemoveFailed

record network_env =
  uuid :: "nat \<Rightarrow> ustr"
  creatable :: "ustr \<Rightarrow> bool"
  attachable :: "ustr \<Rightarrow> adapter \<Rightarrow> bool"
  removable :: "ustr \<Rightarrow> bool"
  netns_path :: "ustr \<Rightarrow> ustr"

record network_state =
  subnet_counter :: "16 word"
  uuids :: nat
  existing :: "ustr set"

type_synonym 'a networked = "(network_state, network_error, 'a) action"

definition fresh_uuid :: "network_env \<Rightarrow> network_state \<Rightarrow> ustr \<times> network_state" where
  "fresh_uuid E s = (uuid E (uuids s), s\<lparr>uuids := Suc (uuids s)\<rparr>)"

definition take_subnet :: "network_state \<Rightarrow> (ipv4 \<times> ipv4 \<times> ipv4) \<times> network_state" where
  "take_subnet s = (let (r, c) = pick_subnet (subnet_counter s) in (r, s\<lparr>subnet_counter := c\<rparr>))"

text \<open>\<open>String::truncate\<close>: no effect beyond the end, a panic within a character.\<close>

definition str_truncate :: "nat \<Rightarrow> ustr \<Rightarrow> ustr option" where
  "str_truncate n s = (if blen s \<le> n then Some s else str_get s 0 n)"

definition bridge_adapter :: "bridge_definition \<Rightarrow> adapter" where
  "bridge_adapter b = \<lparr>ifname = bd_name b, adapter_config = BridgeConfig (bd_name b) (bd_ip b)\<rparr>"

definition create_network_namespace :: "network_env \<Rightarrow> bridge_definition list \<Rightarrow> (ustr \<times> adapter list) networked" where
  "create_network_namespace E bridges s =
     (let (ns_name, s) = fresh_uuid E s in
      if \<not> creatable E ns_name then (Err NamespaceFailed, s)
      else let
        s = s\<lparr>existing := insert ns_name (existing s)\<rparr>;
        lo = \<lparr>ifname = ustr ''lo'', adapter_config = LoopbackConfig\<rparr> in
      if \<not> attachable E ns_name lo then (Err AttachFailed, s)
      else let ((_, gateway, host), s) = take_subnet s in
      case str_get ns_name 0 8 of
        None \<Rightarrow> (Err NotAscii, s)
      | Some short \<Rightarrow> let eth = \<lparr>ifname = ustr ''eth0'', adapter_config = InternetConfig (ustr ''cni-'' @ short) host gateway\<rparr> in
          if \<not> attachable E ns_name eth then (Err AttachFailed, s)
          else if \<not> list_all (attachable E ns_name) (map bridge_adapter bridges) then (Err AttachFailed, s)
          else (Ok (netns_path E ns_name, lo # eth # map bridge_adapter bridges), s))"

definition LOCALHOST :: ipv4 where
  "LOCALHOST = from_octets 127 0 0 1"

fun realize_topology :: "network_env \<Rightarrow> unit topology \<Rightarrow> bridge_definition option \<Rightarrow> namespace topology networked"
and realize_children :: "network_env \<Rightarrow> unit topology list \<Rightarrow> bridge_definition list \<Rightarrow> namespace topology list \<Rightarrow>
    (bridge_definition list \<times> namespace topology list) networked" where
  "realize_topology E (Topology u cs) parent_bridge s =
     (let my_ip = (case parent_bridge of Some b \<Rightarrow> bd_ip b | None \<Rightarrow> LOCALHOST);
          bridges = (case parent_bridge of Some b \<Rightarrow> [b] | None \<Rightarrow> []) in
      and_do (realize_children E cs bridges []) (\<lambda>(bridges, new_children).
      and_do (create_network_namespace E bridges) (\<lambda>(namespace_path, adapters).
        give (foldl add_child (topology_new \<lparr>ns_path = namespace_path, ns_ip = my_ip, ns_adapters = adapters\<rparr>)
           new_children))) s)"
| "realize_children E [] bridges new_children s = (Ok (bridges, new_children), s)"
| "realize_children E (child # cs) bridges new_children s =
     (let (name, s) = fresh_uuid E s in
      case str_truncate 15 name of
        None \<Rightarrow> (Panic, s)
      | Some bridge_name \<Rightarrow> let ((_, my_side, child_side), s) = take_subnet s in
      and_do (realize_topology E child (Some \<lparr>bd_name = bridge_name, bd_ip = child_side\<rparr>)) (\<lambda>new_child.
        realize_children E cs (bridges @ [\<lparr>bd_name = bridge_name, bd_ip = my_side\<rparr>]) (new_children @ [new_child])) s)"

text \<open>Removing a network: the adapters' failures are logged, that of a namespace ends the request.\<close>

definition path_file_name :: "ustr \<Rightarrow> ustr option" where
  "path_file_name p = (let cs = components p in
     if cs = [] \<or> last cs \<in> {[slash], [46], [46, 46]} then None else Some (last cs))"

definition delete_namespace :: "network_env \<Rightarrow> namespace \<Rightarrow> unit networked" where
  "delete_namespace E ns s = (case path_file_name (ns_path ns) of
       None \<Rightarrow> (Err NoFilename, s)
     | Some ns_name \<Rightarrow>
         if ns_name \<notin> existing s then (Err NoSuchNamespace, s)
         else if \<not> removable E ns_name then (Err RemoveFailed, s)
         else (Ok (), s\<lparr>existing := existing s - {ns_name}\<rparr>))"

fun delete_namespaces :: "network_env \<Rightarrow> namespace list \<Rightarrow> unit networked" where
  "delete_namespaces E [] s = (Ok (), s)"
| "delete_namespaces E (ns # nss) s = and_do (delete_namespace E ns) (\<lambda>_. delete_namespaces E nss) s"

definition delete_network :: "network_env \<Rightarrow> namespace topology \<Rightarrow> unit networked" where
  "delete_network E t = delete_namespaces E (flat_data t)"

section \<open>What a realised topology is\<close>

lemma sort_children_sorted: "sorted (map brackets cs) \<Longrightarrow> sort_children cs = cs"
  unfolding sort_children_key by (induction cs) (simp_all add: insort_is_Cons)

lemma foldl_add_child:
  "sorted (map brackets (ds @ cs)) \<Longrightarrow> foldl add_child (Topology d ds) cs = Topology d (ds @ cs)"
proof (induction cs arbitrary: ds)
  case (Cons c cs)
  then have "sort_children (ds @ [c]) = ds @ [c]" by (intro sort_children_sorted) (auto simp: sorted_append)
  then have "add_child (Topology d ds) c = Topology d (ds @ [c])" by (simp add: add_child_def)
  with Cons.IH [of "ds @ [c]"] Cons.prems show ?case by simp
qed simp

text \<open>The addresses of an adapter and of a network, and the addresses of a run of subnets.\<close>

fun config_ips :: "adapter_config \<Rightarrow> ipv4 list" where
  "config_ips LoopbackConfig = []"
| "config_ips (InternetConfig _ host gateway) = [gateway, host]"
| "config_ips (BridgeConfig _ ip) = [ip]"

definition namespace_ips :: "namespace \<Rightarrow> ipv4 list" where
  "namespace_ips ns = concat (map (config_ips \<circ> adapter_config) (ns_adapters ns))"

fun addresses :: "namespace topology \<Rightarrow> ipv4 list" where
  "addresses (Topology ns cs) = namespace_ips ns @ concat (map addresses cs)"

fun subnets_used :: "'a topology \<Rightarrow> nat" where
  "subnets_used (Topology d cs) = Suc (\<Sum>c \<leftarrow> cs. Suc (subnets_used c))"

fun subnet_block :: "16 word \<Rightarrow> nat \<Rightarrow> ipv4 list" where
  "subnet_block c 0 = []"
| "subnet_block c (Suc k) = low_ip c # high_ip c # subnet_block (c + 1) k"

lemma subnet_block_add: "subnet_block c (j + k) = subnet_block c j @ subnet_block (c + of_nat j) k"
  by (induction j arbitrary: c) (simp_all add: algebra_simps)

text \<open>A bridge ends in the child with the address that the child's namespace carries.\<close>

definition same_subnet :: "ipv4 \<Rightarrow> ipv4 \<Rightarrow> bool" where
  "same_subnet a b \<longleftrightarrow> a \<noteq> b \<and> drop_bit (32 - SUBNET_SIZE) a = drop_bit (32 - SUBNET_SIZE) b"

definition joined :: "ustr \<Rightarrow> ipv4 \<Rightarrow> namespace \<Rightarrow> bool" where
  "joined name ip ns \<longleftrightarrow> BridgeConfig name (ns_ip ns) \<in> adapter_config ` set (ns_adapters ns) \<and> same_subnet ip (ns_ip ns)"

fun linked :: "namespace topology \<Rightarrow> bool" where
  "linked (Topology ns cs) \<longleftrightarrow> (\<forall>c \<in> set cs. linked c \<and>
     (\<exists>name ip. BridgeConfig name ip \<in> adapter_config ` set (ns_adapters ns) \<and> joined name ip (get_data c)))"

lemma low_high_same_subnet: "same_subnet (low_ip c) (high_ip c)"
proof -
  have "unat (drop_bit 1 (high_ip c)) = unat (drop_bit 1 (low_ip c))"
    by (simp add: drop_bit_eq_div unat_div high_ip_value low_ip_value)
  moreover have "unat (low_ip c) \<noteq> unat (high_ip c)" by (simp add: high_ip_value)
  ultimately have "low_ip c \<noteq> high_ip c" "drop_bit 1 (low_ip c) = drop_bit 1 (high_ip c)"
    by (auto intro: unsigned_word_eqI [OF sym])
  then show ?thesis by (simp add: same_subnet_def SUBNET_SIZE_def)
qed

lemma create_network_namespaceE:
  assumes "create_network_namespace E bridges s = (Ok (path, adapters), s')"
  obtains s0 eth where "subnet_counter s' = subnet_counter s + 1"
    "adapters = \<lparr>ifname = ustr ''lo'', adapter_config = LoopbackConfig\<rparr> # eth # map bridge_adapter bridges"
    "config_ips (adapter_config eth) = [low_ip (subnet_counter s), high_ip (subnet_counter s)]"
  using assms
  by (auto simp: create_network_namespace_def fresh_uuid_def take_subnet_def pick_subnet_def Let_def split: if_split_asm option.split_asm)

lemma realize_childrenE:
  assumes "realize_children E (child # cs) bridges new_children s = (Ok (bs', ns'), s')"
  obtains name s2 new_child s3 where "subnet_counter s2 = subnet_counter s + 1" "uuids s2 = Suc (uuids s)" "existing s2 = existing s"
    "realize_topology E child (Some \<lparr>bd_name = name, bd_ip = high_ip (subnet_counter s)\<rparr>) s2 = (Ok new_child, s3)"
    "realize_children E cs (bridges @ [\<lparr>bd_name = name, bd_ip = low_ip (subnet_counter s)\<rparr>]) (new_children @ [new_child]) s3 =
      (Ok (bs', ns'), s')"
  using assms that [of "s\<lparr>uuids := Suc (uuids s), subnet_counter := subnet_counter s + 1\<rparr>"]
  by (auto simp: fresh_uuid_def take_subnet_def pick_subnet_def Let_def outcome_simps split: option.split_asm)

definition realized :: "unit topology \<Rightarrow> bridge_definition option \<Rightarrow> network_state \<Rightarrow> namespace topology \<Rightarrow> network_state \<Rightarrow> bool" where
  "realized t b s n s' \<longleftrightarrow> brackets n = brackets t \<and> linked n \<and>
     subnet_counter s' = subnet_counter s + of_nat (subnets_used t) \<and>
     (\<forall>d. b = Some d \<longrightarrow> ns_ip (get_data n) = bd_ip d \<and> bridge_adapter d \<in> set (ns_adapters (get_data n))) \<and>
     mset (addresses n) = mset (map bd_ip (case b of Some d \<Rightarrow> [d] | None \<Rightarrow> [])) + mset (subnet_block (subnet_counter s) (subnets_used t))"

definition children_realized :: "unit topology list \<Rightarrow> network_state \<Rightarrow> bridge_definition list \<Rightarrow> namespace topology list \<Rightarrow> network_state \<Rightarrow> bool" where
  "children_realized ts s ds cs s' \<longleftrightarrow> map brackets cs = map brackets ts \<and>
     list_all2 (\<lambda>d c. linked c \<and> joined (bd_name d) (bd_ip d) (get_data c)) ds cs \<and>
     subnet_counter s' = subnet_counter s + of_nat (\<Sum>t \<leftarrow> ts. Suc (subnets_used t)) \<and>
     mset (map bd_ip ds) + mset (concat (map addresses cs)) = mset (subnet_block (subnet_counter s) (\<Sum>t \<leftarrow> ts. Suc (subnets_used t)))"

lemma list_all2_second: "list_all2 Q xs ys \<Longrightarrow> y \<in> set ys \<Longrightarrow> \<exists>x \<in> set xs. Q x y"
  by (induction xs ys rule: list_all2_induct) auto

lemma realized_joined:
  assumes "realized t (Some \<lparr>bd_name = name, bd_ip = high_ip c\<rparr>) s n s'"
  shows "joined name (low_ip c) (get_data n)"
proof -
  have ip: "ns_ip (get_data n) = high_ip c"
    and "bridge_adapter \<lparr>bd_name = name, bd_ip = high_ip c\<rparr> \<in> set (ns_adapters (get_data n))"
    using assms by (simp_all add: realized_def)
  from imageI [OF this(2), of adapter_config] show ?thesis
    by (simp add: joined_def ip bridge_adapter_def low_high_same_subnet)
qed

lemma realize_children_realized:
  assumes "\<And>t b s n s'. t \<in> set ts \<Longrightarrow> realize_topology E t b s = (Ok n, s') \<Longrightarrow> realized t b s n s'"
    and "realize_children E ts bs ns s = (Ok (bs', ns'), s')"
  shows "\<exists>ds cs. bs' = bs @ ds \<and> ns' = ns @ cs \<and> children_realized ts s ds cs s'"
  using assms
proof (induction ts arbitrary: bs ns s)
  case Nil
  then show ?case by (auto simp: children_realized_def)
next
  case (Cons t ts)
  from Cons.prems(2) obtain name s2 n s3 where c: "subnet_counter s2 = subnet_counter s + 1"
      and t: "realize_topology E t (Some \<lparr>bd_name = name, bd_ip = high_ip (subnet_counter s)\<rparr>) s2 = (Ok n, s3)"
    and r: "realize_children E ts (bs @ [\<lparr>bd_name = name, bd_ip = low_ip (subnet_counter s)\<rparr>]) (ns @ [n]) s3 = (Ok (bs', ns'), s')"
    by (rule realize_childrenE)
  have n: "realized t (Some \<lparr>bd_name = name, bd_ip = high_ip (subnet_counter s)\<rparr>) s2 n s3"
    using Cons.prems(1) [OF _ t] by simp
  obtain ds cs where ds: "bs' = (bs @ [\<lparr>bd_name = name, bd_ip = low_ip (subnet_counter s)\<rparr>]) @ ds" "ns' = (ns @ [n]) @ cs"
    and cs: "children_realized ts s3 ds cs s'"
    using Cons.IH [OF Cons.prems(1) r] by auto
  have s3: "subnet_counter s3 = subnet_counter s + of_nat (Suc (subnets_used t))"
    using n c by (simp add: realized_def)
  have "children_realized (t # ts) s (\<lparr>bd_name = name, bd_ip = low_ip (subnet_counter s)\<rparr> # ds) (n # cs) s'"
    using n cs realized_joined [OF n] s3 c
    by (simp add: children_realized_def realized_def subnet_block_add [of _ "subnets_used t"] add.assoc del: of_nat_Suc)
      (simp add: add.assoc)
  with ds show ?case by auto
qed

lemma realize_realized: "realize_topology E t b s = (Ok n, s') \<Longrightarrow> canonical t \<Longrightarrow> realized t b s n s'"
proof (induction t arbitrary: b s n s')
  case (Topology u ts)
  define bridges0 where "bridges0 = (case b of Some d \<Rightarrow> [d] | None \<Rightarrow> [])"
  from Topology.prems(1) obtain bridges ks s1 path adapters where
      k: "realize_children E ts bridges0 [] s = (Ok (bridges, ks), s1)"
    and a: "create_network_namespace E bridges s1 = (Ok (path, adapters), s')"
    and n: "n = foldl add_child (topology_new \<lparr>ns_path = path, ns_ip = (case b of Some d \<Rightarrow> bd_ip d | None \<Rightarrow> LOCALHOST), ns_adapters = adapters\<rparr>) ks"
    by (auto simp: outcome_simps Let_def bridges0_def)
  have "realized t b s n s'" if "t \<in> set ts" "realize_topology E t b s = (Ok n, s')" for t b s n s'
    using Topology.IH [OF that] Topology.prems(2) that(1) by simp
  from realize_children_realized [OF this k] obtain ds where
    ds: "bridges = bridges0 @ ds" "children_realized ts s ds ks s1" by auto
  obtain eth where eth: "subnet_counter s' = subnet_counter s1 + 1"
      "adapters = \<lparr>ifname = ustr ''lo'', adapter_config = LoopbackConfig\<rparr> # eth # map bridge_adapter bridges"
      "config_ips (adapter_config eth) = [low_ip (subnet_counter s1), high_ip (subnet_counter s1)]"
    using a by (rule create_network_namespaceE)
  define node where "node = \<lparr>ns_path = path, ns_ip = (case b of Some d \<Rightarrow> bd_ip d | None \<Rightarrow> LOCALHOST), ns_adapters = adapters\<rparr>"
  have "sorted (map brackets ks)" using ds(2) Topology.prems(2) by (simp add: children_realized_def)
  then have node: "n = Topology node ks" using foldl_add_child [of "[]"] by (simp add: n topology_new_def node_def)
  have bridges: "bridge_adapter d \<in> set (ns_adapters node)" if "d \<in> set bridges0 \<union> set ds" for d
    using that by (auto simp: node_def eth(2) ds(1))
  have pairs: "list_all2 (\<lambda>d c. linked c \<and> joined (bd_name d) (bd_ip d) (get_data c)) ds ks"
    using ds(2) by (simp add: children_realized_def)
  have "linked n" unfolding node linked.simps
  proof
    fix c
    assume "c \<in> set ks"
    from list_all2_second [OF pairs this] obtain d where
      d: "d \<in> set ds" "linked c" "joined (bd_name d) (bd_ip d) (get_data c)" by blast
    have "BridgeConfig (bd_name d) (bd_ip d) \<in> adapter_config ` set (ns_adapters node)"
      using imageI [OF bridges [of d], of adapter_config] d(1) by (simp add: bridge_adapter_def)
    with d show "linked c \<and> (\<exists>name ip. BridgeConfig name ip \<in> adapter_config ` set (ns_adapters node) \<and> joined name ip (get_data c))"
      by blast
  qed
  moreover have "brackets n = brackets (Topology u ts)" using ds(2) by (simp add: node children_realized_def)
  moreover have "subnet_counter s' = subnet_counter s + of_nat (subnets_used (Topology u ts))"
    using ds(2) eth(1) by (simp add: children_realized_def)
  moreover have "ns_ip node = bd_ip d \<and> bridge_adapter d \<in> set (ns_adapters node)" if "b = Some d" for d
    using that bridges [of d] by (simp add: bridges0_def node_def)
  moreover have "mset (addresses n) = mset (map bd_ip bridges0) + mset (subnet_block (subnet_counter s) (subnets_used (Topology u ts)))"
  proof -
    have ips: "concat (map (config_ips \<circ> adapter_config) (map bridge_adapter bs)) = map bd_ip bs" for bs
      by (induction bs) (simp_all add: bridge_adapter_def)
    have "mset (addresses n) = mset (map bd_ip bridges0) + {#low_ip (subnet_counter s1), high_ip (subnet_counter s1)#} +
        (mset (map bd_ip ds) + mset (concat (map addresses ks)))"
      using ips [of bridges] by (simp add: node node_def namespace_ips_def eth(2,3) ds(1))
    also have "mset (map bd_ip ds) + mset (concat (map addresses ks)) = mset (subnet_block (subnet_counter s) (\<Sum>t \<leftarrow> ts. Suc (subnets_used t)))"
      using ds(2) by (simp add: children_realized_def)
    finally show ?thesis
      using ds(2) subnet_block_add [of "subnet_counter s" "\<Sum>t \<leftarrow> ts. Suc (subnets_used t)" 1]
      by (simp add: children_realized_def)
  qed
  ultimately show ?case by (simp add: realized_def node bridges0_def)
qed

lemma block_addresses: "set (subnet_block c k) = (\<Union>i < k. {low_ip (c + of_nat i), high_ip (c + of_nat i)})"
proof (induction k arbitrary: c)
  case (Suc k)
  have "(\<Union>i < Suc k. {low_ip (c + of_nat i), high_ip (c + of_nat i)}) =
      {low_ip c, high_ip c} \<union> (\<Union>i < k. {low_ip (c + 1 + of_nat i), high_ip (c + 1 + of_nat i)})"
    unfolding lessThan_Suc_eq_insert_0 by (simp add: add.assoc)
  then show ?case by (simp add: Suc)
qed simp

lemma subnets_apart: "c \<noteq> d \<Longrightarrow> {low_ip c, high_ip c} \<inter> {low_ip d, high_ip d} = {}"
proof -
  assume "c \<noteq> d"
  then have "unat c \<noteq> unat d" by (metis unsigned_word_eqI)
  then have "unat (low_ip c) \<noteq> unat (low_ip d)" "unat (low_ip c) \<noteq> unat (high_ip d)"
    "unat (high_ip c) \<noteq> unat (low_ip d)" "unat (high_ip c) \<noteq> unat (high_ip d)"
    unfolding high_ip_value low_ip_value by presburger+
  then show ?thesis by auto
qed

lemma counter_cycle: "(c :: 16 word) + of_nat i = c + of_nat j \<longleftrightarrow> i mod 65536 = j mod 65536"
  by (simp add: word_of_nat_eq_iff take_bit_eq_mod)

lemma distinct_block: "k \<le> 65536 \<Longrightarrow> distinct (subnet_block c k)"
proof (induction k arbitrary: c)
  case (Suc k)
  have "c \<noteq> c + of_nat (Suc i)" if "i < k" for i
    using counter_cycle [of c 0 "Suc i"] that Suc.prems by simp
  then have "{low_ip c, high_ip c} \<inter> {low_ip (c + 1 + of_nat i), high_ip (c + 1 + of_nat i)} = {}" if "i < k" for i
    using subnets_apart [of c "c + of_nat (Suc i)"] that by (simp add: add.assoc)
  then have "low_ip c \<notin> set (subnet_block (c + 1) k)" "high_ip c \<notin> set (subnet_block (c + 1) k)"
    unfolding block_addresses by blast+
  moreover have "low_ip c \<noteq> high_ip c" using low_high_same_subnet by (simp add: same_subnet_def)
  ultimately show ?case using Suc by simp
qed simp

definition in_prefix :: "ipv4 \<Rightarrow> bool" where
  "in_prefix a \<longleftrightarrow> drop_bit (32 - SUBNET_PREFIX_LENGTH) a = drop_bit (32 - SUBNET_PREFIX_LENGTH) SUBNET_PREFIX"

lemma subnets_in_prefix: "in_prefix (low_ip c)" "in_prefix (high_ip c)"
proof -
  have "drop_bit 17 a = drop_bit 17 SUBNET_PREFIX" if "unat a div 131072 = 25353" for a :: ipv4
  proof (rule unsigned_word_eqI)
    show "unat (drop_bit 17 a) = unat (drop_bit 17 SUBNET_PREFIX)"
      using that by (simp add: drop_bit_eq_div unat_div subnet_prefix_value)
  qed
  from this [of "low_ip c"] this [of "high_ip c"] show "in_prefix (low_ip c)" "in_prefix (high_ip c)"
    using counter_less [of c] by (simp_all add: in_prefix_def SUBNET_PREFIX_LENGTH_def high_ip_value low_ip_value)
qed

section \<open>The namespaces of a network\<close>

text \<open>The namespaces made between two states, as the numbers of their names.\<close>

definition made :: "network_env \<Rightarrow> network_state \<Rightarrow> namespace topology list \<Rightarrow> network_state \<Rightarrow> bool" where
  "made E s ns s' \<longleftrightarrow> (\<exists>ks. mset (map ns_path (concat (map preorder ns))) = mset (map (netns_path E \<circ> uuid E) ks) \<and>
     distinct ks \<and> set ks \<subseteq> {uuids s..<uuids s'} \<and> uuids s \<le> uuids s' \<and> existing s' = existing s \<union> uuid E ` set ks)"

lemma made_append:
  assumes "made E s ns s1" and "made E s1 ms s2"
  shows "made E s (ns @ ms) s2"
proof -
  obtain ks where ks: "mset (map ns_path (concat (map preorder ns))) = mset (map (netns_path E \<circ> uuid E) ks)"
    "distinct ks" "set ks \<subseteq> {uuids s..<uuids s1}" "uuids s \<le> uuids s1" "existing s1 = existing s \<union> uuid E ` set ks"
    using assms(1) by (auto simp: made_def)
  obtain js where js: "mset (map ns_path (concat (map preorder ms))) = mset (map (netns_path E \<circ> uuid E) js)"
    "distinct js" "set js \<subseteq> {uuids s1..<uuids s2}" "uuids s1 \<le> uuids s2" "existing s2 = existing s1 \<union> uuid E ` set js"
    using assms(2) by (auto simp: made_def)
  have "set ks \<inter> set js = {}" using ks(3) js(3) by fastforce
  then show ?thesis unfolding made_def
    using ks js by (intro exI [of _ "ks @ js"]) (auto simp: image_Un)
qed

lemma made_number: "uuids s' = Suc (uuids s) \<Longrightarrow> existing s' = existing s \<Longrightarrow> made E s [] s'"
  by (simp add: made_def exI [of _ "[]"])

lemma preorder_add_children: "mset (preorder (foldl add_child t cs)) = mset (preorder t) + mset (concat (map preorder cs))"
proof (induction cs arbitrary: t)
  case (Cons c cs)
  have "mset (preorder (add_child t c)) = mset (preorder t) + mset (preorder c)"
    by (cases t) (simp add: add_child_def sort_children_key mset_concat image_mset.compositionality flip: sum_mset_sum_list)
  then show ?case by (simp add: Cons)
qed simp

lemma realize_children_made:
  assumes "\<And>t b s n s'. t \<in> set ts \<Longrightarrow> realize_topology E t b s = (Ok n, s') \<Longrightarrow> made E s [n] s'"
    and "realize_children E ts bs ns s = (Ok (bs', ns'), s')"
  shows "\<exists>cs. ns' = ns @ cs \<and> made E s cs s'"
  using assms
proof (induction ts arbitrary: bs ns s)
  case Nil
  then show ?case by (auto simp: made_def intro: exI [of _ "[]"])
next
  case (Cons t ts)
  from Cons.prems(2) obtain name s2 n s3 where s2: "uuids s2 = Suc (uuids s)" "existing s2 = existing s"
    and t: "realize_topology E t (Some \<lparr>bd_name = name, bd_ip = high_ip (subnet_counter s)\<rparr>) s2 = (Ok n, s3)"
    and r: "realize_children E ts (bs @ [\<lparr>bd_name = name, bd_ip = low_ip (subnet_counter s)\<rparr>]) (ns @ [n]) s3 = (Ok (bs', ns'), s')"
    by (rule realize_childrenE)
  have "\<exists>cs. ns' = (ns @ [n]) @ cs \<and> made E s3 cs s'"
    by (rule Cons.IH [OF _ r]) (rule Cons.prems(1), simp_all)
  then obtain cs where cs: "ns' = (ns @ [n]) @ cs" "made E s3 cs s'" by blast
  have "made E s2 [n] s3" using Cons.prems(1) [OF _ t] by simp
  from made_append [OF made_number [OF s2, of E] made_append [OF this cs(2)]] cs(1) show ?case by auto
qed

lemma realize_made: "realize_topology E t b s = (Ok n, s') \<Longrightarrow> made E s [n] s'"
proof (induction t arbitrary: b s n s')
  case (Topology u cs)
  let ?bs = "case b of Some b \<Rightarrow> [b] | None \<Rightarrow> []"
  from Topology.prems obtain bridges ks s1 path adapters where
      k: "realize_children E cs ?bs [] s = (Ok (bridges, ks), s1)"
    and a: "create_network_namespace E bridges s1 = (Ok (path, adapters), s')"
    and n: "n = foldl add_child (topology_new \<lparr>ns_path = path, ns_ip = (case b of Some d \<Rightarrow> bd_ip d | None \<Rightarrow> LOCALHOST), ns_adapters = adapters\<rparr>) ks"
    by (auto simp: outcome_simps Let_def)
  have ks: "made E s ks s1" using realize_children_made [OF Topology.IH k] by simp
  have "path = netns_path E (uuid E (uuids s1))" "uuids s' = Suc (uuids s1)" "existing s' = existing s1 \<union> {uuid E (uuids s1)}"
    using a by (auto simp: create_network_namespace_def fresh_uuid_def take_subnet_def Let_def split: if_split_asm option.split_asm prod.split_asm)
  then have "made E s1 [topology_new \<lparr>ns_path = path, ns_ip = (case b of Some d \<Rightarrow> bd_ip d | None \<Rightarrow> LOCALHOST), ns_adapters = adapters\<rparr>] s'"
    by (simp add: made_def topology_new_def exI [of _ "[uuids s1]"])
  from made_append [OF ks this] show ?case
    by (simp add: made_def n preorder_add_children topology_new_def add.commute)
qed

text \<open>Deleting namespaces that exist and have different names.\<close>

lemma delete_namespaces_all:
  assumes "map (path_file_name \<circ> ns_path) nss = map Some names" "distinct names" "set names \<subseteq> existing s" "\<And>name. removable E name"
  shows "delete_namespaces E nss s = (Ok (), s\<lparr>existing := existing s - set names\<rparr>)"
  using assms(1-3)
proof (induction nss arbitrary: names s)
  case (Cons ns nss)
  then obtain name names' where n: "names = name # names'" "path_file_name (ns_path ns) = Some name"
    "map (path_file_name \<circ> ns_path) nss = map Some names'" by (cases names) (auto simp: comp_def)
  have "delete_namespaces E nss (s\<lparr>existing := existing s - {name}\<rparr>) =
      (Ok (), s\<lparr>existing := existing s - {name} - set names'\<rparr>)"
    using Cons.IH [OF n(3), of "s\<lparr>existing := existing s - {name}\<rparr>"] Cons.prems(2,3) n(1) by auto
  moreover have "existing s - {name} - set names' = existing s - set names" using n(1) by auto
  ultimately show ?case using Cons.prems(3) n assms(4) by (simp add: delete_namespace_def and_do_def give_def)
qed simp

section \<open>Properties\<close>

text \<open>
  C11: the network of a topology has the topology's shape; every connection of it is a bridge that both namespaces
  have, in one subnet, at the child with the address the child carries; and if it needs at most \<open>2\<^sup>1\<^sup>6\<close> subnets
  no address is given twice and all lie in the prefix.
\<close>

theorem realize_sound:
  assumes "built t" and "realize_topology E t None s = (Ok n, s')" and "subnets_used t \<le> 65536"
  shows "topology_eq n t \<and> linked n \<and> distinct (addresses n) \<and> list_all in_prefix (addresses n)"
proof -
  have n: "realized t None s n s'" using assms(1,2) realize_realized built_canonical by blast
  then have m: "mset (addresses n) = mset (subnet_block (subnet_counter s) (subnets_used t))" by (simp add: realized_def)
  have "distinct (addresses n)"
    using m distinct_block [OF assms(3)] by (rule mset_eq_imp_distinct_iff [THEN iffD2])
  moreover have "set (addresses n) = set (subnet_block (subnet_counter s) (subnets_used t))"
    using m by (rule mset_eq_setD)
  then have "list_all in_prefix (addresses n)" by (auto simp: list_all_iff block_addresses subnets_in_prefix)
  ultimately show ?thesis using n by (simp add: realized_def topology_eq_cmp topology_cmp_iff)
qed

text \<open>A system on which every call succeeds, and a topology with two services, one of them with a service.\<close>

definition demo_net :: network_env where
  "demo_net = \<lparr>uuid = (\<lambda>k. (48 + k) # ustr ''0000000-0000-0000''), creatable = (\<lambda>_. True), attachable = (\<lambda>_ _. True),
     removable = (\<lambda>_. True), netns_path = (\<lambda>name. ustr ''/run/netns/'' @ name)\<rparr>"

definition demo_shape :: "unit topology" where
  "demo_shape = with_children () [topology_new (), with_children () [topology_new ()]]"

definition demo_start :: network_state where
  "demo_start = \<lparr>subnet_counter = 65534, uuids = 0, existing = {ustr ''host''}\<rparr>"

definition demo_network :: "namespace topology" where
  "demo_network = (case realize_topology demo_net demo_shape None demo_start of (Ok n, _) \<Rightarrow> n)"

lemma demo_built: "built demo_shape"
  unfolding demo_shape_def by (rule built_children, auto intro!: built_children built_new)

lemma str_upto_numeral:
  "str_upto (c # cs) (numeral n) =
     (if numeral n < len_utf8 c then None else map_option ((#) c) (str_upto cs (numeral n - len_utf8 c)))"
  by (simp add: numeral_eq_Suc)

lemma demo_realized: "\<exists>s'. realize_topology demo_net demo_shape None demo_start = (Ok demo_network, s')"
  unfolding demo_network_def
  by (simp add: demo_net_def demo_shape_def demo_start_def with_children_def sort_children_def topology_new_def ustr_def
    create_network_namespace_def fresh_uuid_def take_subnet_def str_truncate_def str_get_def and_do_def give_def case_prod_beta Let_def len_utf8_def str_upto_numeral blen_def)

lemma demo_file_name: "path_file_name (netns_path demo_net (uuid demo_net k)) = Some (uuid demo_net k)"
  by (simp add: path_file_name_def demo_net_def components_def ustr_def is_component_def slash_def)

theorem realize_sound_witness: "distinct (addresses demo_network) \<and> linked demo_network"
proof -
  obtain s' where "realize_topology demo_net demo_shape None demo_start = (Ok demo_network, s')" using demo_realized by blast
  from realize_sound [OF demo_built this] show ?thesis
    by (simp add: demo_shape_def with_children_def sort_children_def topology_new_def)
qed

text \<open>The first subnets handed out since the counter had a value.\<close>

fun picks :: "nat \<Rightarrow> 16 word \<Rightarrow> (ipv4 \<times> ipv4 \<times> ipv4) list" where
  "picks 0 c = []"
| "picks (Suc k) c = (let (r, c) = pick_subnet c in r # picks k c)"

lemma picks_nth: "i < k \<Longrightarrow> picks k c ! i = fst (pick_subnet (c + of_nat i))"
proof (induction k arbitrary: c i)
  case (Suc k)
  have "snd (pick_subnet c) = c + 1" by (simp add: pick_subnet_def Let_def)
  then show ?case using Suc by (cases i) (simp_all add: case_prod_beta Let_def add.assoc)
qed simp

text \<open>
  C13: the counter of subnets is the only state of \<open>pick_subnet\<close> and grows by one at each call, so the calls of all
  requests, however interleaved, hand out one sequence. Two of them share an address exactly when their positions
  are equal modulo \<open>2\<^sup>1\<^sup>6\<close>: the subnets are unique only among that many in a row, whatever has been deleted.
\<close>

theorem picks_unique:
  assumes "i < k" and "j < k" and "picks k c ! i = (a, g, h)" and "picks k c ! j = (a', g', h')"
  shows "{g, h} \<inter> {g', h'} = {} \<longleftrightarrow> i mod 65536 \<noteq> j mod 65536"
proof -
  have gh: "g = low_ip (c + of_nat i)" "h = high_ip (c + of_nat i)" "g' = low_ip (c + of_nat j)" "h' = high_ip (c + of_nat j)"
    using assms by (simp_all add: picks_nth)
  show ?thesis
    using counter_cycle [of c i j] subnets_apart [of "c + of_nat i" "c + of_nat j"] unfolding gh by auto
qed

text \<open>
  C12: deleting a network, whatever other requests have made in the meantime, removes all its namespaces and no
  others.
\<close>

theorem delete_network_all:
  assumes "\<And>name. removable E name" and "inj (uuid E)"
    and "\<And>k. path_file_name (netns_path E (uuid E k)) = Some (uuid E k)"
    and "\<And>k. uuids s \<le> k \<Longrightarrow> uuid E k \<notin> existing s"
    and "realize_topology E t None s = (Ok n, s1)" and "existing s1 \<subseteq> existing s2"
  shows "\<exists>s3. delete_network E n s2 = (Ok (), s3) \<and> existing s3 = existing s2 - (existing s1 - existing s)"
proof -
  obtain ks where ks: "mset (map ns_path (preorder n)) = mset (map (netns_path E \<circ> uuid E) ks)" "distinct ks"
    "set ks \<subseteq> {uuids s..<uuids s1}" "existing s1 = existing s \<union> uuid E ` set ks"
    using realize_made [OF assms(5)] by (auto simp: made_def)
  have "mset (map ns_path (flat_data n)) = mset (map (netns_path E \<circ> uuid E) ks)"
    using ks(1) by (simp add: flat_data_def iter_collect_complete)
  then have "mset (map path_file_name (map ns_path (flat_data n))) = mset (map path_file_name (map (netns_path E \<circ> uuid E) ks))"
    by (simp only: mset_map)
  then have files: "mset (map (path_file_name \<circ> ns_path) (flat_data n)) = mset (map Some (map (uuid E) ks))"
    by (simp add: assms(3) comp_def)
  define names where "names = map (the \<circ> (path_file_name \<circ> ns_path)) (flat_data n)"
  have "set (map (path_file_name \<circ> ns_path) (flat_data n)) = set (map Some (map (uuid E) ks))"
    using files by (rule mset_eq_setD)
  then have "map (path_file_name \<circ> ns_path) (flat_data n) = map Some names"
    by (auto simp: names_def) (metis (mono_tags, lifting) imageE imageI option.sel)
  note n = this
  have "image_mset Some (mset names) = image_mset Some (mset (map (uuid E) ks))"
    using files unfolding n mset_map .
  then have names: "mset names = mset (map (uuid E) ks)"
    by (rule injD [OF multiset.inj_map [OF inj_Some]])
  have "distinct (map (uuid E) ks)" using ks(2) assms(2) by (simp add: distinct_map inj_on_subset [OF _ subset_UNIV])
  then have "distinct names" using names by (metis mset_eq_imp_distinct_iff)
  moreover have set_names: "set names = uuid E ` set ks" using mset_eq_setD [OF names] by simp
  then have "set names \<subseteq> existing s2" using ks(4) assms(6) by blast
  ultimately have "delete_namespaces E (flat_data n) s2 = (Ok (), s2\<lparr>existing := existing s2 - set names\<rparr>)"
    by (intro delete_namespaces_all n assms(1))
  moreover have "existing s1 - existing s = set names" using ks(3,4) assms(4) unfolding set_names by auto
  ultimately show ?thesis by (simp add: delete_network_def)
qed

theorem delete_network_all_witness: "\<exists>s s'. delete_network demo_net demo_network s = (Ok (), s') \<and> existing s' \<subseteq> existing demo_start"
proof -
  obtain s where s: "realize_topology demo_net demo_shape None demo_start = (Ok demo_network, s)" using demo_realized by blast
  have "inj (uuid demo_net)" by (rule injI) (simp add: demo_net_def)
  moreover have "uuid demo_net k \<notin> existing demo_start" for k by (simp add: demo_net_def demo_start_def ustr_def)
  moreover have "removable demo_net name" for name by (simp add: demo_net_def)
  ultimately have "\<exists>s3. delete_network demo_net demo_network s = (Ok (), s3) \<and> existing s3 = existing s - (existing s - existing demo_start)"
    by (intro delete_network_all [OF _ _ demo_file_name _ s order_refl])
  then show ?thesis by blast
qed

theorem picks_unique_witness:
  "insert (fst (snd (picks 65600 0 ! 7))) {snd (snd (picks 65600 0 ! 7))} \<inter>
     {fst (snd (picks 65600 0 ! 65543)), snd (snd (picks 65600 0 ! 65543))} \<noteq> {}"
proof -
  obtain a g h where p: "picks 65600 0 ! 7 = (a, g, h)" by (rule prod_cases3)
  obtain a' g' h' where q: "picks 65600 0 ! 65543 = (a', g', h')" by (rule prod_cases3)
  from picks_unique [OF _ _ p q] have "{g, h} \<inter> {g', h'} \<noteq> {}" by simp
  then show ?thesis by (simp add: p q)
qed

end
