(* ===== verification/Containerd.thy ===== *)
theory Containerd
  imports Effects Utf8 Containers Cache_Keys Users Sidecar_Network
begin

text \<open>
  \<^verbatim>\<open>engine/containerd/mod.rs\<close> and \<^verbatim>\<open>engine/containerd/files.rs\<close>: the client of containerd and of the sidecar,
  its leases, the resources it may leave behind, and the files it moves in and out of containers.

  What containerd and the sidecar answer is not in the repository. The state keeps the requests sent so far, in
  order, and an answer is a function of them with the new request at the end: any behaviour of the services is
  such a function. Requests carry what the code fills in; labels and options that are constants are left out.
\<close>

section \<open>Requests and answers\<close>

record mount =
  mount_type :: ustr
  mount_source :: ustr
  mount_target :: ustr
  mount_options :: "ustr list"

datatype capability = AuditWrite | Chown | DacOverride | Fowner | Fsetid | Kill | Mknod | NetBindService | NetRaw
  | Setfcap | Setgid | Setpcap | Setuid | SysChroot

record process_spec =
  args :: "ustr list"
  env_entries :: "ustr list"
  cwd :: ustr
  spec_user :: oci_user
  capabilities :: "capability list"

record oci_spec =
  process :: process_spec
  netns :: ustr
  bind_mounts :: "mount list"

text \<open>
  Descriptors of layers in a registry, and the writes of a stream into the content store: the name of the
  upload, the offset and the bytes.
\<close>

record layer_descriptor =
  media_type :: ustr
  digest :: ustr
  layer_size :: int

type_synonym chunk_write = "ustr \<times> nat \<times> bytes"

datatype request =
    CreateLease ustr
  | DeleteLease ustr
  | PrepareSnapshot ustr ustr ustr
  | ViewSnapshot ustr ustr ustr
  | CommitSnapshot ustr ustr
  | CreateContainer ustr ustr oci_spec ustr
  | CreateTask ustr "mount list" ustr ustr ustr
  | StartProcess ustr ustr
  | ExecProcess ustr ustr ustr ustr process_spec ustr
  | WaitProcess ustr ustr
  | KillTask ustr nat bool
  | CreateFifo
  | CreateNetwork "unit topology"
  | DeleteNetwork "namespace topology"
  | ExportFiles "mount list" ustr
  | ImportFiles "mount list" ustr bytes
  | StatSnapshot ustr
  | ApplyDiff "mount list" layer_descriptor
  | CommitPulled ustr ustr ustr ustr
  | ReadContent ustr
  | WriteContent "chunk_write list" ustr
  | CommitContent ustr nat ustr ustr
  | LeaseContent ustr ustr
  | ExportLayer mount
  | PullManifest ustr
  | Authenticate ustr
  | PullBlob ustr layer_descriptor
  | Lock ustr
  | Unlock ustr

record ('e, 'p, 'h) services =
  acks :: "request list \<Rightarrow> 'e + unit"
  mounted :: "request list \<Rightarrow> 'e + mount list"
  fifos :: "request list \<Rightarrow> 'e + ustr"
  exits :: "request list \<Rightarrow> 'e + nat"
  outlives :: "request list \<Rightarrow> nat \<Rightarrow> bool"
  networks :: "request list \<Rightarrow> 'e + namespace topology"
  exported :: "request list \<Rightarrow> 'e + bytes"
  output_lines :: "request list \<Rightarrow> ustr \<Rightarrow> ustr \<Rightarrow> ustr option list"
  already_exists :: "'e \<Rightarrow> bool"
  uuid_of :: "nat \<Rightarrow> ustr"
  retries :: "nat \<Rightarrow> nat"
  join_path :: "ustr \<Rightarrow> ustr \<Rightarrow> ustr"
  strip_ansi :: "ustr \<Rightarrow> ustr"
  hashing :: "('e, 'p) content"
  ser_exec_inputs :: "container_state \<Rightarrow> ustr \<Rightarrow> bytes"
  ser_copy_inputs :: "container_state \<Rightarrow> 'h \<Rightarrow> bytes"
  blake3 :: "bytes \<Rightarrow> 'h"
  base64_url :: "'h \<Rightarrow> ustr"
  fs_stream :: "'p \<Rightarrow> 'e + bytes"
  encode_header :: "header \<Rightarrow> bytes option"
  decode_header :: "bytes \<Rightarrow> header option"

datatype 'e client_error =
    ServiceError 'e
  | SourceError 'e "span option"
  | StreamError io_error
  | InternalError string
  | CommandFailed nat ustr ustr
  | NonUtf8Capture ustr
  | NoSuchUser user_not_found
  | Unhealthy ustr
  | InvalidImage ustr
  | InvalidJson ustr

datatype dangling_resource =
    DanglingLease ustr
  | DanglingTask ustr
  | DanglingNetwork "namespace topology"

text \<open>
  A resource is noted together with how many requests had been sent by then. Nothing depends on this number; it tells
  what an operation that is aborted on its way has noted.
\<close>

record client_state =
  requests :: "request list"
  dangling :: "(nat \<times> dangling_resource) list"
  free_networks :: "unit topology \<Rightarrow> namespace topology list option"
  uuids_drawn :: nat

type_synonym ('e, 'a) client_action = "(client_state, 'e client_error, 'a) action"

text \<open>A request is recorded whatever its answer; \<open>try_ask\<close> hands an error to the caller.\<close>

definition try_ask :: "(request list \<Rightarrow> 'e + 'a) \<Rightarrow> request \<Rightarrow> ('e, 'e + 'a) client_action" where
  "try_ask answer r s = (Ok (answer (requests s @ [r])), s\<lparr>requests := requests s @ [r]\<rparr>)"

definition of_sum :: "('a \<Rightarrow> 'e) \<Rightarrow> 'a + 'b \<Rightarrow> ('e, 'b) outcome" where
  "of_sum f v = (case v of Inl e \<Rightarrow> Err (f e) | Inr x \<Rightarrow> Ok x)"

definition ask :: "(request list \<Rightarrow> 'e + 'a) \<Rightarrow> request \<Rightarrow> ('e, 'a) client_action" where
  "ask answer r = and_do (try_ask answer r) (\<lambda>v. lift_outcome (of_sum ServiceError v))"

definition new_uuid :: "('e, 'p, 'h) services \<Rightarrow> ('e, ustr) client_action" where
  "new_uuid S s = (Ok (uuid_of S (uuids_drawn s)), s\<lparr>uuids_drawn := Suc (uuids_drawn s)\<rparr>)"

definition register_dangling :: "dangling_resource \<Rightarrow> ('e, unit) client_action" where
  "register_dangling d = update (\<lambda>s. s\<lparr>dangling := dangling s @ [(length (requests s), d)]\<rparr>)"

definition new_lease :: "('e, 'p, 'h) services \<Rightarrow> ('e, ustr) client_action" where
  "new_lease S =
     and_do (new_uuid S) (\<lambda>lease.
     and_do (register_dangling (DanglingLease lease)) (\<lambda>_.
     and_do (ask (acks S) (CreateLease lease)) (\<lambda>_. give lease)))"

definition drop_lease :: "('e, 'p, 'h) services \<Rightarrow> ustr \<Rightarrow> ('e, unit) client_action" where
  "drop_lease S lease = ask (acks S) (DeleteLease lease)"

text \<open>What shutting down sends for a resource; the answers are ignored.\<close>

fun release_request :: "dangling_resource \<Rightarrow> request" where
  "release_request (DanglingLease lease) = DeleteLease lease"
| "release_request (DanglingTask container) = KillTask container 9 True"
| "release_request (DanglingNetwork network) = DeleteNetwork network"

fun release_all :: "('e, 'p, 'h) services \<Rightarrow> dangling_resource list \<Rightarrow> ('e, unit) client_action" where
  "release_all S [] = give ()"
| "release_all S (d # ds) = and_do (try_ask (acks S) (release_request d)) (\<lambda>_. release_all S ds)"

definition shutdown :: "('e, 'p, 'h) services \<Rightarrow> ('e, unit) client_action" where
  "shutdown S = and_do (inspect dangling) (\<lambda>ds. and_do (update (\<lambda>s. s\<lparr>dangling := []\<rparr>)) (\<lambda>_. release_all S (map snd ds)))"

section \<open>Files\<close>

definition read_file :: "('e, 'p, 'h) services \<Rightarrow> mount list \<Rightarrow> ustr \<Rightarrow> ('e, ustr) client_action" where
  "read_file S mounts file =
     and_do (ask (exported S) (ExportFiles mounts file)) (\<lambda>stream.
     and_do (lift_outcome (map_err StreamError (read_frame (decode_header S) stream))) (\<lambda>(header, rest). case header of
         FileHeader _ _ \<Rightarrow> lift_outcome (ok_or (utf8_decode rest) (StreamError Malformed))
       | FolderHeader _ _ \<Rightarrow> fail (InternalError ''Expected file entry header'')))"

definition write_file :: "('e, 'p, 'h) services \<Rightarrow> mount list \<Rightarrow> ustr \<Rightarrow> bytes \<Rightarrow> ('e, unit) client_action" where
  "write_file S mounts file content =
     and_do (lift_outcome (map_err StreamError (write_frame (encode_header S) (FileHeader [] (length content))))) (\<lambda>header.
     ask (acks S) (ImportFiles mounts file (header @ content)))"

text \<open>Committing a snapshot: that the name is taken already counts as success.\<close>

definition commit_snapshot :: "('e, 'p, 'h) services \<Rightarrow> ustr \<Rightarrow> ustr \<Rightarrow> ('e, unit) client_action" where
  "commit_snapshot S name key =
     and_do (try_ask (acks S) (CommitSnapshot name key)) (\<lambda>v. case v of
         Inl e \<Rightarrow> if already_exists S e then give () else fail (ServiceError e)
       | Inr _ \<Rightarrow> give ())"

definition here :: "ustr \<Rightarrow> ustr" where
  "here path = (if path = ustr ''.'' then [] else path)"

definition copy_name :: "('e, 'p, 'h) services \<Rightarrow> container_state \<Rightarrow> 'p file_system \<Rightarrow> ('e client_error, ustr) outcome" where
  "copy_name S st src =
     and_then (map_err (\<lambda>(e, sp). SourceError e sp) (fs_content_hash (hashing S) src)) (\<lambda>stream.
     Ok (base64_url S (hash_from_data (blake3 S) ScopeWithInputs
       (ser_copy_inputs S st (hash_from_data (blake3 S) ScopeWithInputs stream)))))"

definition copy_fs_into_container :: "('e, 'p, 'h) services \<Rightarrow> container_state \<Rightarrow> 'p file_system \<Rightarrow> ustr \<Rightarrow>
    ('e, container_state) client_action" where
  "copy_fs_into_container S st src dest =
     and_do (lift_outcome (copy_name S st src)) (\<lambda>final_snapshot.
     and_do (new_lease S) (\<lambda>lease.
     and_do (new_uuid S) (\<lambda>key.
     and_do (ask (mounted S) (PrepareSnapshot key (snapshot st) lease)) (\<lambda>mounts.
     and_do (lift_outcome (of_sum (\<lambda>e. SourceError e (producer src)) (fs_stream S (provider src)))) (\<lambda>stream.
     and_do (ask (acks S) (ImportFiles mounts (join_path S (working_dir (config st)) (here dest)) stream)) (\<lambda>_.
     and_do (commit_snapshot S final_snapshot key) (\<lambda>_.
     and_do (drop_lease S lease) (\<lambda>_.
     give (ContainerState final_snapshot (config st))))))))))"

text \<open>The provider of an exported path: the mounts of a view and the path in them.\<close>

definition export_path :: "('e, 'p, 'h) services \<Rightarrow> container_state \<Rightarrow> ustr \<Rightarrow> ('e, mount list \<times> ustr) client_action" where
  "export_path S st path =
     and_do (new_uuid S) (\<lambda>view.
     and_do (new_lease S) (\<lambda>lease.
     and_do (ask (mounted S) (ViewSnapshot (snapshot st @ ustr ''/view/'' @ view) (snapshot st) lease)) (\<lambda>mounts.
     give (mounts, join_path S (working_dir (config st)) (here path)))))"

lemma try_ask_Ok [outcome_simps]:
  "try_ask answer r s = (Ok v, s') \<longleftrightarrow> v = answer (requests s @ [r]) \<and> s' = s\<lparr>requests := requests s @ [r]\<rparr>"
  "try_ask answer r s = (Err e, s') \<longleftrightarrow> False"
  by (auto simp: try_ask_def)

lemma of_sum_Ok [outcome_simps]: "of_sum f v = Ok x \<longleftrightarrow> v = Inr x"
  by (auto simp: of_sum_def split: sum.split)

lemma ask_Ok [outcome_simps]:
  "ask answer r s = (Ok x, s') \<longleftrightarrow> answer (requests s @ [r]) = Inr x \<and> s' = s\<lparr>requests := requests s @ [r]\<rparr>"
  by (auto simp: ask_def outcome_simps)

lemma new_uuid_Ok [outcome_simps]:
  "new_uuid S s = (Ok u, s') \<longleftrightarrow> u = uuid_of S (uuids_drawn s) \<and> s' = s\<lparr>uuids_drawn := Suc (uuids_drawn s)\<rparr>"
  by (auto simp: new_uuid_def)

end
