(* ===== verification/Exec.thy ===== *)
theory Exec
  imports Containerd
begin

text \<open>
  \<^verbatim>\<open>engine/containerd/exec.rs\<close>: running a command in a container with its services. A topology of containers is
  spun up from the leaves, the command is waited for, and the topology is spun down from the root, every container
  committed to a snapshot named after the inputs. Services that the code starts concurrently are started one after
  another, one of the schedules of \<open>try_join_all\<close>; the semaphore that bounds the commands run at once and the
  reporting of lines are left out.
\<close>

section \<open>Networks\<close>

definition get_network :: "('e, 'p, 'h) services \<Rightarrow> unit topology \<Rightarrow> ('e, namespace topology) client_action" where
  "get_network S topology = and_do (inspect free_networks) (\<lambda>free. case free topology of
       Some (n # ns) \<Rightarrow>
         and_do (update (\<lambda>s. s\<lparr>free_networks := (free_networks s)(topology \<mapsto> butlast (n # ns))\<rparr>)) (\<lambda>_.
         give (last (n # ns)))
     | _ \<Rightarrow>
         and_do (ask (networks S) (CreateNetwork topology)) (\<lambda>network.
         and_do (register_dangling (DanglingNetwork network)) (\<lambda>_. give network)))"

definition release_network :: "unit topology \<Rightarrow> namespace topology \<Rightarrow> ('e, unit) client_action" where
  "release_network topology network = update (\<lambda>s. s\<lparr>free_networks := (free_networks s)(topology \<mapsto>
     (case free_networks s topology of Some ns \<Rightarrow> ns | None \<Rightarrow> []) @ [network])\<rparr>)"

section \<open>Waiting\<close>

definition wait_for_exit :: "('e, 'p, 'h) services \<Rightarrow> ustr \<Rightarrow> ustr \<Rightarrow> ('e, nat) client_action" where
  "wait_for_exit S container exec_id = ask (exits S) (WaitProcess container exec_id)"

text \<open>Waiting for a process for so many seconds: \<open>None\<close> when they pass first.\<close>

definition wait_within :: "('e, 'p, 'h) services \<Rightarrow> ustr \<Rightarrow> ustr \<Rightarrow> nat \<Rightarrow> ('e, nat option) client_action" where
  "wait_within S container exec_id seconds = and_do (try_ask (exits S) (WaitProcess container exec_id)) (\<lambda>v.
     and_do (inspect requests) (\<lambda>h. if outlives S h seconds then give None
       else lift_outcome (of_sum ServiceError (map_sum id Some v))))"

definition send_signal :: "('e, 'p, 'h) services \<Rightarrow> ustr \<Rightarrow> nat \<Rightarrow> ('e, unit) client_action" where
  "send_signal S container signal = and_do (try_ask (acks S) (KillTask container signal False)) (\<lambda>_. give ())"

text \<open>\<open>Retryable::retry\<close>: as many further attempts as the delays leave room for.\<close>

fun retry :: "nat \<Rightarrow> ('s, 'e, 'a) action \<Rightarrow> ('s, 'e, 'a) action" where
  "retry 0 f s = f s"
| "retry (Suc n) f s = (case f s of (Err _, s) \<Rightarrow> retry n f s | r \<Rightarrow> r)"

definition shell :: "ustr \<Rightarrow> ustr list" where
  "shell command = [ustr ''/bin/sh'', ustr ''-c'', command]"

definition healthcheck_attempt :: "('e, 'p, 'h) services \<Rightarrow> ustr \<Rightarrow> process_spec \<Rightarrow> ustr \<Rightarrow> ustr \<Rightarrow> ('e, unit) client_action" where
  "healthcheck_attempt S container base_process command lease =
     and_do (new_uuid S) (\<lambda>exec_id.
     and_do (ask (fifos S) CreateFifo) (\<lambda>stdout.
     and_do (ask (fifos S) CreateFifo) (\<lambda>stderr.
     and_do (ask (acks S) (ExecProcess container exec_id stdout stderr base_process lease)) (\<lambda>_.
     and_do (ask (acks S) (StartProcess container exec_id)) (\<lambda>_.
     and_do (wait_within S container exec_id 1) (\<lambda>exit.
     let exit_code = (case exit of Some code \<Rightarrow> code | None \<Rightarrow> 255) in
     if exit_code = 0 then give () else fail (Unhealthy command)))))))"

definition wait_for_command_success :: "('e, 'p, 'h) services \<Rightarrow> ustr \<Rightarrow> process_spec \<Rightarrow> ustr \<Rightarrow> nat \<Rightarrow> ustr \<Rightarrow>
    ('e, unit) client_action" where
  "wait_for_command_success S container base_process command timeout lease =
     retry (retries S timeout) (healthcheck_attempt S container (base_process\<lparr>args := shell command\<rparr>) command lease)"

section \<open>The output of a command\<close>

text \<open>
  The lines of both pipes in the order in which they arrive, \<open>None\<close> for a line that is not UTF-8.
\<close>

fun read_lines :: "(ustr \<Rightarrow> ustr) \<Rightarrow> ustr option list \<Rightarrow> ustr \<Rightarrow> bool \<Rightarrow> ustr + ustr" where
  "read_lines strip [] result success = (if success then Inr result else Inl result)"
| "read_lines strip (Some line # lines) result success =
     read_lines strip lines ((if result \<noteq> [] then result @ [10] else result) @ strip line) success"
| "read_lines strip (None # lines) result success =
     read_lines strip lines ((if result \<noteq> [] then result @ [10] else result) @ ustr ''<<NON_UTF8_ON_LINE>>'') False"

definition read_stdout :: "(ustr \<Rightarrow> ustr) \<Rightarrow> ustr option list \<Rightarrow> ustr + ustr" where
  "read_stdout strip lines = read_lines strip lines [] True"

section \<open>Creating a container\<close>

definition construct_spec_user :: "('e, 'p, 'h) services \<Rightarrow> mount list \<Rightarrow> ustr \<Rightarrow> ('e, oci_user \<times> ustr) client_action" where
  "construct_spec_user S mounts usr =
     and_do (read_file S mounts (ustr ''/etc/passwd'')) (\<lambda>passwd.
     and_do (read_file S mounts (ustr ''/etc/group'')) (\<lambda>groups.
     lift_outcome (map_err NoSuchUser (resolve_user (parse_oci_user usr) (parse_passwd passwd) (parse_etc_group groups)))))"

definition ipv4_text :: "ipv4 \<Rightarrow> ustr" where
  "ipv4_text ip = join_with [46] (map (\<lambda>k. ustr (dec (unat (drop_bit k ip) mod 256))) [24, 16, 8, 0])"

definition hosts_content :: "(ustr \<times> ipv4) list \<Rightarrow> ustr" where
  "hosts_content hosts = join_with [10]
     (map (\<lambda>(hostname, ip). ipv4_text ip @ [9] @ hostname) hosts @ [ustr ''127.0.0.1 localhost'', ustr ''::1 localhost''])"

definition bind_mount :: "ustr \<Rightarrow> ustr \<Rightarrow> ustr \<Rightarrow> mount" where
  "bind_mount source target mode =
     \<lparr>mount_type = ustr ''bind'', mount_source = source, mount_target = target, mount_options = [mode, ustr ''bind'']\<rparr>"

definition write_hosts_file :: "('e, 'p, 'h) services \<Rightarrow> (ustr \<times> ipv4) list \<Rightarrow> ('e, mount) client_action" where
  "write_hosts_file S hosts =
     and_do (new_uuid S) (\<lambda>suffix.
     let name = ustr ''hosts-'' @ suffix in
     and_do (write_file S [bind_mount (ustr ''/run/serpentine'') [] (ustr ''rw'')] name (utf8_encode (hosts_content hosts))) (\<lambda>_.
     give (bind_mount (ustr ''/run/serpentine/'' @ name) (ustr ''/etc/hosts'') (ustr ''ro''))))"

definition docker_capabilities :: "capability list" where
  "docker_capabilities = [AuditWrite, Chown, DacOverride, Fowner, Fsetid, Kill, Mknod, NetBindService, NetRaw,
     Setfcap, Setgid, Setpcap, Setuid, SysChroot]"

definition env_strings :: "container_config \<Rightarrow> ustr \<Rightarrow> ustr list" where
  "env_strings c home_dir = map (\<lambda>(key, v). key @ [61] @ v) (env c) @ [ustr ''HOME='' @ home_dir]"

definition create_container :: "('e, 'p, 'h) services \<Rightarrow> container_state \<Rightarrow> ustr \<Rightarrow> ustr \<Rightarrow> (ustr \<times> ipv4) list \<Rightarrow>
    mount list \<Rightarrow> ustr \<Rightarrow> ('e, ustr \<times> process_spec) client_action" where
  "create_container S st command network_namespace hosts mounts lease =
     and_do (new_uuid S) (\<lambda>container.
     and_do (register_dangling (DanglingTask container)) (\<lambda>_.
     and_do (case user (config st) of
         Some u \<Rightarrow> construct_spec_user S mounts u
       | None \<Rightarrow> give (\<lparr>oci_uid = 0, oci_gid = 0, oci_additional_gids = []\<rparr>, ustr ''/root'')) (\<lambda>(u, home_dir).
     let p = \<lparr>args = shell command, env_entries = env_strings (config st) home_dir, cwd = working_dir (config st),
              spec_user = u, capabilities = docker_capabilities\<rparr> in
     and_do (write_hosts_file S hosts) (\<lambda>hosts_mount.
     and_do (ask (acks S) (CreateContainer container (snapshot st)
         \<lparr>process = p, netns = network_namespace,
          bind_mounts = [bind_mount (ustr ''/etc/resolv.conf'') (ustr ''/etc/resolv.conf'') (ustr ''ro''), hosts_mount]\<rparr>
         lease)) (\<lambda>_.
     give (container, p))))))"

section \<open>Up and down\<close>

record handle =
  h_id :: ustr
  h_pipes :: "ustr \<times> ustr"
  h_snapshot :: ustr
  h_node :: topology_node

definition wait_healthy :: "('e, 'p, 'h) services \<Rightarrow> container_like \<Rightarrow> ustr \<Rightarrow> process_spec \<Rightarrow> ustr \<Rightarrow> ('e, unit) client_action" where
  "wait_healthy S c container p lease = (case c of
       Container _ \<Rightarrow> give ()
     | Service s \<Rightarrow> wait_for_command_success S container p (fst (healthcheck (svc_config s))) (snd (healthcheck (svc_config s))) lease)"

definition start_container :: "('e, 'p, 'h) services \<Rightarrow> ustr \<Rightarrow> topology_node \<Rightarrow> namespace \<Rightarrow> (ustr \<times> ipv4) list \<Rightarrow>
    ('e, handle) client_action" where
  "start_container S lease node ns hosts =
     and_do (new_uuid S) (\<lambda>mutable_snapshot.
     and_do (ask (mounted S) (PrepareSnapshot mutable_snapshot (snapshot (like_deref (state node))) lease)) (\<lambda>mounts.
     and_do (create_container S (like_deref (state node)) (get_cmd node) (ns_path ns) hosts mounts lease) (\<lambda>(container, p).
     and_do (ask (fifos S) CreateFifo) (\<lambda>stdout.
     and_do (ask (fifos S) CreateFifo) (\<lambda>stderr.
     and_do (ask (acks S) (CreateTask container mounts stdout stderr lease)) (\<lambda>_.
     and_do (ask (acks S) (StartProcess container [])) (\<lambda>_.
     and_do (wait_healthy S (state node) container p lease) (\<lambda>_.
     give \<lparr>h_id = container, h_pipes = (stdout, stderr), h_snapshot = mutable_snapshot, h_node = node\<rparr>))))))))"

fun spinup_topology :: "('e, 'p, 'h) services \<Rightarrow> ustr \<Rightarrow> (topology_node \<times> namespace) topology \<Rightarrow> ('e, handle topology) client_action"
and spinup_all :: "('e, 'p, 'h) services \<Rightarrow> ustr \<Rightarrow> (topology_node \<times> namespace) topology list \<Rightarrow> ('e, handle topology list) client_action" where
  "spinup_topology S lease (Topology nn cs) s =
     and_do (spinup_all S lease cs) (\<lambda>service_handles.
     and_do (start_container S lease (fst nn) (snd nn)
         (map (\<lambda>c. (get_hostname (fst (get_data c)), ns_ip (snd (get_data c)))) cs)) (\<lambda>h.
     give (with_children h service_handles))) s"
| "spinup_all S lease [] s = give [] s"
| "spinup_all S lease (c # cs) s =
     and_do (spinup_topology S lease c) (\<lambda>h. and_do (spinup_all S lease cs) (\<lambda>hs. give (h # hs))) s"

definition set_services :: "(ustr \<times> service_state) list \<Rightarrow> container_config \<Rightarrow> container_config" where
  "set_services svcs c = ContainerConfig (env c) (working_dir c) (user c) svcs"

fun is_service :: "container_like \<Rightarrow> bool" where
  "is_service (Service _) = True"
| "is_service (Container _) = False"

text \<open>The exit code after the signal to stop, which is forced after ten seconds.\<close>

definition exit_or_kill :: "('e, 'p, 'h) services \<Rightarrow> ustr \<Rightarrow> ('e, nat) client_action" where
  "exit_or_kill S container =
     and_do (wait_within S container [] 10) (\<lambda>exit. case exit of
         Some code \<Rightarrow> give code
       | None \<Rightarrow> and_do (send_signal S container 9) (\<lambda>_. wait_for_exit S container []))"

definition report_exit :: "('e, 'p, 'h) services \<Rightarrow> handle \<Rightarrow> nat \<Rightarrow> ('e, ustr + ustr) client_action" where
  "report_exit S h exit_code =
     and_do (inspect (\<lambda>s. read_stdout (strip_ansi S) (output_lines S (requests s) (fst (h_pipes h)) (snd (h_pipes h))))) (\<lambda>stdout.
     if exit_code \<noteq> 0 \<and> \<not> is_service (state (h_node h))
     then fail (CommandFailed exit_code (get_cmd (h_node h)) (case stdout of Inl out \<Rightarrow> out | Inr out \<Rightarrow> out))
     else give stdout)"

definition stop_container :: "('e, 'p, 'h) services \<Rightarrow> handle \<Rightarrow> ('e, ustr + ustr) client_action" where
  "stop_container S h =
     and_do (send_signal S (h_id h) 2) (\<lambda>_.
     and_do (exit_or_kill S (h_id h)) (\<lambda>exit_code. report_exit S h exit_code))"

definition committed :: "ustr \<Rightarrow> (ustr \<times> service_state) list \<Rightarrow> container_like \<Rightarrow> container_like" where
  "committed name svcs c =
     like_update_config (set_services svcs) (like_assign (ContainerState name (config (like_deref c))) c)"

fun spindown_topology :: "('e, 'p, 'h) services \<Rightarrow> handle topology \<Rightarrow> ustr \<Rightarrow> ('e, container_like \<times> (ustr + ustr)) client_action"
and spindown_all :: "('e, 'p, 'h) services \<Rightarrow> handle topology list \<Rightarrow> ustr \<Rightarrow> (ustr \<times> service_state) list \<Rightarrow>
    ('e, (ustr \<times> service_state) list) client_action" where
  "spindown_topology S (Topology h cs) name s =
     and_do (stop_container S h) (\<lambda>stdout.
     and_do (spindown_all S cs name []) (\<lambda>svcs.
     and_do (commit_snapshot S name (h_snapshot h)) (\<lambda>_.
     give (committed name svcs (state (h_node h)), stdout)))) s"
| "spindown_all S [] name svcs s = give svcs s"
| "spindown_all S (c # cs) name svcs s = (case hostname (h_node (get_data c)) of
       None \<Rightarrow> fail (InternalError ''Child container missing hostname'') s
     | Some host \<Rightarrow>
         and_do (spindown_topology S c (name @ [47] @ host)) (\<lambda>(child, _). case child of
           Service sv \<Rightarrow> spindown_all S cs name (bt_insert host sv svcs)
         | Container _ \<Rightarrow> fail (InternalError ''Expected a service'')) s)"

section \<open>Running a command\<close>

definition exec_name :: "('e, 'p, 'h) services \<Rightarrow> container_state \<Rightarrow> ustr \<Rightarrow> ustr" where
  "exec_name S st command = base64_url S (hash_from_data (blake3 S) ScopeExecInputs (ser_exec_inputs S st command))"

definition exec_internal :: "('e, 'p, 'h) services \<Rightarrow> container_state \<Rightarrow> ustr \<Rightarrow> ustr \<Rightarrow>
    ('e, container_state \<times> (ustr + ustr)) client_action" where
  "exec_internal S st command lease =
     (let snapshot_name = exec_name S st command;
          containers = container_topology command st;
          shape = map_data (\<lambda>_. ()) containers in
      and_do (get_network S shape) (\<lambda>network.
      and_do (spinup_topology S lease (zip_topology containers network)) (\<lambda>running.
      and_do (wait_for_exit S (h_id (get_data running)) []) (\<lambda>_.
      and_do (spindown_topology S running snapshot_name) (\<lambda>(c, stdout).
      and_do (release_network shape network) (\<lambda>_. case c of
        Container c \<Rightarrow> give (c, stdout)
      | Service _ \<Rightarrow> fail (InternalError ''Invalid container topology: root node was a service'')))))))"

text \<open>
  The same as a state machine: where a command is between two of the steps above, and the step it does next. Commands that
  run at the same time interleave at least at these places.
\<close>

datatype command_stage =
    Acquire
  | SpinUp "namespace topology"
  | WaitExit "namespace topology" "handle topology"
  | SpinDown "namespace topology" "handle topology"
  | Release "namespace topology" container_like "ustr + ustr"
  | Finish container_like "ustr + ustr"

definition exec_shape :: "container_state \<Rightarrow> ustr \<Rightarrow> unit topology" where
  "exec_shape st command = map_data (\<lambda>_. ()) (container_topology command st)"

fun exec_stage :: "('e, 'p, 'h) services \<Rightarrow> container_state \<Rightarrow> ustr \<Rightarrow> ustr \<Rightarrow> command_stage \<Rightarrow> ('e, command_stage) client_action" where
  "exec_stage S st command lease Acquire =
     and_do (get_network S (exec_shape st command)) (\<lambda>network. give (SpinUp network))"
| "exec_stage S st command lease (SpinUp network) =
     and_do (spinup_topology S lease (zip_topology (container_topology command st) network)) (\<lambda>running.
     give (WaitExit network running))"
| "exec_stage S st command lease (WaitExit network running) =
     and_do (wait_for_exit S (h_id (get_data running)) []) (\<lambda>_. give (SpinDown network running))"
| "exec_stage S st command lease (SpinDown network running) =
     and_do (spindown_topology S running (exec_name S st command)) (\<lambda>(c, stdout). give (Release network c stdout))"
| "exec_stage S st command lease (Release network c stdout) =
     and_do (release_network (exec_shape st command) network) (\<lambda>_. give (Finish c stdout))"
| "exec_stage S st command lease (Finish c stdout) = give (Finish c stdout)"

primrec exec_stages :: "('e, 'p, 'h) services \<Rightarrow> container_state \<Rightarrow> ustr \<Rightarrow> ustr \<Rightarrow> nat \<Rightarrow> command_stage \<Rightarrow> ('e, command_stage) client_action" where
  "exec_stages S st command lease 0 stage = give stage"
| "exec_stages S st command lease (Suc n) stage =
     and_do (exec_stage S st command lease stage) (exec_stages S st command lease n)"

lemma and_do_assoc: "and_do (and_do f g) h = and_do f (\<lambda>x. and_do (g x) h)"
  by (rule ext) (auto simp: and_do_def split: prod.split outcome.split)

lemma and_do_give: "and_do (give x) f = f x"
  by (rule ext) (simp add: and_do_def give_def)

lemma and_do_same: "(\<And>x. g x = h x) \<Longrightarrow> and_do f g = and_do f h"
  by (subgoal_tac "g = h") auto

lemma exec_stages_add:
  "exec_stages S st command lease (m + n) stage = and_do (exec_stages S st command lease m stage) (exec_stages S st command lease n)"
proof (induction m arbitrary: stage)
  case 0
  show ?case by (simp add: and_do_give [abs_def])
next
  case (Suc m)
  then have "exec_stages S st command lease (m + n) = (\<lambda>g. and_do (exec_stages S st command lease m g) (exec_stages S st command lease n))"
    by (rule ext)
  then show ?case by (simp add: and_do_assoc)
qed

text \<open>\<open>exec_internal\<close> goes through these stages.\<close>

lemma exec_internal_stages:
  "exec_internal S st command lease = and_do (exec_stages S st command lease 5 Acquire) (\<lambda>stage. case stage of
       Finish (Container c) stdout \<Rightarrow> give (c, stdout)
     | _ \<Rightarrow> fail (InternalError ''Invalid container topology: root node was a service''))"
proof -
  have five: "5 = Suc (Suc (Suc (Suc (Suc 0))))" by simp
  show ?thesis
    unfolding exec_internal_def Let_def five exec_stages.simps exec_stage.simps and_do_assoc and_do_give exec_shape_def case_prod_beta
    by (intro and_do_same) (simp split: container_like.split)
qed

definition exec :: "('e, 'p, 'h) services \<Rightarrow> container_state \<Rightarrow> ustr \<Rightarrow> ('e, container_state) client_action" where
  "exec S st command =
     and_do (new_lease S) (\<lambda>lease.
     and_do (exec_internal S st command lease) (\<lambda>(c, _).
     and_do (drop_lease S lease) (\<lambda>_. give c)))"

definition exec_output :: "('e, 'p, 'h) services \<Rightarrow> container_state \<Rightarrow> ustr \<Rightarrow> ('e, ustr) client_action" where
  "exec_output S st command =
     and_do (new_lease S) (\<lambda>lease.
     and_do (exec_internal S st command lease) (\<lambda>(_, stdout).
     and_do (lift_outcome (of_sum NonUtf8Capture stdout)) (\<lambda>out.
     and_do (drop_lease S lease) (\<lambda>_. give out))))"

end
