(* ===== verification/Layers.thy ===== *)
theory Layers
  imports Exec Cache_Backends
begin

text \<open>
  \<^verbatim>\<open>engine/containerd/layers.rs\<close>: images are pulled layer by layer into snapshots, snapshots are exported to the
  cache and imported from it. The locks of \<^verbatim>\<open>acquire_file_lock\<close> (\<^verbatim>\<open>engine/mod.rs\<close>) are requests, too: \<open>Lock\<close> is
  answered when the lock is taken, \<open>Unlock\<close> is the drop of the guard.

  The registry, containerd's content store and the stream of a layer that the sidecar exports are parameters, and so
  are the codecs (postcard, JSON, names of images). A stream is the list of what it yields. The cache is a
  backend given by its operations. Progress reports are left out, and what \<open>debug_assert\<close> checks.
\<close>

section \<open>Data\<close>

record full_layer_manifest =
  flm_image :: ustr
  flm_layer :: layer_descriptor

datatype entry_kind = LocalEntry | RemoteEntry full_layer_manifest

record entry_header =
  entry_parent :: "ustr option"
  entry_kind :: entry_kind

record snapshot_info =
  info_parent :: ustr
  info_manifest :: "ustr option"

record image_config =
  image_env :: "ustr list option"
  image_dir :: "ustr option"
  image_user :: "ustr option"
  image_entrypoint :: "ustr list option"
  image_cmd :: "ustr list option"

record index_entry =
  ie_platform :: "(ustr \<times> ustr) option"
  ie_digest :: ustr

text \<open>What the stores answer; \<open>permanent\<close> are the errors that pulling a manifest is not tried again for.\<close>

record 'e stores =
  stats :: "request list \<Rightarrow> 'e + snapshot_info option"
  write_answers :: "request list \<Rightarrow> 'e + ('e + ustr) list"
  commit_answers :: "request list \<Rightarrow> 'e + ('e + ustr) option"
  layer_tars :: "request list \<Rightarrow> 'e + ('e + bytes) list"
  manifests :: "request list \<Rightarrow> 'e + (layer_descriptor list \<times> ustr \<times> ustr)"
  blobs :: "request list \<Rightarrow> 'e + ('e + bytes) list"
  permanent :: "'e \<Rightarrow> bool"
  manifest_retries :: nat
  layer_retries :: nat
  parse_reference :: "ustr \<Rightarrow> ustr option"
  parse_config :: "ustr \<Rightarrow> image_config option option"
  manifest_json :: "full_layer_manifest \<Rightarrow> ustr option"
  parse_manifest :: "ustr \<Rightarrow> full_layer_manifest option"
  encode_entry :: "entry_header \<Rightarrow> bytes option"
  decode_entry :: "bytes \<Rightarrow> entry_header option"
  shell_join :: "ustr list \<Rightarrow> ustr"

text \<open>The \<open>CacheBackend\<close> of the client. What is read of an entry may end in an error.\<close>

record ('e, 'h, 'c) cache_ops =
  read_key :: "'h \<Rightarrow> 'c \<Rightarrow> (bytes \<times> 'e option) option"
  write_key :: "'h \<Rightarrow> 'c \<Rightarrow> nat option \<times> 'c"
  write_all :: "nat \<Rightarrow> bytes \<Rightarrow> 'c \<Rightarrow> ('e + unit) \<times> 'c"
  shutdown_writer :: "nat \<Rightarrow> 'c \<Rightarrow> ('e + unit) \<times> 'c"

type_synonym ('c, 'e, 'a) layer_action = "(client_state \<times> 'c, 'e client_error, 'a) action"

definition on_client :: "('e, 'a) client_action \<Rightarrow> ('c, 'e, 'a) layer_action" where
  "on_client f sc = (let (r, s) = f (fst sc) in (r, (s, snd sc)))"

definition on_cache :: "('c \<Rightarrow> 'a \<times> 'c) \<Rightarrow> ('c, 'e, 'a) layer_action" where
  "on_cache f sc = (let (x, c) = f (snd sc) in (Ok x, (fst sc, c)))"

text \<open>Going on after an error.\<close>

definition recover :: "('s, 'e, 'a) action \<Rightarrow> 'a \<Rightarrow> ('s, 'e, 'a) action" where
  "recover f x s = (case f s of (Err _, s) \<Rightarrow> (Ok x, s) | r \<Rightarrow> r)"

section \<open>Locks\<close>

definition plain_char :: "uchar \<Rightarrow> bool" where
  "plain_char ch \<longleftrightarrow> 48 \<le> ch \<and> ch \<le> 57 \<or> 65 \<le> ch \<and> ch \<le> 90 \<or> 97 \<le> ch \<and> ch \<le> 122 \<or> ch \<in> {46, 45, 95}"

definition lock_file_name :: "ustr \<Rightarrow> ustr" where
  "lock_file_name key = map (\<lambda>ch. if plain_char ch then ch else 95) key @ ustr ''.lock''"

definition acquire_file_lock :: "('e, 'p, 'h) services \<Rightarrow> ustr \<Rightarrow> ('e, 'e + unit) client_action" where
  "acquire_file_lock S key = try_ask (acks S) (Lock (lock_file_name key))"

text \<open>Dropping the guard, which happens on every way out.\<close>

definition unlock :: "ustr \<Rightarrow> client_state \<Rightarrow> client_state" where
  "unlock key s = s\<lparr>requests := requests s @ [Unlock (lock_file_name key)]\<rparr>"

definition with_lock :: "('e, 'p, 'h) services \<Rightarrow> ustr \<Rightarrow> ('e, 'a) client_action \<Rightarrow> ('e, 'a) client_action" where
  "with_lock S key f = and_do (acquire_file_lock S key) (\<lambda>lock. case lock of
       Inl e \<Rightarrow> fail (ServiceError e)
     | Inr _ \<Rightarrow> (\<lambda>s. let (r, s) = f s in (r, unlock key s)))"

section \<open>Pulling\<close>

definition platform_resolver :: "ustr \<Rightarrow> index_entry list \<Rightarrow> ustr option" where
  "platform_resolver host_architecture es = map_option ie_digest (find (\<lambda>m. case ie_platform m of
       None \<Rightarrow> False
     | Some (os, architecture) \<Rightarrow> os = ustr ''linux'' \<and> architecture = host_architecture) es)"

text \<open>\<open>filter_map(|data| data.ok())\<close>, and the offset at which each piece is written.\<close>

fun stream_data :: "('e + bytes) list \<Rightarrow> bytes list" where
  "stream_data [] = []"
| "stream_data (Inr b # items) = b # stream_data items"
| "stream_data (Inl e # items) = stream_data items"

text \<open>\<open>try_into().unwrap_or(0)\<close> to an \<open>i64\<close>.\<close>

definition as_i64 :: "nat \<Rightarrow> nat" where
  "as_i64 n = (if n < 2 ^ 63 then n else 0)"

fun chunk_writes :: "ustr \<Rightarrow> nat \<Rightarrow> bytes list \<Rightarrow> chunk_write list" where
  "chunk_writes name offset [] = []"
| "chunk_writes name offset (b # bs) = (name, as_i64 offset, b) # chunk_writes name (offset + length b) bs"

fun last_digest :: "ustr \<Rightarrow> ('e + ustr) list \<Rightarrow> 'e + ustr" where
  "last_digest d [] = Inr d"
| "last_digest d (Inr d' # responses) = last_digest d' responses"
| "last_digest d (Inl e # responses) = Inl e"

definition import_stream_into_content_store :: "('e, 'p, 'h) services \<Rightarrow> 'e stores \<Rightarrow> ('e + bytes) list \<Rightarrow> ustr \<Rightarrow>
    ustr option \<Rightarrow> ('e, nat \<times> ustr) client_action" where
  "import_stream_into_content_store S L stream lease known =
     and_do (new_uuid S) (\<lambda>upload.
     and_do (ask (write_answers L) (WriteContent (chunk_writes upload 0 (stream_data stream)) lease)) (\<lambda>responses.
     and_do (lift_outcome (of_sum ServiceError (last_digest [] responses))) (\<lambda>d.
     let total = length (concat (stream_data stream)) in
     and_do (try_ask (commit_answers L)
       (CommitContent upload (as_i64 total) (case known of Some x \<Rightarrow> x | None \<Rightarrow> []) lease)) (\<lambda>committed. case committed of
         Inr None \<Rightarrow> fail (InternalError ''No response for commit'')
       | Inr (Some (Inl e)) \<Rightarrow> fail (ServiceError e)
       | Inr (Some (Inr _)) \<Rightarrow> give (total, d)
       | Inl e \<Rightarrow> if already_exists S e then and_do (ask (acks S) (LeaseContent lease d)) (\<lambda>_. give (total, d))
           else fail (ServiceError e)))))"

definition fetch_layer :: "('e, 'p, 'h) services \<Rightarrow> 'e stores \<Rightarrow> full_layer_manifest \<Rightarrow> ustr \<Rightarrow> ('e, unit) client_action" where
  "fetch_layer S L m lease =
     and_do (try_ask (acks S) (ReadContent (digest (flm_layer m)))) (\<lambda>present. case present of
         Inr _ \<Rightarrow> give ()
       | Inl _ \<Rightarrow>
           and_do (ask (acks S) (Authenticate (flm_image m))) (\<lambda>_.
           and_do (ask (blobs L) (PullBlob (flm_image m) (flm_layer m))) (\<lambda>stream.
           and_do (import_stream_into_content_store S L stream lease (Some (digest (flm_layer m)))) (\<lambda>_. give ()))))"

definition pull_attempt :: "('e, 'p, 'h) services \<Rightarrow> 'e stores \<Rightarrow> full_layer_manifest \<Rightarrow> ustr \<Rightarrow> ustr \<Rightarrow> ustr \<Rightarrow>
    ('e, unit) client_action" where
  "pull_attempt S L m lease par snapshot_name =
     and_do (fetch_layer S L m lease) (\<lambda>_.
     and_do (new_uuid S) (\<lambda>key.
     and_do (ask (mounted S) (PrepareSnapshot key par lease)) (\<lambda>mounts.
     and_do (ask (acks S) (ApplyDiff mounts (flm_layer m))) (\<lambda>_.
     and_do (lift_outcome (ok_or (manifest_json L m)
       (InternalError ''layer manifest could not be serialized to json''))) (\<lambda>json.
     and_do (try_ask (acks S) (CommitPulled snapshot_name key json lease)) (\<lambda>v. case v of
         Inl e \<Rightarrow> if already_exists S e then give () else fail (ServiceError e)
       | Inr _ \<Rightarrow> give ()))))))"

definition pull_layer :: "('e, 'p, 'h) services \<Rightarrow> 'e stores \<Rightarrow> full_layer_manifest \<Rightarrow> ustr \<Rightarrow> ustr \<Rightarrow> ustr \<Rightarrow>
    ('e, unit) client_action" where
  "pull_layer S L m lease par snapshot_name = retry (layer_retries L) (pull_attempt S L m lease par snapshot_name)"

definition stat_snapshot :: "'e stores \<Rightarrow> ustr \<Rightarrow> ('e, bool) client_action" where
  "stat_snapshot L name = and_do (try_ask (stats L) (StatSnapshot name)) (\<lambda>v. give (case v of Inr _ \<Rightarrow> True | Inl _ \<Rightarrow> False))"

definition stack_name :: "('e, 'p, 'h) services \<Rightarrow> ('h \<Rightarrow> ustr) \<Rightarrow> ustr list \<Rightarrow> ustr" where
  "stack_name S to_hex digests = to_hex (blake3 S (concat (map utf8_encode digests)))"

text \<open>The loop over the layers, with the digests hashed so far.\<close>

fun pull_layers :: "('e, 'p, 'h) services \<Rightarrow> 'e stores \<Rightarrow> ('h \<Rightarrow> ustr) \<Rightarrow> ustr \<Rightarrow> ustr \<Rightarrow> layer_descriptor list \<Rightarrow> ustr \<Rightarrow>
    ustr list \<Rightarrow> ('e, ustr) client_action" where
  "pull_layers S L to_hex ref lease [] par digests = give par"
| "pull_layers S L to_hex ref lease (layer # layers) par digests =
     (let digests = digests @ [digest layer]; snapshot_name = stack_name S to_hex digests in
      and_do (with_lock S snapshot_name
        (and_do (stat_snapshot L snapshot_name) (\<lambda>layer_exists.
         if layer_exists then give ()
         else pull_layer S L \<lparr>flm_image = ref, flm_layer = layer\<rparr> lease par snapshot_name))) (\<lambda>_.
      pull_layers S L to_hex ref lease layers snapshot_name digests))"

fun retry_unless :: "('e \<Rightarrow> bool) \<Rightarrow> nat \<Rightarrow> ('s, 'e, 'a) action \<Rightarrow> ('s, 'e, 'a) action" where
  "retry_unless stop 0 f s = f s"
| "retry_unless stop (Suc n) f s = (case f s of (Err e, s) \<Rightarrow> if stop e then (Err e, s) else retry_unless stop n f s | r \<Rightarrow> r)"

fun is_permanent :: "'e stores \<Rightarrow> 'e client_error \<Rightarrow> bool" where
  "is_permanent L (ServiceError e) = permanent L e"
| "is_permanent L _ = False"

definition fetch_image :: "('e, 'p, 'h) services \<Rightarrow> 'e stores \<Rightarrow> ('h \<Rightarrow> ustr) \<Rightarrow> ustr \<Rightarrow>
    ('e, image_config option \<times> ustr) client_action" where
  "fetch_image S L to_hex image_name =
     and_do (lift_outcome (ok_or (parse_reference L image_name) (InvalidImage image_name))) (\<lambda>ref.
     and_do (retry_unless (is_permanent L) (manifest_retries L) (ask (manifests L) (PullManifest ref)))
       (\<lambda>(layers, manifest_digest, config_text).
     and_do (with_lock S manifest_digest
       (and_do (new_lease S) (\<lambda>lease.
        and_do (pull_layers S L to_hex ref lease layers [] []) (\<lambda>snapshot_name.
        and_do (drop_lease S lease) (\<lambda>_. give snapshot_name))))) (\<lambda>snapshot_name.
     and_do (lift_outcome (ok_or (parse_config L config_text) (InvalidJson config_text))) (\<lambda>cfg.
     give (cfg, snapshot_name)))))"

definition container_config_default :: container_config where
  "container_config_default = ContainerConfig [] [] None []"

definition config_of_image :: "image_config option \<Rightarrow> container_config" where
  "config_of_image cfg = (case cfg of
       Some c \<Rightarrow> config_from_oci (image_env c) (image_dir c) (image_user c) | None \<Rightarrow> container_config_default)"

definition pull_image :: "('e, 'p, 'h) services \<Rightarrow> 'e stores \<Rightarrow> ('h \<Rightarrow> ustr) \<Rightarrow> ustr \<Rightarrow> ('e, container_state) client_action" where
  "pull_image S L to_hex image_name =
     and_do (fetch_image S L to_hex image_name) (\<lambda>(cfg, snapshot_name).
     give (ContainerState snapshot_name (config_of_image cfg)))"

definition pull_service :: "('e, 'p, 'h) services \<Rightarrow> 'e stores \<Rightarrow> ('h \<Rightarrow> ustr) \<Rightarrow> ustr \<Rightarrow> ('e, service_state) client_action" where
  "pull_service S L to_hex image_name =
     and_do (fetch_image S L to_hex image_name) (\<lambda>(cfg, snapshot_name).
     give (ServiceState (ContainerState snapshot_name (config_of_image cfg))
       (case cfg of Some c \<Rightarrow> service_config_from_oci (shell_join L) (image_entrypoint c) (image_cmd c)
        | None \<Rightarrow> service_config_default)))"

section \<open>Exporting\<close>

definition snapshot_key :: "('e, 'p, 'h) services \<Rightarrow> ustr \<Rightarrow> 'h" where
  "snapshot_key S name = hash_from_data (blake3 S) ScopeSnapshot (ser_string (hashing S) name)"

definition append_entry :: "('e, 'h, 'c) cache_ops \<Rightarrow> nat \<Rightarrow> bytes \<Rightarrow> ('c, 'e, unit) layer_action" where
  "append_entry K w b = and_do (on_cache (write_all K w b)) (\<lambda>v. lift_outcome (of_sum ServiceError v))"

definition append_header :: "'e stores \<Rightarrow> ('e, 'h, 'c) cache_ops \<Rightarrow> nat \<Rightarrow> entry_header \<Rightarrow> ('c, 'e, unit) layer_action" where
  "append_header L K w hdr =
     and_do (lift_outcome (map_err StreamError (write_frame (encode_entry L) hdr))) (\<lambda>frame. append_entry K w frame)"

text \<open>\<open>tokio::io::copy\<close>: what comes before an error is written.\<close>

fun copy_stream :: "('e, 'h, 'c) cache_ops \<Rightarrow> nat \<Rightarrow> ('e + bytes) list \<Rightarrow> ('c, 'e, unit) layer_action" where
  "copy_stream K w [] = give ()"
| "copy_stream K w (Inr b # items) = and_do (append_entry K w b) (\<lambda>_. copy_stream K w items)"
| "copy_stream K w (Inl e # items) = fail (ServiceError e)"

definition export_local :: "('e, 'p, 'h) services \<Rightarrow> 'e stores \<Rightarrow> ('e, 'h, 'c) cache_ops \<Rightarrow> nat \<Rightarrow> ustr \<Rightarrow> ustr option \<Rightarrow>
    ('c, 'e, unit) layer_action" where
  "export_local S L K w name par =
     and_do (on_client (new_uuid S)) (\<lambda>view.
     and_do (on_client (new_lease S)) (\<lambda>lease.
     and_do (on_client (ask (mounted S) (ViewSnapshot (name @ ustr ''/view/'' @ view) name lease))) (\<lambda>mounts. case mounts of
         [] \<Rightarrow> fail (InternalError ''No mounts returned for snapshoter'')
       | mount # _ \<Rightarrow>
           and_do (append_header L K w \<lparr>entry_parent = par, entry_kind = LocalEntry\<rparr>) (\<lambda>_.
           and_do (on_client (ask (layer_tars L) (ExportLayer mount))) (\<lambda>tar.
           and_do (copy_stream K w tar) (\<lambda>_.
           on_client (drop_lease S lease)))))))"

definition write_entry :: "('e, 'p, 'h) services \<Rightarrow> 'e stores \<Rightarrow> ('e, 'h, 'c) cache_ops \<Rightarrow> ustr \<Rightarrow> snapshot_info \<Rightarrow>
    ustr option \<Rightarrow> ('c, 'e, unit) layer_action" where
  "write_entry S L K name info par =
     and_do (on_cache (write_key K (snapshot_key S name))) (\<lambda>writer. case writer of
         None \<Rightarrow> give ()
       | Some w \<Rightarrow>
           and_do (case info_manifest info of
               Some json \<Rightarrow>
                 and_do (lift_outcome (ok_or (parse_manifest L json) (InvalidJson json))) (\<lambda>m.
                 append_header L K w \<lparr>entry_parent = par, entry_kind = RemoteEntry m\<rparr>)
             | None \<Rightarrow> export_local S L K w name par) (\<lambda>_.
           and_do (on_cache (shutdown_writer K w)) (\<lambda>v. lift_outcome (of_sum ServiceError v))))"

definition parent_of :: "snapshot_info \<Rightarrow> ustr option" where
  "parent_of info = (if info_parent info = [] then None else Some (info_parent info))"

text \<open>The parents first; how deep they nest is bounded by the first argument.\<close>

primrec export_snapshot :: "nat \<Rightarrow> ('e, 'p, 'h) services \<Rightarrow> 'e stores \<Rightarrow> ('e, 'h, 'c) cache_ops \<Rightarrow> ustr \<Rightarrow> ('c, 'e, unit) layer_action" where
  "export_snapshot 0 S L K name = lift_outcome NoFuel"
| "export_snapshot (Suc k) S L K name =
     and_do (on_client (ask (stats L) (StatSnapshot name))) (\<lambda>answer.
     and_do (lift_outcome (ok_or answer (InternalError ''snapshot didnt have any info''))) (\<lambda>info.
     and_do (case parent_of info of Some par \<Rightarrow> export_snapshot k S L K par | None \<Rightarrow> give ()) (\<lambda>_.
     write_entry S L K name info (parent_of info))))"

fun export_snapshots_from :: "nat \<Rightarrow> ('e, 'p, 'h) services \<Rightarrow> 'e stores \<Rightarrow> ('e, 'h, 'c) cache_ops \<Rightarrow> container_state \<Rightarrow>
    ('c, 'e, unit) layer_action"
and export_services :: "nat \<Rightarrow> ('e, 'p, 'h) services \<Rightarrow> 'e stores \<Rightarrow> ('e, 'h, 'c) cache_ops \<Rightarrow> (ustr \<times> service_state) list \<Rightarrow>
    ('c, 'e, unit) layer_action" where
  "export_snapshots_from k S L K (ContainerState name (ContainerConfig e w u svcs)) =
     and_do (recover (export_snapshot k S L K name) ()) (\<lambda>_. export_services k S L K svcs)"
| "export_services k S L K [] = give ()"
| "export_services k S L K ((host, ServiceState st sc) # svcs) =
     and_do (export_snapshots_from k S L K st) (\<lambda>_. export_services k S L K svcs)"

section \<open>Importing\<close>

text \<open>\<open>ReaderStream\<close>: pieces of the bytes, and the error if the reader ends in one.\<close>

definition reader_stream :: "bytes \<times> 'e option \<Rightarrow> ('e + bytes) list" where
  "reader_stream r = (if fst r = [] then [] else [Inr (fst r)]) @ (case snd r of Some e \<Rightarrow> [Inl e] | None \<Rightarrow> [])"

text \<open>A frame of a reader: an error of the reader is met when the frame is not complete before it.\<close>

definition read_header :: "'e stores \<Rightarrow> bytes \<times> 'e option \<Rightarrow> ('e client_error, entry_header \<times> bytes \<times> 'e option) outcome" where
  "read_header L r = (case read_frame (decode_entry L) (fst r) of
       Ok (hdr, rest) \<Rightarrow> Ok (hdr, rest, snd r)
     | Err e \<Rightarrow> Err (case (e, snd r) of (UnexpectedEof, Some e) \<Rightarrow> ServiceError e | _ \<Rightarrow> StreamError e)
     | Panic \<Rightarrow> Panic | NoFuel \<Rightarrow> NoFuel)"

definition layer_media_type :: ustr where
  "layer_media_type = ustr ''application/vnd.oci.image.layer.v1.tar+zstd''"

definition import_local :: "('e, 'p, 'h) services \<Rightarrow> ustr \<Rightarrow> ustr \<Rightarrow> ustr \<Rightarrow> nat \<times> ustr \<Rightarrow> ('e, unit) client_action" where
  "import_local S lease par name content =
     and_do (new_uuid S) (\<lambda>key.
     and_do (ask (mounted S) (PrepareSnapshot key par lease)) (\<lambda>mounts.
     and_do (ask (acks S) (ApplyDiff mounts
       \<lparr>media_type = layer_media_type, digest = snd content,
        layer_size = int (as_i64 (fst content))\<rparr>)) (\<lambda>_.
     ask (acks S) (CommitSnapshot name key))))"

definition import_entry :: "('e, 'p, 'h) services \<Rightarrow> 'e stores \<Rightarrow> (ustr \<Rightarrow> ('c, 'e, bool) layer_action) \<Rightarrow> ustr \<Rightarrow>
    entry_header \<Rightarrow> bytes \<times> 'e option \<Rightarrow> ustr \<Rightarrow> ('c, 'e, bool) layer_action" where
  "import_entry S L ensure name hdr rest lease =
     (let par = (case entry_parent hdr of Some p \<Rightarrow> p | None \<Rightarrow> []);
          download_parent = (case entry_parent hdr of Some p \<Rightarrow> ensure p | None \<Rightarrow> give True) in
      case entry_kind hdr of
        RemoteEntry m \<Rightarrow>
          and_do download_parent (\<lambda>found. if \<not> found then give False else
          and_do (on_client (pull_layer S L m lease par name)) (\<lambda>_.
          and_do (on_client (drop_lease S lease)) (\<lambda>_. give True)))
      | LocalEntry \<Rightarrow>
          and_do download_parent (\<lambda>found.
          and_do (on_client (import_stream_into_content_store S L (reader_stream rest) lease None)) (\<lambda>content.
          if \<not> found then give False else
          and_do (on_client (import_local S lease par name content)) (\<lambda>_.
          and_do (on_client (drop_lease S lease)) (\<lambda>_. give True)))))"

definition import_snapshot :: "('e, 'p, 'h) services \<Rightarrow> 'e stores \<Rightarrow> ('e, 'h, 'c) cache_ops \<Rightarrow>
    (ustr \<Rightarrow> ('c, 'e, bool) layer_action) \<Rightarrow> ustr \<Rightarrow> ('c, 'e, bool) layer_action" where
  "import_snapshot S L K ensure name =
     and_do (inspect (\<lambda>sc. read_key K (snapshot_key S name) (snd sc))) (\<lambda>reader. case reader of
         None \<Rightarrow> give False
       | Some r \<Rightarrow>
           and_do (lift_outcome (read_header L r)) (\<lambda>(hdr, rest).
           and_do (on_client (new_lease S)) (\<lambda>lease.
           import_entry S L ensure name hdr rest lease)))"

text \<open>The lock is dropped whatever happens; without it the import goes ahead.\<close>

definition while_locked :: "('e, 'p, 'h) services \<Rightarrow> ustr \<Rightarrow> ('c, 'e, 'a) layer_action \<Rightarrow> ('c, 'e, 'a) layer_action" where
  "while_locked S key f = and_do (on_client (acquire_file_lock S key)) (\<lambda>lock. case lock of
       Inr _ \<Rightarrow> (\<lambda>sc. let (r, sc) = f sc in (r, (unlock key (fst sc), snd sc)))
     | Inl _ \<Rightarrow> f)"

primrec ensure_snapshot :: "nat \<Rightarrow> ('e, 'p, 'h) services \<Rightarrow> 'e stores \<Rightarrow> ('e, 'h, 'c) cache_ops \<Rightarrow> ustr \<Rightarrow> ('c, 'e, bool) layer_action" where
  "ensure_snapshot 0 S L K name = lift_outcome NoFuel"
| "ensure_snapshot (Suc k) S L K name = while_locked S (ustr ''import/'' @ name)
     (and_do (on_client (stat_snapshot L name)) (\<lambda>present.
      if present then give True else recover (import_snapshot S L K (ensure_snapshot k S L K) name) False))"

fun healthcheck_value :: "nat \<Rightarrow> ('e, 'p, 'h) services \<Rightarrow> 'e stores \<Rightarrow> ('e, 'h, 'c) cache_ops \<Rightarrow> container_state \<Rightarrow>
    ('c, 'e, bool) layer_action"
and healthcheck_services :: "nat \<Rightarrow> ('e, 'p, 'h) services \<Rightarrow> 'e stores \<Rightarrow> ('e, 'h, 'c) cache_ops \<Rightarrow> (ustr \<times> service_state) list \<Rightarrow>
    ('c, 'e, bool) layer_action" where
  "healthcheck_value k S L K (ContainerState name (ContainerConfig e w u svcs)) =
     and_do (ensure_snapshot k S L K name) (\<lambda>ok. if \<not> ok then give False else healthcheck_services k S L K svcs)"
| "healthcheck_services k S L K [] = give True"
| "healthcheck_services k S L K ((host, ServiceState st sc) # svcs) =
     and_do (healthcheck_value k S L K st) (\<lambda>ok. if \<not> ok then give False else healthcheck_services k S L K svcs)"

end
