(* ===== verification/Kept.thy ===== *)
theory Kept
  imports Exec
begin

text \<open>
  What the actions of the client keep: relations between the state before and after, and the errors an action can
  end in, derived once from the requests the action sends.
\<close>

section \<open>Composition\<close>

text \<open>
  \<open>keeps I Q f\<close>: the state after \<open>f\<close> is related to the one before, whatever the outcome, and an error of \<open>f\<close> is
  one of \<open>Q\<close>. When the relation is reflexive and transitive, composed actions keep it when their parts do.
\<close>

definition keeps :: "('s \<Rightarrow> 's \<Rightarrow> bool) \<Rightarrow> ('e \<Rightarrow> bool) \<Rightarrow> ('s, 'e, 'a) action \<Rightarrow> bool" where
  "keeps I Q f \<longleftrightarrow> (\<forall>s. I s (snd (f s)) \<and> (\<forall>e. fst (f s) = Err e \<longrightarrow> Q e))"

lemma keepsD: "keeps I Q f \<Longrightarrow> f s = (r, s') \<Longrightarrow> I s s'"
  unfolding keeps_def by (metis snd_conv)

lemma keeps_errorD: "keeps I Q f \<Longrightarrow> f s = (Err e, s') \<Longrightarrow> Q e"
  unfolding keeps_def by (metis fst_conv)

locale preorder_kept =
  fixes I :: "'s \<Rightarrow> 's \<Rightarrow> bool"
  assumes refl: "I s s" and trans: "I s t \<Longrightarrow> I t u \<Longrightarrow> I s u"
begin

lemma keeps_and_do_result:
  assumes "keeps I Q f" and "\<And>s x s'. f s = (Ok x, s') \<Longrightarrow> keeps I Q (g x)"
  shows "keeps I Q (and_do f g)"
  unfolding keeps_def
proof
  fix s
  obtain r s1 where f: "f s = (r, s1)" by (cases "f s")
  have s1: "I s s1" using assms(1) f by (rule keepsD)
  show "I s (snd (and_do f g s)) \<and> (\<forall>e. fst (and_do f g s) = Err e \<longrightarrow> Q e)"
  proof (cases r)
    case (Ok x)
    with f have "and_do f g s = g x s1" by (simp add: and_do_def)
    moreover have "I s1 (snd (g x s1)) \<and> (\<forall>e. fst (g x s1) = Err e \<longrightarrow> Q e)"
      using assms(2) f Ok by (simp add: keeps_def)
    ultimately show ?thesis using trans [OF s1] by simp
  next
    case (Err e)
    then show ?thesis using f s1 keeps_errorD [OF assms(1), of s e s1] by (simp add: and_do_def)
  qed (simp_all add: and_do_def f s1)
qed

lemma keeps_and_do: "keeps I Q f \<Longrightarrow> (\<And>x. keeps I Q (g x)) \<Longrightarrow> keeps I Q (and_do f g)"
  by (rule keeps_and_do_result)

lemma keeps_pure: "keeps I Q (give x)" "Q e \<Longrightarrow> keeps I Q (fail e)" "keeps I Q (inspect q)"
  by (simp_all add: keeps_def give_def fail_def inspect_def refl)

lemma keeps_lift: "(\<And>e. r = Err e \<Longrightarrow> Q e) \<Longrightarrow> keeps I Q (lift_outcome r)"
  by (simp add: keeps_def lift_outcome_def refl)

lemma keeps_of_sum: "(\<And>e. Q (h e)) \<Longrightarrow> keeps I Q (lift_outcome (of_sum h v))"
  by (cases v) (auto simp: of_sum_def intro!: keeps_lift)

lemma keeps_map_err: "(\<And>e. Q (h e)) \<Longrightarrow> keeps I Q (lift_outcome (map_err h r))"
  by (cases r) (auto intro!: keeps_lift)

lemma keeps_ok_or: "Q e \<Longrightarrow> keeps I Q (lift_outcome (ok_or v e))"
  by (cases v) (auto simp: ok_or_def intro!: keeps_lift)

lemma keeps_update: "(\<And>s. I s (u s)) \<Longrightarrow> keeps I Q (update u)"
  by (simp add: keeps_def update_def)

end

section \<open>What actions keep\<close>

text \<open>
  A relation kept by drawing a name, by noting a resource and by sending the requests of a kind is kept by every
  action made of these.
\<close>

fun is_command_failed :: "'e client_error \<Rightarrow> bool" where
  "is_command_failed (CommandFailed _ _ _) = True"
| "is_command_failed _ = False"

locale client_kept = preorder_kept I for I :: "client_state \<Rightarrow> client_state \<Rightarrow> bool" +
  fixes allowed :: "request \<Rightarrow> bool" and Q :: "'e client_error \<Rightarrow> bool"
  assumes errors: "\<not> is_command_failed e \<Longrightarrow> Q e"
    and sending: "allowed r \<Longrightarrow> I s (s\<lparr>requests := requests s @ [r]\<rparr>)"
    and drawing: "I s (s\<lparr>uuids_drawn := n\<rparr>)"
    and noting: "I s (s\<lparr>dangling := dangling s @ ds\<rparr>)"
begin

lemma keeps_try_ask: "allowed r \<Longrightarrow> keeps I Q (try_ask answer r)"
  by (simp add: keeps_def try_ask_def sending)

lemma keeps_ask: "allowed r \<Longrightarrow> keeps I Q (ask answer r)"
  unfolding ask_def by (intro keeps_and_do keeps_try_ask keeps_of_sum errors) simp_all

lemma keeps_uuid: "keeps I Q (new_uuid S)"
  by (simp add: keeps_def new_uuid_def drawing)

lemma keeps_register: "keeps I Q (register_dangling d)"
  by (simp add: keeps_def register_dangling_def update_def noting)

lemma keeps_if: "(b \<Longrightarrow> keeps I Q f) \<Longrightarrow> (\<not> b \<Longrightarrow> keeps I Q g) \<Longrightarrow> keeps I Q (if b then f else g)"
  by simp

lemmas kept = keeps_of_sum keeps_map_err keeps_ok_or keeps_and_do keeps_try_ask keeps_ask keeps_uuid keeps_register keeps_pure keeps_if

lemma keeps_wait_within: "allowed (WaitProcess c e) \<Longrightarrow> keeps I Q (wait_within S c e n)"
  unfolding wait_within_def by (intro kept errors) simp_all

lemma keeps_signal: "allowed (KillTask c n False) \<Longrightarrow> keeps I Q (send_signal S c n)"
  unfolding send_signal_def by (intro kept)

lemma keeps_retry:
  assumes "keeps I Q f"
  shows "keeps I Q (retry n f)"
proof -
  have "I s (snd (retry n f s)) \<and> (\<forall>e. fst (retry n f s) = Err e \<longrightarrow> Q e)" for s
  proof (induction n arbitrary: s)
    case (Suc n)
    obtain r s1 where f: "f s = (r, s1)" by (cases "f s")
    with assms have "I s s1" by (rule keepsD)
    with Suc f show ?case by (cases r) (auto intro: trans)
  qed (use assms in \<open>simp add: keeps_def\<close>)
  then show ?thesis by (simp add: keeps_def)
qed

lemma keeps_healthcheck_asking:
  assumes "\<And>k. allowed (StartProcess c (uuid_of S k))"
    and asked: "allowed CreateFifo" "\<And>i a b p l. allowed (ExecProcess c i a b p l)" "\<And>e. allowed (WaitProcess c e)"
  shows "keeps I Q (wait_for_command_success S c p command n lease)"
proof -
  have "keeps I Q (healthcheck_attempt S c p command lease)" for p
    unfolding healthcheck_attempt_def
  proof (rule keeps_and_do_result [OF keeps_uuid])
    fix s x s'
    assume "new_uuid S s = (Ok x, s' :: client_state)"
    then have x: "allowed (StartProcess c x)" using assms(1) by (auto simp: outcome_simps)
    show "keeps I Q (and_do (ask (fifos S) CreateFifo) (\<lambda>stdout. and_do (ask (fifos S) CreateFifo) (\<lambda>stderr.
        and_do (ask (acks S) (ExecProcess c x stdout stderr p lease)) (\<lambda>_. and_do (ask (acks S) (StartProcess c x)) (\<lambda>_.
        and_do (wait_within S c x 1) (\<lambda>exit. let exit_code = (case exit of Some code \<Rightarrow> code | None \<Rightarrow> 255) in
          if exit_code = 0 then give () else fail (Unhealthy command)))))))"
      unfolding Let_def by (intro kept keeps_wait_within x asked errors) simp_all
  qed
  then show ?thesis unfolding wait_for_command_success_def by (rule keeps_retry)
qed

lemma keeps_healthcheck:
  assumes "\<And>k. allowed (StartProcess c (uuid_of S k))"
    and "\<And>r. (case r of CommitSnapshot _ _ \<Rightarrow> False | KillTask _ _ _ \<Rightarrow> False | StartProcess _ _ \<Rightarrow> False | _ \<Rightarrow> True) \<Longrightarrow> allowed r"
  shows "keeps I Q (wait_for_command_success S c p command n lease)"
  by (rule keeps_healthcheck_asking) (simp_all add: assms)

lemma keeps_files:
  assumes "\<And>m f. allowed (ExportFiles m f)" "\<And>m f b. allowed (ImportFiles m f b)"
  shows "keeps I Q (read_file S mounts file)" "keeps I Q (write_file S mounts file content)"
  unfolding read_file_def write_file_def
  by (auto intro!: kept assms errors split: prod.split header.split)

lemma keeps_create_container_asking:
  assumes "\<And>m f. allowed (ExportFiles m f)" "\<And>m f b. allowed (ImportFiles m f b)" "\<And>a b c d. allowed (CreateContainer a b c d)"
  shows "keeps I Q (create_container S st command ns hosts mounts lease)"
proof -
  have "keeps I Q (construct_spec_user S mounts u)" for u
    unfolding construct_spec_user_def by (intro kept keeps_files assms errors) simp_all
  moreover have "keeps I Q (write_hosts_file S hosts)"
    unfolding write_hosts_file_def Let_def by (intro kept keeps_files assms)
  ultimately show ?thesis
    unfolding create_container_def Let_def by (auto intro!: kept assms(3) split: option.split prod.split)
qed

lemma keeps_create_container:
  assumes "\<And>r. (case r of CommitSnapshot _ _ \<Rightarrow> False | KillTask _ _ _ \<Rightarrow> False | StartProcess _ _ \<Rightarrow> False | _ \<Rightarrow> True) \<Longrightarrow> allowed r"
  shows "keeps I Q (create_container S st command ns hosts mounts lease)"
  by (rule keeps_create_container_asking) (simp_all add: assms)

lemma keeps_start_container:
  assumes "\<And>r. (case r of CommitSnapshot _ _ \<Rightarrow> False | KillTask _ _ _ \<Rightarrow> False | _ \<Rightarrow> True) \<Longrightarrow> allowed r"
  shows "keeps I Q (start_container S lease node ns hosts)"
proof -
  have "keeps I Q (wait_healthy S c container p lease)" for c container p
    unfolding wait_healthy_def by (auto intro!: kept keeps_healthcheck split: container_like.split) (auto intro: assms split: request.split_asm)
  moreover have "allowed (PrepareSnapshot a b c)" "allowed CreateFifo" "allowed (CreateTask d e f g h)" "allowed (StartProcess i j)"
    for a b c d e f g h i j by (auto intro: assms)
  ultimately show ?thesis
    unfolding start_container_def
    by (auto intro!: kept keeps_create_container split: prod.split) (auto intro: assms split: request.split_asm)
qed

lemma keeps_spinup_starting:
  assumes "\<And>node ns hosts. keeps I Q (start_container S lease node ns hosts)"
  shows "keeps I Q (spinup_topology S lease t)" "keeps I Q (spinup_all S lease ts)"
proof -
  have all: "keeps I Q (spinup_all S lease ts)" if "\<And>t. t \<in> set ts \<Longrightarrow> keeps I Q (spinup_topology S lease t)" for ts
    using that
  proof (induction ts)
    case (Cons t ts)
    have "spinup_all S lease (t # ts) = and_do (spinup_topology S lease t) (\<lambda>h. and_do (spinup_all S lease ts) (\<lambda>hs. give (h # hs)))"
      by (rule ext) simp
    then show ?case using Cons by (auto intro!: kept)
  next
    case Nil
    have "spinup_all S lease [] = give []" by (rule ext) simp
    then show ?case by (simp add: keeps_pure)
  qed
  have one: "keeps I Q (spinup_topology S lease t)" for t
  proof (induction t)
    case (Topology nn cs)
    have "spinup_topology S lease (Topology nn cs) = and_do (spinup_all S lease cs) (\<lambda>service_handles.
        and_do (start_container S lease (fst nn) (snd nn)
          (map (\<lambda>c. (get_hostname (fst (get_data c)), ns_ip (snd (get_data c)))) cs)) (\<lambda>h.
        give (with_children h service_handles)))" by (rule ext) simp
    then show ?case using all [OF Topology] by (auto intro!: kept assms)
  qed
  show "keeps I Q (spinup_topology S lease t)" "keeps I Q (spinup_all S lease ts)" by (rule one, rule all, rule one)
qed

lemma keeps_spinup:
  assumes "\<And>r. (case r of CommitSnapshot _ _ \<Rightarrow> False | KillTask _ _ _ \<Rightarrow> False | _ \<Rightarrow> True) \<Longrightarrow> allowed r"
  shows "keeps I Q (spinup_topology S lease t)" "keeps I Q (spinup_all S lease ts)"
  by (intro keeps_spinup_starting keeps_start_container assms; simp)+

lemma keeps_exit_or_kill:
  assumes "\<And>c e. allowed (WaitProcess c e)" "\<And>c. allowed (KillTask c 9 False)"
  shows "keeps I Q (exit_or_kill S c)"
  unfolding exit_or_kill_def wait_for_exit_def
  by (auto intro!: kept keeps_wait_within keeps_signal assms split: option.split)

lemma keeps_report:
  assumes "\<And>code out. code \<noteq> 0 \<Longrightarrow> \<not> is_service (state (h_node h)) \<Longrightarrow> Q (CommandFailed code (get_cmd (h_node h)) out)"
  shows "keeps I Q (report_exit S h code)"
  unfolding report_exit_def by (auto intro!: kept assms)

lemma keeps_stop:
  assumes "\<And>c e. allowed (WaitProcess c e)" "\<And>c n. allowed (KillTask c n False)"
    and "\<And>code out. code \<noteq> 0 \<Longrightarrow> \<not> is_service (state (h_node h)) \<Longrightarrow> Q (CommandFailed code (get_cmd (h_node h)) out)"
  shows "keeps I Q (stop_container S h)"
  unfolding stop_container_def by (intro kept keeps_exit_or_kill keeps_signal keeps_report assms)

lemma keeps_commit: "(\<And>a b. allowed (CommitSnapshot a b)) \<Longrightarrow> keeps I Q (commit_snapshot S name key)"
  unfolding commit_snapshot_def by (auto intro!: kept errors split: sum.split)

lemma keeps_spindown:
  assumes "\<And>c e. allowed (WaitProcess c e)" "\<And>c n. allowed (KillTask c n False)" "\<And>a b. allowed (CommitSnapshot a b)"
  shows "(\<And>h code out. h \<in> set (preorder t) \<Longrightarrow> \<not> is_service (state (h_node h)) \<Longrightarrow> Q (CommandFailed code (get_cmd (h_node h)) out)) \<Longrightarrow>
      keeps I Q (spindown_topology S t name)"
    and "(\<And>t h code out. t \<in> set ts \<Longrightarrow> h \<in> set (preorder t) \<Longrightarrow> \<not> is_service (state (h_node h)) \<Longrightarrow>
        Q (CommandFailed code (get_cmd (h_node h)) out)) \<Longrightarrow> keeps I Q (spindown_all S ts name svcs)"
proof -
  have all: "keeps I Q (spindown_all S ts name svcs)"
    if "\<And>t name. t \<in> set ts \<Longrightarrow> keeps I Q (spindown_topology S t name)" for ts name svcs
    using that
  proof (induction ts arbitrary: svcs)
    case (Cons t ts)
    have "spindown_all S (t # ts) name svcs = (case hostname (h_node (get_data t)) of
          None \<Rightarrow> fail (InternalError ''Child container missing hostname'')
        | Some host \<Rightarrow> and_do (spindown_topology S t (name @ [47] @ host)) (\<lambda>(child, _). case child of
            Service sv \<Rightarrow> spindown_all S ts name (bt_insert host sv svcs)
          | Container _ \<Rightarrow> fail (InternalError ''Expected a service'')))" for svcs
      by (rule ext) (simp split: option.split)
    then show ?case using Cons by (auto intro!: kept errors split: option.split prod.split container_like.split)
  next
    case Nil
    have "spindown_all S [] name svcs = give svcs" for svcs by (rule ext) simp
    then show ?case by (simp add: keeps_pure)
  qed
  show one: "keeps I Q (spindown_topology S t name)"
    if "\<And>h code out. h \<in> set (preorder t) \<Longrightarrow> \<not> is_service (state (h_node h)) \<Longrightarrow> Q (CommandFailed code (get_cmd (h_node h)) out)"
    for t name
    using that
  proof (induction t arbitrary: name)
    case (Topology h cs)
    have "spindown_topology S (Topology h cs) name = and_do (stop_container S h) (\<lambda>stdout.
        and_do (spindown_all S cs name []) (\<lambda>svcs. and_do (commit_snapshot S name (h_snapshot h)) (\<lambda>_.
        give (committed name svcs (state (h_node h)), stdout))))" by (rule ext) simp
    moreover have "keeps I Q (stop_container S h)" using Topology.prems by (intro keeps_stop assms) simp
    moreover have "keeps I Q (spindown_all S cs name [])" using Topology.prems by (intro all Topology.IH) auto
    ultimately show ?case by (auto intro!: kept keeps_commit assms)
  qed
  show "keeps I Q (spindown_all S ts name svcs)"
    if "\<And>t h code out. t \<in> set ts \<Longrightarrow> h \<in> set (preorder t) \<Longrightarrow> \<not> is_service (state (h_node h)) \<Longrightarrow>
        Q (CommandFailed code (get_cmd (h_node h)) out)"
    using that by (intro all one) blast
qed

end

text \<open>The requests that acquire something to release later.\<close>

fun acquires :: "request \<Rightarrow> bool" where
  "acquires (CreateLease _) = True"
| "acquires (CreateTask _ _ _ _ _) = True"
| "acquires (CreateNetwork _) = True"
| "acquires _ = False"

definition same_pool :: "client_state \<Rightarrow> client_state \<Rightarrow> bool" where
  "same_pool s s' \<longleftrightarrow> free_networks s' = free_networks s"

interpretation pool: client_kept same_pool "\<lambda>_. True" "\<lambda>_. True"
  by unfold_locales (simp_all add: same_pool_def)

definition sent :: "(request \<Rightarrow> bool) \<Rightarrow> client_state \<Rightarrow> client_state \<Rightarrow> bool" where
  "sent P s s' \<longleftrightarrow> (\<exists>rs. requests s' = requests s @ rs \<and> list_all P rs)"

lemma sent_trans: "sent P s t \<Longrightarrow> sent P t u \<Longrightarrow> sent P s u"
  by (auto simp: sent_def)

text \<open>Errors of which only those of \<open>C\<close> may be the failure of a command.\<close>

definition only :: "('e client_error \<Rightarrow> bool) \<Rightarrow> 'e client_error \<Rightarrow> bool" where
  "only C e \<longleftrightarrow> (is_command_failed e \<longrightarrow> C e)"

interpretation sent: client_kept "sent P" P "only C" for P C
  by unfold_locales (auto simp: sent_def [of P] only_def intro: sent_trans)

end
