(* ===== verification/Exec_Props.thy ===== *)
theory Exec_Props
  imports Kept
begin

text \<open>
  What running a command does, on the model of \<open>Exec\<close>: the state it returns, the order in which containers are
  started, stopped and committed, and what a failing command leaves behind.
\<close>

section \<open>Maps and sorting\<close>

lemma bt_get_map_of: "bt_get m k = map_of m k"
  by (induction m) auto

lemma bt_ext:
  assumes "bt_ok m" "bt_ok n" and "map_of m = map_of n"
  shows "m = n"
proof -
  have keys: "map fst m = map fst n"
    using assms by (intro strict_sorted_equal) (auto simp: bt_ok_def simp flip: dom_map_of_conv_image_fst)
  have d: "distinct (map fst m)" "distinct (map fst n)" using assms(1,2) by (simp_all add: bt_ok_def strict_sorted_iff)
  then have "set m = set n" using assms(3) by (simp add: map_of_inject_set)
  moreover have "inj_on fst (set m)" using d(1) by (simp add: distinct_map)
  ultimately show ?thesis using keys by (simp add: inj_on_map_eq_map)
qed

text \<open>Collecting the entries of a map in any order gives the map.\<close>

lemma bt_collect_permuted:
  assumes "bt_ok m" "mset kvs = mset m"
  shows "bt_collect kvs = m"
proof -
  have "distinct (map fst m)" using assms(1) by (simp add: bt_ok_def strict_sorted_iff)
  moreover have "mset (map fst (rev kvs)) = mset (map fst m)" "set (rev kvs) = set m"
    using assms(2) by (simp_all add: mset_map mset_rev flip: set_mset_mset)
  ultimately have "distinct (map fst (rev kvs))" by (metis mset_eq_imp_distinct_iff)
  then have "map_of (rev kvs) = map_of m"
    using \<open>distinct (map fst m)\<close> \<open>set (rev kvs) = set m\<close> by (simp only: map_of_inject_set)
  moreover have "map_of (bt_collect kvs) = map_of (rev kvs)"
    using bt_get_collect [of kvs] by (auto simp: bt_get_map_of)
  ultimately show ?thesis using bt_ext [OF bt_collect_ok assms(1)] by simp
qed

lemma sort_key_map: "sort_key g (map f xs) = map f (sort_key (g \<circ> f) xs)"
proof -
  have "insort_key g (f x) (map f ys) = map f (insort_key (g \<circ> f) x ys)" for x ys
    by (induction ys) auto
  then show ?thesis by (induction xs) auto
qed

section \<open>What a command returns\<close>

text \<open>The state with its snapshot renamed, and the snapshots of its services to names below it.\<close>

fun renamed :: "ustr \<Rightarrow> container_state \<Rightarrow> container_state"
and renamed_service :: "ustr \<Rightarrow> service_state \<Rightarrow> service_state" where
  "renamed name (ContainerState snap (ContainerConfig e w u svcs)) =
     ContainerState name (ContainerConfig e w u (map (\<lambda>(h, s). (h, renamed_service (name @ [47] @ h) s)) svcs))"
| "renamed_service name (ServiceState c sc) = ServiceState (renamed name c) sc"

text \<open>The maps of services are maps, at every level.\<close>

fun services_ok :: "container_state \<Rightarrow> bool"
and service_ok :: "service_state \<Rightarrow> bool" where
  "services_ok (ContainerState snap (ContainerConfig e w u svcs)) \<longleftrightarrow> bt_ok svcs \<and> (\<forall>(h, s) \<in> set svcs. service_ok s)"
| "service_ok (ServiceState c sc) \<longleftrightarrow> services_ok c"

lemma start_container_node: "start_container S lease node ns hosts s = (Ok h, s') \<Longrightarrow> h_node h = node"
  by (auto simp: start_container_def outcome_simps split: prod.split_asm)

lemma spinup_nodes:
  "spinup_topology S lease t s = (Ok r, s') \<Longrightarrow> canonical t \<Longrightarrow> map_data h_node r = map_data fst t"
  "spinup_all S lease ts s = (Ok rs, s') \<Longrightarrow> (\<forall>t \<in> set ts. canonical t) \<Longrightarrow> map (map_data h_node) rs = map (map_data fst) ts"
proof (induction S lease t s and S lease ts s arbitrary: r s' and rs s' rule: spinup_topology_spinup_all.induct)
  case (1 S lease nn cs s)
  from "1.prems"(1) obtain hs s1 h where hs: "spinup_all S lease cs s = (Ok hs, s1)"
    and h: "h_node h = fst nn" and r: "r = with_children h hs"
    by (auto simp: outcome_simps dest: start_container_node)
  have "map (map_data h_node) hs = map (map_data fst) cs" using "1.IH"(1) [OF hs] "1.prems"(2) by simp
  moreover from this have "map brackets (map (map_data h_node) hs) = map brackets (map (map_data fst) cs)" by (rule arg_cong)
  then have "map brackets hs = map brackets cs" by (simp add: comp_def)
  then have "sort_children hs = hs" using "1.prems"(2) by (intro sort_children_sorted) simp
  ultimately show ?case by (simp add: r with_children_def h)
next
  case (3 S lease c cs s)
  then show ?case by (auto simp: outcome_simps)
qed (auto simp: outcome_simps)

text \<open>The handles come back in the order of the containers.\<close>

lemma spinup_topologyE:
  assumes "spinup_topology S lease (Topology nn cs) s = (Ok r, s')" and "canonical (Topology nn cs)"
  obtains hs s1 h hosts where "spinup_all S lease cs s = (Ok hs, s1)" "start_container S lease (fst nn) (snd nn) hosts s1 = (Ok h, s')"
    "r = Topology h hs"
proof -
  from assms(1) obtain hs s1 h where hs: "spinup_all S lease cs s = (Ok hs, s1)"
    and h: "start_container S lease (fst nn) (snd nn)
      (map (\<lambda>c. (get_hostname (fst (get_data c)), ns_ip (snd (get_data c)))) cs) s1 = (Ok h, s')"
    and r: "r = with_children h hs"
    by (auto simp: outcome_simps)
  have "map brackets (map (map_data h_node) hs) = map brackets (map (map_data fst) cs)"
    using spinup_nodes(2) [OF hs] assms(2) by simp
  then have "map brackets hs = map brackets cs" by (simp add: comp_def)
  then have "sort_children hs = hs" using assms(2) by (intro sort_children_sorted) simp
  with that [OF hs h] r show thesis by (simp add: with_children_def)
qed

lemma sort_services:
  "sort_children (map (\<lambda>(h, s). service_topology h s) svcs) = map (\<lambda>(h, s). service_topology h s)
     (sort_key (brackets \<circ> (\<lambda>(h, s). service_topology h s)) svcs)"
  by (simp add: sort_children_key sort_key_map)

abbreviation renamed_entry :: "ustr \<Rightarrow> ustr \<times> service_state \<Rightarrow> ustr \<times> service_state" where
  "renamed_entry name \<equiv> \<lambda>(h, s). (h, renamed_service (name @ [47] @ h) s)"

lemma bt_ok_renamed: "bt_ok (map (renamed_entry name) svcs) \<longleftrightarrow> bt_ok svcs"
  by (simp add: bt_ok_def comp_def case_prod_beta)

lemma spindown_allE:
  assumes "spindown_all S (c # cs) name svcs s = (Ok m, s')"
  obtains host sv out s1 where "hostname (h_node (get_data c)) = Some host"
    "spindown_topology S c (name @ [47] @ host) s = (Ok (Service sv, out), s1)"
    "spindown_all S cs name (bt_insert host sv svcs) s1 = (Ok m, s')"
proof (cases "hostname (h_node (get_data c))")
  case None
  with assms show ?thesis by (simp add: outcome_simps)
next
  case (Some host)
  with assms obtain out s1 where out: "spindown_topology S c (name @ [47] @ host) s = (Ok out, s1)"
    and rest: "(case fst out of Service sv \<Rightarrow> spindown_all S cs name (bt_insert host sv svcs)
       | Container _ \<Rightarrow> fail (InternalError ''Expected a service'')) s1 = (Ok m, s')"
    by (auto simp: outcome_simps split: prod.split_asm)
  then obtain sv where "fst out = Service sv" by (cases "fst out") (simp_all add: outcome_simps)
  with that [OF Some, of sv "snd out" s1] out rest show ?thesis by (cases out) simp
qed

text \<open>Spinning down children that run the services of a map.\<close>

lemma spindown_services:
  assumes "spindown_all S cs name [] s = (Ok m, s')"
    and "map (map_data h_node) cs = sort_children (map (\<lambda>(h, s). service_topology h s) svcs)" and "bt_ok svcs"
    and "\<And>c h sv name out s s'. c \<in> set cs \<Longrightarrow> (h, sv) \<in> set svcs \<Longrightarrow> map_data h_node c = service_topology h sv \<Longrightarrow>
      spindown_topology S c name s = (Ok out, s') \<Longrightarrow> fst out = Service (renamed_service name sv)"
  shows "m = map (renamed_entry name) svcs"
proof -
  have fold: "m = fold (\<lambda>(k, v). bt_insert k v) (map (renamed_entry name) kvs) m0"
    if "spindown_all S cs name m0 s = (Ok m, s')" "map (map_data h_node) cs = map (\<lambda>(h, s). service_topology h s) kvs"
      "set kvs \<subseteq> set svcs" "set cs \<subseteq> set cs0"
      "\<And>c h sv name out s s'. c \<in> set cs0 \<Longrightarrow> (h, sv) \<in> set svcs \<Longrightarrow> map_data h_node c = service_topology h sv \<Longrightarrow>
      spindown_topology S c name s = (Ok out, s') \<Longrightarrow> fst out = Service (renamed_service name sv)"
    for cs0 cs kvs m0 m s s'
    using that(1-4)
  proof (induction cs arbitrary: kvs m0 s)
    case (Cons c cs)
    then obtain h sv kvs' where kvs: "kvs = (h, sv) # kvs'" "map_data h_node c = service_topology h sv" by (cases kvs) auto
    have "hostname (h_node (get_data c)) = Some h"
      using arg_cong [OF kvs(2), of "\<lambda>t. hostname (get_data t)"]
      by (cases c; cases "(h, sv)" rule: service_topology.cases) (simp add: with_children_def)
    with spindown_allE [OF Cons.prems(1)] obtain sv' out s1 where
      out: "spindown_topology S c (name @ [47] @ h) s = (Ok (Service sv', out), s1)"
      and rest: "spindown_all S cs name (bt_insert h sv' m0) s1 = (Ok m, s')" by (metis option.inject)
    have "sv' = renamed_service (name @ [47] @ h) sv"
      using that(5) [OF _ _ kvs(2) out] Cons.prems(3,4) kvs(1) by simp
    with rest have "spindown_all S cs name (bt_insert h (renamed_service (name @ [47] @ h) sv) m0) s1 = (Ok m, s')" by simp
    from Cons.IH [OF this] Cons.prems(2-4) kvs show ?case by simp
  qed (simp add: outcome_simps)
  let ?kvs = "sort_key (brackets \<circ> (\<lambda>(h, s). service_topology h s)) svcs"
  have "m = fold (\<lambda>(k, v). bt_insert k v) (map (renamed_entry name) ?kvs) []"
    using assms(2) by (intro fold [OF assms(1), where ?cs0.0 = cs]) (auto simp: sort_services intro: assms(4))
  then have "m = bt_collect (map (renamed_entry name) ?kvs)" by (simp only: bt_collect_def)
  also have "\<dots> = map (renamed_entry name) svcs"
    by (rule bt_collect_permuted) (simp_all only: bt_ok_renamed assms(3) mset_map mset_sort)
  finally show ?thesis .
qed

lemma spindown_service:
  "map_data h_node t = service_topology host sv \<Longrightarrow> service_ok sv \<Longrightarrow>
     spindown_topology S t name s = (Ok out, s') \<Longrightarrow> fst out = Service (renamed_service name sv)"
proof (induction t arbitrary: host sv name out s s')
  case (Topology h cs)
  obtain snap e w u svcs sc where sv: "sv = ServiceState (ContainerState snap (ContainerConfig e w u svcs)) sc"
    by (metis container_config.exhaust container_state.exhaust service_state.exhaust)
  from Topology.prems(1) have st: "state (h_node h) = Service sv"
    and cs: "map (map_data h_node) cs = sort_children (map (\<lambda>(h, s). service_topology h s) svcs)"
    by (simp_all add: sv with_children_def)
  from Topology.prems(3) obtain stdout s1 m s2 where m: "spindown_all S cs name [] s1 = (Ok m, s2)"
    and out: "out = (committed name m (Service sv), stdout)" by (auto simp: outcome_simps st)
  have "m = map (renamed_entry name) svcs"
    using m cs
  proof (rule spindown_services)
    show "bt_ok svcs" using Topology.prems(2) by (simp add: sv)
  next
    fix c h' sv' name' out' r r'
    assume c: "c \<in> set cs" "(h', sv') \<in> set svcs" "map_data h_node c = service_topology h' sv'"
      "spindown_topology S c name' r = (Ok out', r')"
    have "service_ok sv'" using Topology.prems(2) c(2) by (auto simp: sv)
    from Topology.IH [OF c(1,3) this c(4)] show "fst out' = Service (renamed_service name' sv')" .
  qed
  then show ?case by (simp add: out committed_def sv update_config_def set_services_def)
qed

lemma spindown_container:
  assumes "map_data h_node t = container_topology command st" "services_ok st"
    and "spindown_topology S t name s = (Ok out, s')"
  shows "fst out = Container (renamed name st)"
proof (cases t)
  case (Topology h cs)
  obtain snap e w u svcs where st: "st = ContainerState snap (ContainerConfig e w u svcs)"
    by (metis container_config.exhaust container_state.exhaust)
  from assms(1) have c: "state (h_node h) = Container st"
    and cs: "map (map_data h_node) cs = sort_children (map (\<lambda>(h, s). service_topology h s) svcs)"
    by (simp_all add: Topology container_topology_def st with_children_def)
  from assms(3) obtain stdout s1 m s2 where m: "spindown_all S cs name [] s1 = (Ok m, s2)"
    and out: "out = (committed name m (Container st), stdout)" by (auto simp: outcome_simps Topology c)
  have "m = map (renamed_entry name) svcs"
    using m cs
  proof (rule spindown_services)
    show "bt_ok svcs" using assms(2) by (simp add: st)
  next
    fix c h' sv' name' out' r r'
    assume c: "c \<in> set cs" "(h', sv') \<in> set svcs" "map_data h_node c = service_topology h' sv'"
      "spindown_topology S c name' r = (Ok out', r')"
    have "service_ok sv'" using assms(2) c(2) by (auto simp: st)
    from spindown_service [OF c(3) this c(4)] show "fst out' = Service (renamed_service name' sv')" .
  qed
  then show ?thesis by (simp add: out committed_def st update_config_def set_services_def)
qed

section \<open>The pool of networks\<close>

definition pool_ok :: "client_state \<Rightarrow> bool" where
  "pool_ok s \<longleftrightarrow> (\<forall>shape ns n. free_networks s shape = Some ns \<longrightarrow> n \<in> set ns \<longrightarrow> topology_eq shape n)"

definition networks_fit :: "('e, 'p, 'h) services \<Rightarrow> bool" where
  "networks_fit S \<longleftrightarrow> (\<forall>h shape n. canonical shape \<longrightarrow> networks S (h @ [CreateNetwork shape]) = Inr n \<longrightarrow> topology_eq shape n)"

text \<open>The networks are those that the sidecar daemon realises.\<close>

definition from_sidecar :: "network_env \<Rightarrow> ('e, 'p, 'h) services \<Rightarrow> bool" where
  "from_sidecar E S \<longleftrightarrow> (\<forall>h shape n. networks S (h @ [CreateNetwork shape]) = Inr n \<longrightarrow>
     (\<exists>s s'. realize_topology E shape None s = (Ok n, s')))"

lemma from_sidecar_fits: "from_sidecar E S \<Longrightarrow> networks_fit S"
proof -
  assume S: "from_sidecar E S"
  have "topology_eq shape n" if c: "canonical shape" and n: "networks S (h @ [CreateNetwork shape]) = Inr n" for h shape n
  proof -
    obtain s s' where "realize_topology E shape None s = (Ok n, s')" using S n unfolding from_sidecar_def by blast
    from realize_realized [OF this c] have "brackets n = brackets shape" by (simp add: realized_def)
    then show ?thesis by (simp add: topology_eq_cmp topology_cmp_iff)
  qed
  then show ?thesis by (simp add: networks_fit_def)
qed

lemma container_canonical: "canonical (container_topology command st)"
  by (auto simp: container_topology_def service_topology_canonical intro!: canonical_with_children)

lemma get_network_fits:
  assumes "pool_ok s" "networks_fit S" "canonical shape" "get_network S shape s = (Ok n, s')"
  shows "topology_eq shape n \<and> pool_ok s'"
proof (cases "free_networks s shape = None \<or> free_networks s shape = Some []")
  case True
  then have "get_network S shape s = and_do (ask (networks S) (CreateNetwork shape)) (\<lambda>network.
      and_do (register_dangling (DanglingNetwork network)) (\<lambda>_. give network)) s"
    by (auto simp: get_network_def and_do_def inspect_def)
  with assms show ?thesis
    by (auto simp: outcome_simps register_dangling_def pool_ok_def networks_fit_def)
next
  case False
  then obtain m ms where ns: "free_networks s shape = Some (m # ms)" by (auto simp: neq_Nil_conv)
  with assms(4) have n: "n = last (m # ms)" and s': "s' = s\<lparr>free_networks := (free_networks s)(shape \<mapsto> butlast (m # ms))\<rparr>"
    by (auto simp: get_network_def outcome_simps)
  have "n \<in> set (m # ms)" unfolding n by (rule last_in_set) simp
  with ns assms(1) have "topology_eq shape n" unfolding pool_ok_def by blast
  moreover have "topology_eq shape' k" if "free_networks s' shape' = Some ks" "k \<in> set ks" for shape' ks k
  proof (cases "shape' = shape")
    case True
    then have "ks = butlast (m # ms)" using that(1) by (simp add: s')
    with that(2) have "k \<in> set (m # ms)" by (metis in_set_butlastD)
    with ns True assms(1) show ?thesis unfolding pool_ok_def by blast
  next
    case False
    with that assms(1) show ?thesis unfolding pool_ok_def s' by simp
  qed
  ultimately show ?thesis unfolding pool_ok_def by blast
qed

section \<open>Properties\<close>

lemma map_data_compose: "map_data f (map_data g t) = map_data (f \<circ> g) t"
  by (induction t) simp

text \<open>The steps of a successful run.\<close>

lemma exec_internal_steps:
  fixes S :: "('e, 'p, 'h) services"
  assumes "networks_fit S" "pool_ok s" "exec_internal S st command lease s = (Ok (st', out), s')"
  shows "\<exists>n s1 r s2 code s3 s4. get_network S (map_data (\<lambda>_. ()) (container_topology command st)) s = (Ok n, s1) \<and>
    canonical (zip_topology (container_topology command st) n) \<and>
    spinup_topology S lease (zip_topology (container_topology command st) n) s1 = (Ok r, s2) \<and>
    map_data h_node r = container_topology command st \<and>
    wait_for_exit S (h_id (get_data r)) [] s2 = (Ok code, s3) \<and>
    spindown_topology S r (exec_name S st command) s3 = (Ok (Container st', out), s4) \<and>
    requests s' = requests s4 \<and> pool_ok s'"
proof -
  let ?ct = "container_topology command st"
  let ?shape = "map_data (\<lambda>_. ()) ?ct"
  from assms(3) obtain n s1 r s2 code s3 c o4 s4 u5 s5 where n: "get_network S ?shape s = (Ok n, s1)"
    and r: "spinup_topology S lease (zip_topology ?ct n) s1 = (Ok r, s2)"
    and w: "wait_for_exit S (h_id (get_data r)) [] s2 = (Ok code, s3)"
    and d: "spindown_topology S r (exec_name S st command) s3 = (Ok (c, o4), s4)"
    and s5: "release_network ?shape n s4 = (Ok u5 :: ('e client_error, unit) outcome, s5)"
    and e: "(case c of Container c \<Rightarrow> give (c, o4)
        | Service _ \<Rightarrow> fail (InternalError ''Invalid container topology: root node was a service'')) s5 =
          (Ok (st', out) :: ('e client_error, _) outcome, s')"
    unfolding exec_internal_def Let_def and_do_Ok split_paired_Ex prod.case by blast
  then have s': "release_network ?shape n s4 = (Ok () :: ('e client_error, unit) outcome, s')" and st': "c = Container st'" "o4 = out"
    by (cases c; simp add: outcome_simps)+
  have fit: "topology_eq ?shape n" "pool_ok s1" using get_network_fits [OF assms(2,1) _ n] container_canonical by simp_all
  then have "topology_eq ?ct n" by (simp add: topology_eq_cmp topology_cmp_iff)
  from zip_topology_maps(1) [OF this] have zip: "map_data fst (zip_topology ?ct n) = ?ct" by simp
  then have can: "canonical (zip_topology ?ct n)" using container_canonical canonical_map_data by metis
  from spinup_nodes(1) [OF r can] zip have node: "map_data h_node r = ?ct" by simp
  have "free_networks s4 = free_networks s1"
  proof -
    have "same_pool s1 s2" using r by (rule keepsD [OF pool.keeps_spinup(1) [OF TrueI]])
    moreover have "same_pool s2 s3"
      using w unfolding wait_for_exit_def by (rule keepsD [OF pool.keeps_ask [OF TrueI]])
    moreover have "same_pool s3 s4" using d by (rule keepsD [OF pool.keeps_spindown(1) [OF TrueI TrueI TrueI TrueI]])
    ultimately show ?thesis by (simp add: same_pool_def)
  qed
  then have "pool_ok s4" using fit(2) by (simp add: pool_ok_def)
  then have "pool_ok s'" using s' fit(1) by (auto simp: release_network_def outcome_simps pool_ok_def split: option.split_asm)
  moreover have "requests s' = requests s4" using s' by (auto simp: release_network_def outcome_simps)
  ultimately show ?thesis using n can r node w d st' by blast
qed

lemma exec_internal_result:
  assumes "services_ok st" "networks_fit S" "pool_ok s" "exec_internal S st command lease s = (Ok (st', out), s')"
  shows "st' = renamed (exec_name S st command) st \<and> pool_ok s'"
  using exec_internal_steps [OF assms(2-4)] spindown_container [OF _ assms(1)] by fastforce

lemma exec_renamed:
  fixes S :: "('e, 'p, 'h) services"
  assumes "services_ok st" and "from_sidecar E S" and "pool_ok s" and "exec S st command s = (Ok st', s')"
  shows "st' = renamed (exec_name S st command) st \<and> pool_ok s'"
proof -
  from assms(4) obtain lease s1 out s2 where l: "new_lease S s = (Ok lease, s1)"
    and e: "exec_internal S st command lease s1 = (Ok (st', out), s2)"
    and d: "drop_lease S lease s2 = (Ok (), s')"
    by (auto simp: exec_def outcome_simps)
  have "same_pool s s1" "same_pool s2 s'"
    using l d by (auto simp: new_lease_def drop_lease_def outcome_simps register_dangling_def same_pool_def)
  then show ?thesis
    using exec_internal_result [OF assms(1) from_sidecar_fits [OF assms(2)] _ e] assms(3) by (simp add: pool_ok_def same_pool_def)
qed

text \<open>
  C5: running a command gives the state it was run in, with its snapshot named after the state and the command and
  the snapshots of its services, at every level, named below it by their host names; nothing else of the
  configuration changes and no service is lost or exchanged, the networks being those of the sidecar. The pool keeps
  holding networks under their shapes.
\<close>

theorem exec_result:
  assumes "services_ok st" and "from_sidecar E S" and "pool_ok s" and "exec S st command s = (Ok st', s')"
  shows "st' = renamed (exec_name S st command) st \<and> pool_ok s'"
  using assms by (rule exec_renamed)

section \<open>Commands that fail\<close>

definition no_commit :: "request \<Rightarrow> bool" where
  "no_commit r \<longleftrightarrow> (case r of CommitSnapshot _ _ \<Rightarrow> False | _ \<Rightarrow> True)"

lemma no_commitI: "(case r of CommitSnapshot _ _ \<Rightarrow> False | KillTask _ _ _ \<Rightarrow> False | _ \<Rightarrow> True) \<Longrightarrow> no_commit r"
  by (simp add: no_commit_def split: request.split_asm)

abbreviation no_failure :: "'e client_error \<Rightarrow> bool" where
  "no_failure \<equiv> only (\<lambda>_. False)"

lemma get_network_sends:
  assumes "get_network S shape s = (r, s')"
  shows "sent no_commit s s' \<and> (\<forall>e. r = Err e \<longrightarrow> no_failure e)"
proof -
  have k: "keeps (sent no_commit) no_failure (get_network S shape)"
    unfolding get_network_def
    by (auto intro!: sent.kept sent.keeps_update simp: no_commit_def split: option.split list.split) (auto simp: sent_def)
  from keepsD [OF k assms] keeps_errorD [OF k] assms show ?thesis by blast
qed

lemma service_nodes: "n \<in> set (preorder (service_topology h sv)) \<Longrightarrow> is_service (state n)"
proof -
  assume "n \<in> set (preorder (service_topology h sv))"
  then have "n \<in># image_mset service_node (mset ((h, sv) # attached_service sv))"
    unfolding service_topology_nodes [symmetric] by simp
  then show ?thesis by (auto simp: service_node_def)
qed

lemma container_children: "c \<in> set (children (container_topology command st)) \<Longrightarrow> \<exists>h sv. c = service_topology h sv"
  by (auto simp: container_topology_def with_children_def sort_children_key)

lemma preorder_map_data: "preorder (map_data f t) = map f (preorder t)"
  by (induction t) (simp add: comp_def map_concat cong: map_cong)

lemma never_fails:
  "keeps I no_failure f \<Longrightarrow> (f s = (Err (CommandFailed code told out), s')) = False"
  using keeps_errorD [of I no_failure f s "CommandFailed code told out" s'] by (auto simp: only_def)

lemma spindown_root:
  "spindown_topology S (Topology h cs) name = and_do (stop_container S h) (\<lambda>stdout.
     and_do (spindown_all S cs name []) (\<lambda>svcs. and_do (commit_snapshot S name (h_snapshot h)) (\<lambda>_.
     give (committed name svcs (state (h_node h)), stdout))))"
  by (rule ext) simp

text \<open>
  The exit code of a container that is stopped, as the service answers: to the wait after the interrupt, or, when the
  process outlives ten seconds, to the wait after the kill. And what is said of the output.
\<close>

definition exit_status :: "('e, 'p, 'h) services \<Rightarrow> request list \<Rightarrow> ustr \<Rightarrow> 'e + nat" where
  "exit_status S h c = (let stopped = h @ [KillTask c 2 False, WaitProcess c []] in
     if outlives S stopped 10 then exits S (stopped @ [KillTask c 9 False, WaitProcess c []]) else exits S stopped)"

definition output_text :: "('e, 'p, 'h) services \<Rightarrow> request list \<Rightarrow> ustr \<times> ustr \<Rightarrow> ustr" where
  "output_text S h pipes = (case read_stdout (strip_ansi S) (output_lines S h (fst pipes) (snd pipes)) of Inl out \<Rightarrow> out | Inr out \<Rightarrow> out)"

lemma stop_reports:
  assumes "exit_status S (requests s) (h_id h) = Inr code"
  shows "\<exists>s'. stop_container S h s = report_exit S h code s' \<and> sent no_commit s s'"
proof -
  let ?k = "\<lambda>n. KillTask (h_id h) n False" and ?w = "WaitProcess (h_id h) []"
  let ?s = "s\<lparr>requests := requests s @ (if outlives S (requests s @ [?k 2, ?w]) 10 then [?k 2, ?w, ?k 9, ?w] else [?k 2, ?w])\<rparr>"
  have "stop_container S h s = report_exit S h code ?s"
    using assms
    by (cases "outlives S (requests s @ [?k 2, ?w]) 10")
      (simp_all add: stop_container_def send_signal_def exit_or_kill_def wait_within_def wait_for_exit_def exit_status_def
        and_do_def ask_def try_ask_def give_def inspect_def lift_outcome_def of_sum_def Let_def)
  moreover have "sent no_commit s ?s" by (auto simp: sent_def no_commit_def)
  ultimately show ?thesis by blast
qed

lemma root_failure:
  assumes r: "map_data h_node r = container_topology command st" and code: "exit_status S (requests s) (h_id (get_data r)) = Inr code"
  shows "if code = 0 then \<forall>c told out. fst (spindown_topology S r name s) \<noteq> Err (CommandFailed c told out)
    else \<exists>s'. spindown_topology S r name s = (Err (CommandFailed code command (output_text S (requests s') (h_pipes (get_data r)))), s') \<and>
      sent no_commit s s'"
proof (cases r)
  case (Topology h cs)
  have node: "h_node h = \<lparr>state = Container st, hostname = None, cmd = Some command\<rparr>"
    using r by (simp add: Topology container_topology_def with_children_def)
  have service: "is_service (state (h_node k))" if "c \<in> set cs" "k \<in> set (preorder c)" for c k
  proof -
    have "map_data h_node c \<in> set (children (container_topology command st))" using that(1) unfolding r [symmetric] Topology by simp
    then obtain h sv where "map_data h_node c = service_topology h sv" using container_children by blast
    moreover have "h_node k \<in> set (preorder (map_data h_node c))" using that(2) by (simp add: preorder_map_data)
    ultimately show ?thesis using service_nodes by metis
  qed
  obtain s1 where s1: "stop_container S h s = report_exit S h code s1" "sent no_commit s s1"
    using stop_reports [of S s h code] code Topology by auto
  show ?thesis
  proof (cases "code = 0")
    case True
    let ?rest = "\<lambda>stdout. and_do (spindown_all S cs name []) (\<lambda>svcs. and_do (commit_snapshot S name (h_snapshot h)) (\<lambda>_.
      give (committed name svcs (state (h_node h)), stdout)))"
    have "keeps (sent (\<lambda>_. True)) no_failure (?rest stdout)" for stdout
      by (intro sent.kept sent.keeps_spindown(2) sent.keeps_commit) (simp_all add: service)
    then have "fst (?rest stdout s1) \<noteq> Err (CommandFailed c told out)" for stdout c told out
      using keeps_errorD [of _ no_failure "?rest stdout" s1] by (metis is_command_failed.simps(1) only_def prod.collapse)
    moreover obtain out where "stop_container S h s = (Ok out, s1)"
      using True unfolding s1(1) by (simp add: report_exit_def and_do_def inspect_def give_def)
    then have "spindown_topology S r name s = ?rest out s1"
      unfolding Topology spindown_root by (subst and_do_def) simp
    ultimately have "\<forall>c told out. fst (spindown_topology S r name s) \<noteq> Err (CommandFailed c told out)" by metis
    then show ?thesis using True by simp
  next
    case False
    then have "stop_container S h s = (Err (CommandFailed code command (output_text S (requests s1) (h_pipes h))), s1)"
      unfolding s1(1) by (simp add: report_exit_def and_do_def inspect_def fail_def node get_cmd_def output_text_def)
    then show ?thesis using False s1(2) by (simp add: Topology and_do_def)
  qed
qed

text \<open>
  C7: a command that exits with another code than zero is reported. Once the container was started and has exited, the
  exit code that containerd gives decides: when it is not zero, running the command fails with this code, the command and
  its output, and nothing of the run is committed: no snapshot can take the name of its result. When it is zero, running the
  command does not fail so.
\<close>

theorem failing_command:
  fixes S :: "('e, 'p, 'h) services"
  assumes "from_sidecar E S" and "pool_ok s" and run: "exec_stages S st command lease 3 Acquire s = (Ok (SpinDown n r), t)"
    and code: "exit_status S (requests t) (h_id (get_data r)) = Inr code"
  shows "if code = 0 then \<forall>c told out. fst (exec_internal S st command lease s) \<noteq> Err (CommandFailed c told out)
    else \<exists>s'. exec_internal S st command lease s =
      (Err (CommandFailed code command (output_text S (requests s') (h_pipes (get_data r)))), s') \<and> sent no_commit s s'"
proof -
  let ?ct = "container_topology command st"
  have sp: "keeps (sent no_commit) no_failure (spinup_topology S lease t)" for t
    by (rule sent.keeps_spinup(1)) (rule no_commitI)
  have w: "keeps (sent no_commit) no_failure (wait_for_exit S c e)" for c e
    unfolding wait_for_exit_def by (rule sent.keeps_ask) (simp add: no_commit_def)
  from run obtain s1 s2 c where n: "get_network S (exec_shape st command) s = (Ok n, s1)"
    and r: "spinup_topology S lease (zip_topology ?ct n) s1 = (Ok r, s2)" and c: "wait_for_exit S (h_id (get_data r)) [] s2 = (Ok c, t)"
    by (auto simp: eval_nat_numeral outcome_simps)
  have "topology_eq ?ct n"
    using get_network_fits [OF assms(2) from_sidecar_fits [OF assms(1)] _ n] container_canonical
    by (simp add: topology_eq_cmp topology_cmp_iff exec_shape_def)
  from zip_topology_maps(1) [OF this] have zip: "map_data fst (zip_topology ?ct n) = ?ct" by simp
  then have "canonical (zip_topology ?ct n)" using container_canonical canonical_map_data by metis
  from spinup_nodes(1) [OF r this] zip have node: "map_data h_node r = ?ct" by simp
  have upto: "sent no_commit s t"
    using get_network_sends [OF n] keepsD [OF sp r] keepsD [OF w c] by (metis sent_trans)
  have "exec_internal S st command lease s = and_do (exec_stages S st command lease 2 (SpinDown n r)) (\<lambda>stage. case stage of
       Finish (Container c) stdout \<Rightarrow> give (c, stdout)
     | _ \<Rightarrow> fail (InternalError ''Invalid container topology: root node was a service'')) t"
    using run exec_stages_add [of S st command lease 3 2 Acquire] by (simp add: exec_internal_stages and_do_assoc and_do_def [of "exec_stages S st command lease 3 Acquire"])
  then have rest: "exec_internal S st command lease s = and_do (spindown_topology S r (exec_name S st command)) (\<lambda>x.
      and_do (release_network (exec_shape st command) n) (\<lambda>_. case fst x of Container c \<Rightarrow> give (c, snd x)
      | Service _ \<Rightarrow> fail (InternalError ''Invalid container topology: root node was a service''))) t"
    by (simp add: numeral_2_eq_2 and_do_assoc and_do_give case_prod_beta del: spindown_topology.simps)
  note failure = root_failure [OF node code, of "exec_name S st command"]
  show ?thesis
  proof (cases "code = 0")
    case True
    then show ?thesis using failure rest
      by (cases "spindown_topology S r (exec_name S st command) t"; cases "fst (spindown_topology S r (exec_name S st command) t)")
        (auto simp: and_do_def release_network_def update_def give_def fail_def split: container_like.split)
  next
    case False
    with failure obtain s' where "spindown_topology S r (exec_name S st command) t =
        (Err (CommandFailed code command (output_text S (requests s') (h_pipes (get_data r)))), s')" "sent no_commit t s'" by auto
    then show ?thesis using False rest sent_trans [OF upto] by (auto simp: and_do_def)
  qed
qed

section \<open>The order of requests\<close>

text \<open>\<open>logs f s s' xs\<close>: between the states the requests that \<open>f\<close> picks were sent with the values \<open>xs\<close>, in this order.\<close>

definition logs :: "(request \<Rightarrow> 'a option) \<Rightarrow> client_state \<Rightarrow> client_state \<Rightarrow> 'a list \<Rightarrow> bool" where
  "logs f s s' xs \<longleftrightarrow> (\<exists>rs. requests s' = requests s @ rs \<and> List.map_filter f rs = xs)"

lemma logs_append: "logs f s t xs \<Longrightarrow> logs f t u ys \<Longrightarrow> logs f s u (xs @ ys)"
  by (auto simp: logs_def List.map_filter_def)

lemma logs_none: "sent (\<lambda>r. f r = None) s s' \<Longrightarrow> logs f s s' []"
  by (fastforce simp: logs_def sent_def List.map_filter_def list_all_iff filter_empty_conv)

lemma logs_sent: "s' = s\<lparr>requests := requests s @ [r]\<rparr> \<Longrightarrow> f r = Some x \<Longrightarrow> logs f s s' [x]"
  by (simp add: logs_def List.map_filter_def)

fun started :: "request \<Rightarrow> ustr option" where
  "started (StartProcess c e) = (if e = [] then Some c else None)"
| "started _ = None"

fun interrupted :: "request \<Rightarrow> ustr option" where
  "interrupted (KillTask c signal everything) = (if signal = 2 then Some c else None)"
| "interrupted _ = None"

fun committing :: "request \<Rightarrow> (ustr \<times> ustr) option" where
  "committing (CommitSnapshot name key) = Some (name, key)"
| "committing _ = None"

fun postorder :: "'a topology \<Rightarrow> 'a list" where
  "postorder (Topology d cs) = concat (map postorder cs) @ [d]"

lemma started_none: "(case r of CommitSnapshot _ _ \<Rightarrow> False | KillTask _ _ _ \<Rightarrow> False | StartProcess _ _ \<Rightarrow> False | _ \<Rightarrow> True) \<Longrightarrow> started r = None"
  by (cases r) auto

lemma start_container_starts:
  fixes S :: "('e, 'p, 'h) services"
  assumes ids: "\<And>k. uuid_of S k \<noteq> []" and "start_container S lease node ns hosts s = (Ok h, s')"
  shows "logs started s s' [h_id h]"
proof -
  let ?quiet = "keeps (sent (\<lambda>r. started r = None)) (only (\<lambda>_. True))"
  have c: "?quiet (create_container S st command ns hosts mounts lease)" for st command ns hosts mounts
    by (rule sent.keeps_create_container) (rule started_none)
  have w: "?quiet (wait_healthy S st container p lease)" for st container p
    unfolding wait_healthy_def
    by (cases st) (simp_all add: sent.keeps_pure, rule sent.keeps_healthcheck, simp add: ids, erule started_none)
  from assms(2) obtain key s1 mounts s2 p s3 stdout s4 stderr s5 u6 s6 u7 s7 u8 s8 where
    a: "new_uuid S s = (Ok key :: ('e client_error, _) outcome, s1)"
    "ask (mounted S) (PrepareSnapshot key (snapshot (like_deref (state node))) lease) s1 = (Ok mounts, s2)"
    and cc: "create_container S (like_deref (state node)) (get_cmd node) (ns_path ns) hosts mounts lease s2 = (Ok (h_id h, p), s3)"
    and b: "ask (fifos S) CreateFifo s3 = (Ok stdout, s4)" "ask (fifos S) CreateFifo s4 = (Ok stderr, s5)"
    "ask (acks S) (CreateTask (h_id h) mounts stdout stderr lease) s5 = (Ok u6, s6)"
    and st: "ask (acks S) (StartProcess (h_id h) []) s6 = (Ok u7, s7)"
    and wh: "wait_healthy S (state node) (h_id h) p lease s7 = (Ok u8, s8)" and "s8 = s'"
    unfolding start_container_def and_do_Ok split_paired_Ex prod.case action_Ok by force
  from a have "sent (\<lambda>r. started r = None) s s2" by (auto simp: outcome_simps sent_def)
  moreover have "sent (\<lambda>r. started r = None) s2 s3" using keepsD [OF c cc] .
  moreover have "sent (\<lambda>r. started r = None) s3 s6"
    using b by (auto simp: outcome_simps sent_def)
  ultimately have quiet: "logs started s s6 []" by (blast intro: logs_none sent_trans)
  have start: "logs started s6 s7 [h_id h]" using st by (auto simp: outcome_simps intro: logs_sent)
  have "logs started s7 s' []" using keepsD [OF w wh] \<open>s8 = s'\<close> by (simp add: logs_none)
  from logs_append [OF logs_append [OF quiet start] this] show ?thesis by simp
qed

lemma spinup_starts:
  assumes ids: "\<And>k. uuid_of S k \<noteq> []"
  shows "spinup_topology S lease t s = (Ok r, s') \<Longrightarrow> canonical t \<Longrightarrow> logs started s s' (map h_id (postorder r))"
proof (induction t arbitrary: s r s')
  case (Topology nn cs)
  from Topology.prems obtain hs s1 h hosts where hs: "spinup_all S lease cs s = (Ok hs, s1)"
    and h: "start_container S lease (fst nn) (snd nn) hosts s1 = (Ok h, s')" and r: "r = Topology h hs"
    by (rule spinup_topologyE)
  have "logs started s s1 (map h_id (concat (map postorder hs)))"
    if "\<And>c s r s'. c \<in> set cs \<Longrightarrow> spinup_topology S lease c s = (Ok r, s') \<Longrightarrow> logs started s s' (map h_id (postorder r))"
      "spinup_all S lease cs s = (Ok hs, s1)" for cs hs s s1
    using that
  proof (induction cs arbitrary: s hs)
    case Nil
    then show ?case by (simp add: outcome_simps logs_def List.map_filter_def)
  next
    case (Cons c cs)
    then obtain k s2 ks where k: "spinup_topology S lease c s = (Ok k, s2)" "spinup_all S lease cs s2 = (Ok ks, s1)" "hs = k # ks"
      by (auto simp: outcome_simps)
    have "logs started s2 s1 (map h_id (concat (map postorder ks)))"
      by (rule Cons.IH [OF _ k(2)]) (rule Cons.prems(1), simp_all)
    moreover have "logs started s s2 (map h_id (postorder k))" by (rule Cons.prems(1) [OF _ k(1)]) simp
    ultimately show ?case using logs_append by (fastforce simp: k(3))
  qed
  note children = this
  have "logs started s s1 (map h_id (concat (map postorder hs)))"
    by (rule children [OF _ hs]) (use Topology in auto)
  from logs_append [OF this start_container_starts [OF ids h]] show ?case by (simp add: r)
qed

lemma stop_container_logs:
  assumes "stop_container S h s = (Ok out, s')"
  shows "logs interrupted s s' [h_id h]" "logs committing s s' []"
proof -
  let ?s = "s\<lparr>requests := requests s @ [KillTask (h_id h) 2 False]\<rparr>"
  from assms have r: "and_do (exit_or_kill S (h_id h)) (report_exit S h) ?s = (Ok out, s')"
    by (auto simp: stop_container_def send_signal_def outcome_simps)
  have "keeps (sent (\<lambda>r. interrupted r = None)) (only (\<lambda>_. True)) (and_do (exit_or_kill S (h_id h)) (report_exit S h))"
    by (intro sent.keeps_and_do sent.keeps_exit_or_kill sent.keeps_report) (simp_all add: only_def)
  from logs_none [OF keepsD [OF this r]] have "logs interrupted ?s s' []" .
  moreover have "logs interrupted s ?s [h_id h]" by (rule logs_sent [OF refl]) simp
  ultimately show "logs interrupted s s' [h_id h]" using logs_append by fastforce
  have "keeps (sent (\<lambda>r. committing r = None)) (only (\<lambda>_. True)) (stop_container S h)"
    by (rule sent.keeps_stop) (simp_all add: only_def)
  from logs_none [OF keepsD [OF this assms]] show "logs committing s s' []" .
qed

lemma commit_snapshot_logs:
  assumes "commit_snapshot S name key s = (r, s')"
  shows "logs committing s s' [(name, key)]" "logs interrupted s s' []"
proof -
  have "s' = s\<lparr>requests := requests s @ [CommitSnapshot name key]\<rparr>"
    using assms by (auto simp: commit_snapshot_def try_ask_def and_do_def give_def fail_def split: sum.split_asm if_split_asm)
  then show "logs committing s s' [(name, key)]" "logs interrupted s s' []"
    by (simp_all add: logs_def List.map_filter_def)
qed

text \<open>The names under which the containers of a topology are committed, with their snapshots, leaves first.\<close>

fun commits :: "ustr \<Rightarrow> handle topology \<Rightarrow> (ustr \<times> ustr) list" where
  "commits name (Topology h cs) =
     concat (map (\<lambda>c. commits (name @ [47] @ the (hostname (h_node (get_data c)))) c) cs) @ [(name, h_snapshot h)]"

lemma spindown_logs:
  "spindown_topology S t name s = (Ok out, s') \<Longrightarrow>
     logs interrupted s s' (map h_id (preorder t)) \<and> logs committing s s' (commits name t)"
proof (induction t arbitrary: name s out s')
  case (Topology h cs)
  have children: "logs interrupted s s' (map h_id (concat (map preorder cs))) \<and>
      logs committing s s' (concat (map (\<lambda>c. commits (name @ [47] @ the (hostname (h_node (get_data c)))) c) cs))"
    if "\<And>c name s out s'. c \<in> set cs \<Longrightarrow> spindown_topology S c name s = (Ok out, s') \<Longrightarrow>
        logs interrupted s s' (map h_id (preorder c)) \<and> logs committing s s' (commits name c)"
      "spindown_all S cs name svcs s = (Ok m, s')" for cs svcs m s s'
    using that
  proof (induction cs arbitrary: svcs s)
    case Nil
    then show ?case by (simp add: outcome_simps logs_def List.map_filter_def)
  next
    case (Cons c cs)
    from Cons.prems(2) obtain host sv out1 s1 where c: "hostname (h_node (get_data c)) = Some host"
        "spindown_topology S c (name @ [47] @ host) s = (Ok (Service sv, out1), s1)"
        "spindown_all S cs name (bt_insert host sv svcs) s1 = (Ok m, s')"
      by (rule spindown_allE)
    have "logs interrupted s1 s' (map h_id (concat (map preorder cs))) \<and>
        logs committing s1 s' (concat (map (\<lambda>c. commits (name @ [47] @ the (hostname (h_node (get_data c)))) c) cs))"
      by (rule Cons.IH [OF _ c(3)]) (rule Cons.prems(1), simp_all)
    moreover have "logs interrupted s s1 (map h_id (preorder c)) \<and> logs committing s s1 (commits (name @ [47] @ host) c)"
      by (rule Cons.prems(1) [OF _ c(2)]) simp
    ultimately show ?case using logs_append [of interrupted s s1 _ s'] logs_append [of committing s s1 _ s'] by (simp add: c(1))
  qed
  from Topology.prems obtain o1 s1 m s2 s3 where st: "stop_container S h s = (Ok o1, s1)"
    and a: "spindown_all S cs name [] s1 = (Ok m, s2)"
    and k: "commit_snapshot S name (h_snapshot h) s2 = (Ok (), s3)" and "s3 = s'"
    by (auto simp: outcome_simps)
  have "logs interrupted s1 s2 (map h_id (concat (map preorder cs))) \<and>
      logs committing s1 s2 (concat (map (\<lambda>c. commits (name @ [47] @ the (hostname (h_node (get_data c)))) c) cs))"
    by (rule children [OF _ a]) (use Topology.IH in blast)
  then show ?case
    using logs_append [OF logs_append [OF stop_container_logs(1) [OF st]] commit_snapshot_logs(2) [OF k]]
      logs_append [OF logs_append [OF stop_container_logs(2) [OF st]] commit_snapshot_logs(1) [OF k]] \<open>s3 = s'\<close>
    by simp
qed

lemma no_logs_up:
  assumes "spinup_topology S lease c s = (r, s')"
  shows "logs interrupted s s' []" "logs committing s s' []"
proof -
  have "keeps (sent (\<lambda>r. interrupted r = None)) (only (\<lambda>_. True)) (spinup_topology S lease c)"
    by (rule sent.keeps_spinup(1)) (simp split: request.split_asm)
  from logs_none [OF keepsD [OF this assms]] show "logs interrupted s s' []" .
  have "keeps (sent (\<lambda>r. committing r = None)) (only (\<lambda>_. True)) (spinup_topology S lease c)"
    by (rule sent.keeps_spinup(1)) (simp split: request.split_asm)
  from logs_none [OF keepsD [OF this assms]] show "logs committing s s' []" .
qed

lemma no_logs_down:
  assumes "spindown_topology S t name s = (r, s')"
  shows "logs started s s' []"
proof -
  have "keeps (sent (\<lambda>r. started r = None)) (only (\<lambda>_. True)) (spindown_topology S t name)"
    by (rule sent.keeps_spindown(1)) (simp_all add: only_def)
  from logs_none [OF keepsD [OF this assms]] show ?thesis .
qed

lemma no_logs_between:
  "get_network S shape s = (Ok n, s') \<Longrightarrow> logs started s s' [] \<and> logs interrupted s s' [] \<and> logs committing s s' []"
  "wait_for_exit S c e s = (Ok x, s') \<Longrightarrow> logs started s s' [] \<and> logs interrupted s s' [] \<and> logs committing s s' []"
  by (auto simp: get_network_def wait_for_exit_def register_dangling_def outcome_simps logs_def List.map_filter_def
    split: option.split_asm list.split_asm)

text \<open>
  C6: when a command succeeds, the containers of its topology have been started from the leaves, every service
  before the container it is attached to, then interrupted from the root, a container before its services, and
  committed from the leaves under the names that the result refers to; each exactly once.
\<close>

theorem exec_order:
  fixes S :: "('e, 'p, 'h) services"
  assumes "\<And>k. uuid_of S k \<noteq> []" and "from_sidecar E S" and "pool_ok s"
    and "exec_internal S st command lease s = (Ok (st', out), s')"
  shows "\<exists>t. map_data h_node t = container_topology command st \<and>
    logs started s s' (map h_id (postorder t)) \<and> logs interrupted s s' (map h_id (preorder t)) \<and>
    logs committing s s' (commits (exec_name S st command) t)"
proof -
  from exec_internal_steps [OF from_sidecar_fits [OF assms(2)] assms(3,4)] obtain n s1 r s2 code s3 c o4 s4 where
    n: "get_network S (map_data (\<lambda>_. ()) (container_topology command st)) s = (Ok n, s1)"
    and can: "canonical (zip_topology (container_topology command st) n)"
    and r: "spinup_topology S lease (zip_topology (container_topology command st) n) s1 = (Ok r, s2)"
    and node: "map_data h_node r = container_topology command st"
    and w: "wait_for_exit S (h_id (get_data r)) [] s2 = (Ok code, s3)"
    and d: "spindown_topology S r (exec_name S st command) s3 = (Ok (c, o4), s4)"
    and q: "requests s' = requests s4" by blast
  note up = spinup_starts [OF assms(1) r can] no_logs_up [OF r]
  note down = no_logs_down [OF d] spindown_logs [OF d]
  note between = no_logs_between(1) [OF n] no_logs_between(2) [OF w]
  have chain: "logs f s s' (xs @ ys)"
    if "logs f s s1 []" "logs f s1 s2 xs" "logs f s2 s3 []" "logs f s3 s4 ys" for f :: "request \<Rightarrow> 'x option" and xs ys
    using logs_append [OF logs_append [OF logs_append [OF that(1,2)] that(3)] that(4)] q by (simp add: logs_def)
  have "logs started s s' (map h_id (postorder r))" using chain [of started] between up down by fastforce
  moreover have "logs interrupted s s' (map h_id (preorder r))" using chain [of interrupted] between up down by fastforce
  moreover have "logs committing s s' (commits (exec_name S st command) r)" using chain [of committing] between up down by fastforce
  ultimately show ?thesis using node by blast
qed

end
