(* ===== verification/Exec_Parts.thy ===== *)
theory Exec_Parts
  imports Exec_Props
begin

text \<open>
  Further properties of running commands: when services count as started, the names of snapshots, the output that
  is collected, the files and the environment a container gets, and copying files into a container.
\<close>

section \<open>Services before their users\<close>

lemma retry_Ok: "retry n f s = (Ok x, s') \<Longrightarrow> \<exists>s0. f s0 = (Ok x, s')"
  by (induction n arbitrary: s) (auto split: prod.split_asm outcome.split_asm)

definition healthy :: "('e, 'p, 'h) services \<Rightarrow> ustr \<Rightarrow> request list \<Rightarrow> bool" where
  "healthy S c h \<longleftrightarrow> h \<noteq> [] \<and> (\<exists>e. last h = WaitProcess c e) \<and> exits S h = Inr 0 \<and> \<not> outlives S h 1"

lemma map_sum_Inr: "map_sum id g v = Inr y \<longleftrightarrow> (\<exists>x. v = Inr x \<and> y = g x)"
  by (cases v) auto

lemma healthcheck_healthy:
  assumes "wait_for_command_success S c p command n lease s = (Ok x, s')"
  shows "healthy S c (requests s')"
proof -
  from retry_Ok [OF assms [unfolded wait_for_command_success_def]] obtain s0 where
    "healthcheck_attempt S c (p\<lparr>args := shell command\<rparr>) command lease s0 = (Ok x, s')" by blast
  then show ?thesis
    by (auto simp: healthcheck_attempt_def wait_within_def healthy_def outcome_simps Let_def map_sum_Inr split: if_split_asm)
qed

lemma spinup_extends: "spinup_topology S lease t s = (r, s') \<Longrightarrow> \<exists>rs. requests s' = requests s @ rs"
  using keepsD [OF sent.keeps_spinup(1) [where P = "\<lambda>_. True" and C = "\<lambda>_. True"]] by (fastforce simp: sent_def)

lemma start_service_healthy:
  assumes "start_container S lease node ns hosts s = (Ok h, s')" "is_service (state node)"
  shows "healthy S (h_id h) (requests s')"
proof -
  from assms(1) obtain c p s1 where "wait_healthy S (state node) c p lease s1 = (Ok (), s')" "h_id h = c"
    by (auto simp: start_container_def outcome_simps split: prod.split_asm)
  with assms(2) show ?thesis
    by (cases "state node") (auto simp: wait_healthy_def dest: healthcheck_healthy)
qed

lemma spinup_service_healthy:
  assumes "spinup_topology S lease t s = (Ok r, s')" "canonical t" "is_service (state (fst (get_data t)))"
  shows "healthy S (h_id (get_data r)) (requests s')"
proof (cases t)
  case (Topology nn cs)
  obtain hs s1 h hosts where h: "start_container S lease (fst nn) (snd nn) hosts s1 = (Ok h, s')" and r: "r = Topology h hs"
    using assms(1,2) unfolding Topology by (rule spinup_topologyE)
  have "is_service (state (fst nn))" using assms(3) by (simp add: Topology)
  from start_service_healthy [OF h this] show ?thesis by (simp add: r)
qed

lemma spinup_all_healthy:
  assumes "spinup_all S lease cs s = (Ok hs, s')" "\<forall>c \<in> set cs. canonical c \<and> is_service (state (fst (get_data c)))"
  shows "(\<exists>rs. requests s' = requests s @ rs) \<and> (\<forall>h \<in> set hs. \<exists>p rs. requests s' = p @ rs \<and> healthy S (h_id (get_data h)) p)"
  using assms
proof (induction cs arbitrary: s hs)
  case (Cons c cs)
  then obtain k s1 ks where k: "spinup_topology S lease c s = (Ok k, s1)" "spinup_all S lease cs s1 = (Ok ks, s')" "hs = k # ks"
    by (auto simp: outcome_simps)
  from Cons.IH [OF k(2)] Cons.prems(2) obtain rs where rs: "requests s' = requests s1 @ rs"
    and ks: "\<forall>h \<in> set ks. \<exists>p rs. requests s' = p @ rs \<and> healthy S (h_id (get_data h)) p" by auto
  have "healthy S (h_id (get_data k)) (requests s1)" using spinup_service_healthy [OF k(1)] Cons.prems(2) by simp
  with rs have "\<exists>p rs. requests s' = p @ rs \<and> healthy S (h_id (get_data k)) p" by blast
  moreover have "\<exists>rs. requests s' = requests s @ rs" using spinup_extends [OF k(1)] rs by auto
  ultimately show ?case using ks by (simp add: k(3))
qed (simp add: outcome_simps)

text \<open>
  C10: a container is started only after the healthcheck of every service attached to it has exited with code 0
  within its second: the requests fall into a part at the end of which this holds of all its services, and a part in
  which the container and nothing else is started.
\<close>

theorem healthy_before_start:
  assumes "spinup_topology S lease (Topology nn cs) s = (Ok r, s')" and "canonical (Topology nn cs)"
    and "\<forall>c \<in> set cs. is_service (state (fst (get_data c)))" and "\<And>k. uuid_of S k \<noteq> []"
  shows "\<exists>before after. requests s' = requests s @ before @ after \<and> List.map_filter started after = [h_id (get_data r)] \<and>
    (\<forall>c \<in> set (children r). \<exists>p q. requests s @ before = p @ q \<and> healthy S (h_id (get_data c)) p)"
proof -
  obtain hs s1 h hosts where hs: "spinup_all S lease cs s = (Ok hs, s1)"
    and h: "start_container S lease (fst nn) (snd nn) hosts s1 = (Ok h, s')" and r: "r = Topology h hs"
    using assms(1,2) by (rule spinup_topologyE)
  have "\<forall>c \<in> set cs. canonical c \<and> is_service (state (fst (get_data c)))" using assms(2,3) by simp
  from spinup_all_healthy [OF hs this] obtain rs where rs: "requests s1 = requests s @ rs"
    and all: "\<forall>h \<in> set hs. \<exists>p rs. requests s1 = p @ rs \<and> healthy S (h_id (get_data h)) p" by blast
  obtain after where "requests s' = requests s1 @ after" "List.map_filter started after = [h_id h]"
    using start_container_starts [OF assms(4) h] by (auto simp: logs_def)
  with rs all show ?thesis unfolding r by (intro exI [of _ rs] exI [of _ after]) simp
qed

section \<open>Names of snapshots\<close>

fun snapshots :: "container_state \<Rightarrow> ustr list"
and service_snapshots :: "service_state \<Rightarrow> ustr list" where
  "snapshots (ContainerState snap (ContainerConfig e w u svcs)) = snap # concat (map (\<lambda>(h, s). service_snapshots s) svcs)"
| "service_snapshots (ServiceState c sc) = snapshots c"

fun plain_hosts :: "container_state \<Rightarrow> bool"
and plain_service :: "service_state \<Rightarrow> bool" where
  "plain_hosts (ContainerState snap (ContainerConfig e w u svcs)) \<longleftrightarrow> (\<forall>(h, s) \<in> set svcs. slash \<notin> set h \<and> plain_service s)"
| "plain_service (ServiceState c sc) \<longleftrightarrow> plain_hosts c"

lemma plain_prefix:
  assumes "slash \<notin> set h" "slash \<notin> set k" "h @ x = k @ y" "x = [] \<or> hd x = slash" "y = [] \<or> hd y = slash"
  shows "h = k"
proof -
  have t: "takeWhile (\<lambda>c. c \<noteq> slash) (h @ x) = h" if "slash \<notin> set h" "x = [] \<or> hd x = slash" for h x
    using that by (cases x) (auto simp: takeWhile_append)
  from t [OF assms(1,4)] t [OF assms(2,5)] assms(3) show ?thesis by simp
qed

text \<open>The names below a name continue it with a slash.\<close>

definition below :: "ustr \<Rightarrow> ustr \<Rightarrow> bool" where
  "below name n \<longleftrightarrow> (\<exists>x. n = name @ x \<and> (x = [] \<or> hd x = slash))"

lemma renamed_below:
  "n \<in> set (snapshots (renamed name st)) \<Longrightarrow> below name n"
  "n \<in> set (service_snapshots (renamed_service name sv)) \<Longrightarrow> below name n"
proof (induction name st and name sv arbitrary: n and n rule: renamed_renamed_service.induct)
  case (1 name snap e w u svcs)
  then consider "n = name" | h s where "(h, s) \<in> set svcs" "n \<in> set (service_snapshots (renamed_service (name @ [47] @ h) s))"
    by auto
  then show ?case
  proof cases
    case 2
    from "1.IH" [OF 2(1) refl _] 2(2) have "below (name @ [47] @ h) n" by simp
    then show ?thesis by (auto simp: below_def slash_def)
  qed (simp add: below_def)
next
  case (2 name c sc)
  then show ?case by simp
qed

lemma distinct_renamed:
  "services_ok st \<Longrightarrow> plain_hosts st \<Longrightarrow> distinct (snapshots (renamed name st))"
  "service_ok sv \<Longrightarrow> plain_service sv \<Longrightarrow> distinct (service_snapshots (renamed_service name sv))"
proof (induction name st and name sv rule: renamed_renamed_service.induct)
  case (1 name snap e w u svcs)
  let ?f = "\<lambda>hs. service_snapshots (renamed_service (name @ [47] @ fst hs) (snd hs))"
  have ok: "distinct (map fst svcs)" using "1.prems"(1) by (simp add: bt_ok_def strict_sorted_iff)
  have each: "distinct (?f hs)" if "hs \<in> set svcs" for hs
  proof (cases hs)
    case (Pair h s)
    have "service_ok s" "plain_service s" using "1.prems" that by (auto simp: Pair)
    from "1.IH" [OF that Pair [symmetric] this] show ?thesis by (simp add: Pair)
  qed
  have apart: "set (?f hs) \<inter> set (?f ks) = {}" if "hs \<in> set svcs" "ks \<in> set svcs" "fst hs \<noteq> fst ks" for hs ks
  proof (rule ccontr)
    assume "set (?f hs) \<inter> set (?f ks) \<noteq> {}"
    then obtain n where "n \<in> set (?f hs)" "n \<in> set (?f ks)" by blast
    then have "below (name @ [47] @ fst hs) n" "below (name @ [47] @ fst ks) n"
      by (simp_all only: renamed_below(2))
    then obtain x y where "fst hs @ x = fst ks @ y" "x = [] \<or> hd x = slash" "y = [] \<or> hd y = slash"
      by (auto simp: below_def)
    moreover have "slash \<notin> set (fst hs)" "slash \<notin> set (fst ks)" using "1.prems"(2) that by auto
    ultimately show False using plain_prefix that(3) by metis
  qed
  have "distinct (concat (map ?f svcs))"
    using ok each apart
  proof (induction svcs)
    case (Cons hs svcs)
    have "set (?f hs) \<inter> set (?f ks) = {}" if "ks \<in> set svcs" for ks
    proof (rule Cons.prems(3))
      show "fst hs \<noteq> fst ks" using Cons.prems(1) that by force
    qed (simp_all add: that)
    then have "set (?f hs) \<inter> set (concat (map ?f svcs)) = {}" unfolding set_concat set_map by blast
    moreover have "distinct (concat (map ?f svcs))" using Cons by simp
    moreover have "distinct (?f hs)" using Cons.prems(2) by simp
    ultimately show ?case unfolding list.map concat.simps distinct_append by blast
  qed simp
  moreover have "name \<notin> set (?f hs)" if "hs \<in> set svcs" for hs
    using renamed_below(2) [of name "name @ [47] @ fst hs" "snd hs"] by (auto simp: below_def case_prod_beta)
  ultimately show ?case by (auto simp: comp_def case_prod_beta)
next
  case (2 name c sc)
  then show ?case by simp
qed

text \<open>
  As long as no host name contains a slash, the snapshots of a command's result have different names, one for the
  container and for every service at every level.
\<close>

theorem distinct_snapshots:
  assumes "services_ok st" and "plain_hosts st" and "from_sidecar E S" and "pool_ok s" and "exec S st command s = (Ok st', s')"
  shows "distinct (snapshots st')"
  using exec_renamed [OF assms(1,3-5)] distinct_renamed(1) [OF assms(1,2)] by simp

text \<open>
  Host names with a slash break this: the service \<open>k\<close> of a service \<open>h\<close> and a service \<open>h/k\<close> are committed under one
  name, whatever they hold; the second commit finds the name taken, which counts as success.
\<close>

theorem slash_collides:
  assumes "services (config st) = [(h, ServiceState (ContainerState snap (ContainerConfig e w u [(k, inner)])) sc), (h @ [slash] @ k, outer)]"
  shows "\<not> distinct (snapshots (renamed name st))"
proof -
  obtain s0 e0 w0 u0 where st: "st = ContainerState s0 (ContainerConfig e0 w0 u0 (services (config st)))"
    by (metis container_config.collapse container_state.collapse)
  have head: "\<exists>ns. service_snapshots (renamed_service n sv) = n # ns" for n sv
    by (cases "(n, sv)" rule: renamed_service.cases; rename_tac c sc; case_tac c; rename_tac cf; case_tac cf) simp
  obtain ns where 1: "service_snapshots (renamed_service (name @ 47 # h @ 47 # k) inner) = (name @ 47 # h @ 47 # k) # ns"
    using head by blast
  obtain ms where 2: "service_snapshots (renamed_service (name @ 47 # h @ 47 # k) outer) = (name @ 47 # h @ 47 # k) # ms"
    using head by blast
  show ?thesis by (subst st) (simp add: assms slash_def 1 2)
qed

section \<open>The output\<close>

definition shown_line :: "(ustr \<Rightarrow> ustr) \<Rightarrow> ustr option \<Rightarrow> ustr" where
  "shown_line strip line = (case line of Some l \<Rightarrow> strip l | None \<Rightarrow> ustr ''<<NON_UTF8_ON_LINE>>'')"

lemma join_with_Cons: "join_with sep (x # xs) = x @ (if xs = [] then [] else sep @ join_with sep xs)"
  by (cases xs) auto

lemma join_with_snoc: "join_with sep (xs @ [x]) = (if xs = [] then x else join_with sep xs @ sep @ x)"
  by (induction xs) (auto simp: join_with_Cons)

lemma read_lines_join:
  assumes "ls = [] \<or> hd ls \<noteq> []"
  shows "read_lines strip lines (join_with [10] ls) success =
    (let text = join_with [10] (ls @ (if ls = [] then dropWhile (\<lambda>l. l = []) else id) (map (shown_line strip) lines))
     in if success \<and> None \<notin> set lines then Inr text else Inl text)"
  using assms
proof (induction lines arbitrary: ls success)
  case (Cons l lines)
  have empty: "join_with [10] ls = [] \<longleftrightarrow> ls = []" using Cons.prems by (cases ls) (auto simp: join_with_Cons)
  show ?case
  proof (cases "ls = [] \<and> shown_line strip l = []")
    case True
    then have "\<exists>k. l = Some k" by (cases l) (auto simp: shown_line_def ustr_def)
    with True Cons.IH [of "[]"] show ?thesis by (auto simp: shown_line_def)
  next
    case False
    then have "ls @ [shown_line strip l] = [] \<or> hd (ls @ [shown_line strip l]) \<noteq> []" using Cons.prems by (cases ls) auto
    note ih = Cons.IH [OF this]
    show ?thesis
      using ih [of success] ih [of False] False empty
      by (cases l) (auto simp: shown_line_def join_with_snoc Let_def)
  qed
qed (auto simp: Let_def)

text \<open>
  The output of a command is its lines, both streams in the order of arrival, each stripped of escape sequences,
  joined by newlines without the empty lines at the beginning; it is an error exactly if some line was not UTF-8, with
  a mark in its place.
\<close>

theorem read_stdout_lines:
  "read_stdout strip lines = (let text = join_with [10] (dropWhile (\<lambda>l. l = []) (map (shown_line strip) lines))
     in if None \<in> set lines then Inl text else Inr text)"
  using read_lines_join [of "[]" strip lines True] by (simp add: read_stdout_def Let_def)

section \<open>Environment and hosts\<close>

text \<open>
  The environment of the process, read the way the environment of an image is read, is that of the configuration,
  except that \<open>HOME\<close> is the home directory of the user, whatever was configured.
\<close>

theorem process_environment:
  assumes "\<forall>k \<in> fst ` set (env c). 61 \<notin> set k" and "bt_ok (env c)"
  shows "get_env_var name (config_from_oci (Some (env_strings c home)) dir usr) =
    (if name = ustr ''HOME'' then Some home else get_env_var name c)"
proof -
  have sp: "Containers.split_once 61 (k @ 61 # v) = Some (k, v)" if "61 \<notin> set k" for k v :: ustr
    using that by (simp add: split_once_iff)
  have "List.map_filter (Containers.split_once 61) (map (\<lambda>(key, v). key @ [61] @ v) m) = m"
    if "\<forall>k \<in> fst ` set m. 61 \<notin> set k" for m :: "(ustr \<times> ustr) list"
    using that by (induction m) (auto simp: List.map_filter_simps sp)
  note m = this [OF assms(1)]
  have h: "Containers.split_once 61 (ustr ''HOME='' @ home) = Some (ustr ''HOME'', home)"
    using sp [of "ustr ''HOME''" home] by (simp add: ustr_def)
  have "List.map_filter (Containers.split_once 61) (env_strings c home) = env c @ [(ustr ''HOME'', home)]"
    using m h by (simp add: env_strings_def List.map_filter_def)
  moreover have "map_of (rev (env c)) = map_of (env c)"
    using assms(2) by (simp add: map_of_inject_set bt_ok_def strict_sorted_iff flip: rev_map)
  ultimately show ?thesis
    by (simp add: get_env_var_def config_from_oci_def bt_get_collect bt_get_map_of [of "env c"] map_add_def split: option.split)
qed

lemma text_lines_join:
  assumes "ls \<noteq> []" and "\<forall>l \<in> set ls. newline_char \<notin> set l \<and> return_char \<notin> set l" and "last ls \<noteq> []"
  shows "text_lines (join_with [10] ls) = ls"
proof -
  have strip: "strip_return l = l" if "return_char \<notin> set l" for l
    using that by (metis last_in_set strip_return_def)
  have rest: "text_lines_from l t = [l @ t]" if "newline_char \<notin> set t" "l @ t \<noteq> []" for l t
    using that by (induction t arbitrary: l) auto
  have "text_lines_from [] (join_with [10] ls) = ls" using assms
  proof (induction ls)
    case (Cons l ls)
    show ?case
    proof (cases "ls = []")
      case True
      with Cons.prems show ?thesis by (simp add: rest)
    next
      case False
      have "text_lines_from [] (l @ newline_char # join_with [10] ls) = strip_return l # text_lines_from [] (join_with [10] ls)"
        using Cons.prems(2) by (subst text_lines_line) simp_all
      with False Cons show ?thesis by (simp add: join_with_Cons newline_char_def strip)
    qed
  qed simp
  then show ?thesis by (simp add: text_lines_def)
qed

text \<open>
  The hosts file of a container, read line by line and cut at tabs, lists for every service attached to it its
  host name with the address of its namespace, and nothing else but the two lines for \<open>localhost\<close>.
\<close>

theorem hosts_file_lists:
  assumes "\<forall>(h, ip) \<in> set hosts. newline_char \<notin> set h \<and> return_char \<notin> set h"
  shows "List.map_filter (Users.split_once 9) (text_lines (hosts_content hosts)) = map (\<lambda>(h, ip). (ipv4_text ip, h)) hosts"
proof -
  let ?line = "\<lambda>(hostname, ip). ipv4_text ip @ [9] @ hostname"
  let ?local = "[ustr ''127.0.0.1 localhost'', ustr ''::1 localhost'']"
  have join: "set (join_with [46] ls) \<subseteq> insert 46 (\<Union> (set ` set ls))" for ls :: "ustr list"
    by (induction ls) (auto simp: join_with_Cons)
  have ip: "c \<in> insert 46 {48..57}" if "c \<in> set (ipv4_text ip)" for c ip
    using that join digits_dec unfolding ipv4_text_def by (fastforce simp: list_all_iff is_ascii_digit_def)
  have split: "Users.split_once 9 (a @ [9] @ b) = Some (a, b)" if "9 \<notin> set a" for a b
    using that by (induction a) auto
  have lines: "text_lines (hosts_content hosts) = map ?line hosts @ ?local"
    unfolding hosts_content_def
  proof (rule text_lines_join)
    show "\<forall>l \<in> set (map ?line hosts @ ?local). newline_char \<notin> set l \<and> return_char \<notin> set l"
      using assms ip by (auto simp: newline_char_def return_char_def ustr_def) fastforce+
  qed (simp_all add: ustr_def)
  have line: "Users.split_once 9 (ipv4_text ip @ [9] @ h) = Some (ipv4_text ip, h)" for ip h
    using split [of "ipv4_text ip" h] ip [of 9 ip] by auto
  have localhost: "Users.split_once 9 (ustr ''127.0.0.1 localhost'') = None" "Users.split_once 9 (ustr ''::1 localhost'') = None"
    by (simp_all add: ustr_def)
  have "List.map_filter (Users.split_once 9) (map ?line hosts @ ?local) = map (\<lambda>(h, ip). (ipv4_text ip, h)) hosts"
    by (induction hosts) (use line localhost in \<open>auto simp: List.map_filter_simps\<close>)
  then show ?thesis by (simp only: lines)
qed

section \<open>Copying files\<close>

lemma commit_snapshot_Ok:
  "commit_snapshot S name key s = (Ok x, s') \<Longrightarrow> s' = s\<lparr>requests := requests s @ [CommitSnapshot name key]\<rparr>"
  by (auto simp: commit_snapshot_def outcome_simps split: sum.split_asm if_split_asm)

text \<open>
  C27: the snapshot that a copy is committed under does not depend on the destination: copying the same files into the
  same container at two places gives the same state, although they are written to different paths. The second commit
  finds the name taken, which counts as success, so whichever was committed first is the result of both.
\<close>

theorem copy_ignores_destination:
  assumes "copy_fs_into_container S st src d1 s1 = (Ok c1, t1)" and "copy_fs_into_container S st src d2 s2 = (Ok c2, t2)"
  shows "c1 = c2 \<and> config c1 = config st \<and>
    (\<exists>m b. ImportFiles m (join_path S (working_dir (config st)) (here d1)) b \<in> set (requests t1)) \<and>
    (\<exists>m b. ImportFiles m (join_path S (working_dir (config st)) (here d2)) b \<in> set (requests t2))"
proof -
  have copy: "\<exists>name. copy_name S st src = Ok name \<and> c = ContainerState name (config st) \<and>
      (\<exists>m b. ImportFiles m (join_path S (working_dir (config st)) (here d)) b \<in> set (requests t))"
    if "copy_fs_into_container S st src d s = (Ok c, t)" for d s c t
    using that
    by (auto simp: copy_fs_into_container_def drop_lease_def outcome_simps dest!: commit_snapshot_Ok) blast+
  from copy [OF assms(1)] copy [OF assms(2)] show ?thesis by auto
qed

end
