(* ===== verification/Layer_Props.thy ===== *)
theory Layer_Props
  imports Layers Exec_Parts
begin

text \<open>
  What pulling, exporting and importing snapshots promise.
\<close>

section \<open>What the actions keep\<close>

context client_kept begin

sublocale lifted: preorder_kept "\<lambda>sc sc'. I (fst sc) (fst sc')"
  by unfold_locales (auto intro: refl trans)

end

fun layer_request :: "request \<Rightarrow> bool" where
  "layer_request (Lock _) = False"
| "layer_request (Unlock _) = False"
| "layer_request _ = True"

context client_kept begin

abbreviation keeps_layer :: "('c, 'e, 'a) layer_action \<Rightarrow> bool" where
  "keeps_layer \<equiv> keeps (\<lambda>sc sc'. I (fst sc) (fst sc')) Q"

lemma keeps_on_client: "keeps I Q f \<Longrightarrow> keeps_layer (on_client f)"
  by (auto simp: keeps_def on_client_def split: prod.split) (metis fst_conv snd_conv)+

lemma keeps_on_cache: "keeps_layer (on_cache f)"
  by (simp add: keeps_def on_cache_def refl split: prod.split)

lemma keeps_recover: "keeps_layer f \<Longrightarrow> keeps_layer (recover f x)"
  by (auto simp: keeps_def recover_def split: prod.split outcome.split) (metis fst_conv snd_conv)+

lemma keeps_sum: "(\<And>e. v = Inl e \<Longrightarrow> keeps J P (f e)) \<Longrightarrow> (\<And>x. v = Inr x \<Longrightarrow> keeps J P (g x)) \<Longrightarrow>
    keeps J P (case v of Inl e \<Rightarrow> f e | Inr x \<Rightarrow> g x)"
  by (cases v) simp_all

lemma keeps_option: "(v = None \<Longrightarrow> keeps J P f) \<Longrightarrow> (\<And>x. v = Some x \<Longrightarrow> keeps J P (g x)) \<Longrightarrow>
    keeps J P (case v of None \<Rightarrow> f | Some x \<Rightarrow> g x)"
  by (cases v) simp_all

lemma keeps_cond: "keeps J P f \<Longrightarrow> keeps J P g \<Longrightarrow> keeps J P (if b then f else g)"
  by simp

lemma keeps_pair: "(\<And>x y. v = (x, y) \<Longrightarrow> keeps J P (f x y)) \<Longrightarrow> keeps J P (case v of (x, y) \<Rightarrow> f x y)"
  by (cases v) simp

lemma keeps_entry_kind: "(v = LocalEntry \<Longrightarrow> keeps J P f) \<Longrightarrow> (\<And>m. v = RemoteEntry m \<Longrightarrow> keeps J P (g m)) \<Longrightarrow>
    keeps J P (case v of LocalEntry \<Rightarrow> f | RemoteEntry m \<Rightarrow> g m)"
  by (cases v) simp_all

lemmas split_keeps = keeps_entry_kind keeps_sum keeps_option keeps_cond keeps_pair

lemmas kept_layer = lifted.keeps_and_do lifted.keeps_pure lifted.keeps_of_sum lifted.keeps_map_err lifted.keeps_ok_or
  keeps_on_client keeps_on_cache keeps_recover split_keeps

end

text \<open>Pulling one layer asks for no lock, and commits under its name.\<close>

fun commits_pulled :: "request \<Rightarrow> bool" where
  "commits_pulled (CommitPulled _ _ _ _) = True"
| "commits_pulled _ = False"

context client_kept begin

lemma keeps_import_stream_asking:
  assumes "\<And>r. layer_request r \<Longrightarrow> \<not> acquires r \<Longrightarrow> \<not> commits_pulled r \<Longrightarrow> allowed r"
  shows "keeps I Q (import_stream_into_content_store S L stream lease known)"
  unfolding import_stream_into_content_store_def Let_def
  by (intro kept split_keeps assms errors) simp_all

lemma keeps_fetch_layer_asking:
  assumes "\<And>r. layer_request r \<Longrightarrow> \<not> acquires r \<Longrightarrow> \<not> commits_pulled r \<Longrightarrow> allowed r"
  shows "keeps I Q (fetch_layer S L m lease)"
  unfolding fetch_layer_def by (intro kept split_keeps keeps_import_stream_asking assms) simp_all

lemma keeps_pull_layer_asking:
  assumes "\<And>r. layer_request r \<Longrightarrow> \<not> acquires r \<Longrightarrow> \<not> commits_pulled r \<Longrightarrow> allowed r" "\<And>key json. allowed (CommitPulled name key json lease)"
  shows "keeps I Q (pull_layer S L m lease base name)"
  unfolding pull_layer_def pull_attempt_def
  by (intro keeps_retry kept split_keeps keeps_fetch_layer_asking errors assms) simp_all

end

locale lock_kept = client_kept I allowed Q
  for I and allowed and Q :: "'e client_error \<Rightarrow> bool" +
  fixes S :: "('e, 'p, 'h) services"
  assumes leased: "keeps I Q (new_lease S)"
    and locked: "acks S (requests s @ [Lock k]) = Inr () \<Longrightarrow> I (s\<lparr>requests := requests s @ [Lock k]\<rparr>) s' \<Longrightarrow>
      I s (s'\<lparr>requests := requests s' @ [Unlock k]\<rparr>)"
    and not_locked: "acks S (requests s @ [Lock k]) = Inl x \<Longrightarrow> I s (s\<lparr>requests := requests s @ [Lock k]\<rparr>)"
begin

lemma keeps_with_lock:
  assumes "keeps I Q f"
  shows "keeps I Q (with_lock S key f)"
  unfolding keeps_def
proof
  fix s :: client_state
  let ?s = "s\<lparr>requests := requests s @ [Lock (lock_file_name key)]\<rparr>"
  obtain r s' where f: "f ?s = (r, s')" by (cases "f ?s")
  note kept_f = keepsD [OF assms f] keeps_errorD [OF assms, of ?s]
  show "I s (snd (with_lock S key f s)) \<and> (\<forall>e. fst (with_lock S key f s) = Err e \<longrightarrow> Q e)"
  proof (cases "acks S (requests s @ [Lock (lock_file_name key)])")
    case (Inl e)
    then show ?thesis
      by (simp add: with_lock_def acquire_file_lock_def try_ask_def and_do_def fail_def not_locked errors)
  next
    case (Inr u)
    then show ?thesis using kept_f f
      by (auto simp: with_lock_def acquire_file_lock_def try_ask_def and_do_def unlock_def intro!: locked)
  qed
qed

lemma keeps_while_locked:
  fixes f :: "('c, 'e, 'a) layer_action"
  assumes "keeps_layer f"
  shows "keeps_layer (while_locked S key f)"
  unfolding keeps_def
proof
  fix sc :: "client_state \<times> 'c"
  let ?s = "(fst sc)\<lparr>requests := requests (fst sc) @ [Lock (lock_file_name key)]\<rparr>"
  obtain r s' where f: "f (?s, snd sc) = (r, s')" by (cases "f (?s, snd sc)")
  note kept_f = keepsD [OF assms f] keeps_errorD [OF assms, of "(?s, snd sc)"]
  show "I (fst sc) (fst (snd (while_locked S key f sc))) \<and> (\<forall>e. fst (while_locked S key f sc) = Err e \<longrightarrow> Q e)"
  proof (cases "acks S (requests (fst sc) @ [Lock (lock_file_name key)])")
    case (Inl e)
    then show ?thesis using kept_f f not_locked [OF Inl]
      by (auto simp: while_locked_def acquire_file_lock_def try_ask_def on_client_def and_do_def intro: trans)
  next
    case (Inr u)
    then show ?thesis using kept_f f
      by (auto simp: while_locked_def acquire_file_lock_def try_ask_def on_client_def and_do_def unlock_def intro!: locked)
  qed
qed

end

text \<open>Pulling an image: a relation kept by the steps under a lock and by pulling one layer is kept by it all.\<close>

definition pull_one :: "('e, 'p, 'h) services \<Rightarrow> 'e stores \<Rightarrow> full_layer_manifest \<Rightarrow> ustr \<Rightarrow> ustr \<Rightarrow> ustr \<Rightarrow> ('e, unit) client_action" where
  "pull_one S L m lease base name = with_lock S name
     (and_do (stat_snapshot L name) (\<lambda>layer_exists. if layer_exists then give () else pull_layer S L m lease base name))"

locale pull_kept = lock_kept I allowed Q S
  for I and allowed and Q :: "'e client_error \<Rightarrow> bool" and S :: "('e, 'p, 'h) services" +
  fixes L :: "'e stores"
  assumes asks_registry: "allowed (PullManifest ref)" "allowed (DeleteLease lease)"
    and layer_pulled: "keeps I Q (pull_one S L m lease base name)"
begin

lemma keeps_pull_layers: "keeps I Q (pull_layers S L to_hex ref lease layers base digests)"
proof (induction layers arbitrary: base digests)
  case Nil
  have "pull_layers S L to_hex ref lease [] base digests = give base" by (rule ext) simp
  then show ?case by (simp add: keeps_pure)
next
  case (Cons layer layers)
  show ?case unfolding pull_layers.simps Let_def pull_one_def [symmetric]
    by (intro keeps_and_do layer_pulled Cons.IH)
qed

lemma keeps_retry_unless:
  assumes "keeps I Q f"
  shows "keeps I Q (retry_unless stop n f)"
proof -
  have "I s (snd (retry_unless stop n f s)) \<and> (\<forall>e. fst (retry_unless stop n f s) = Err e \<longrightarrow> Q e)" for s
  proof (induction n arbitrary: s)
    case (Suc n)
    obtain r s1 where f: "f s = (r, s1)" by (cases "f s")
    note kept_f = keepsD [OF assms f] keeps_errorD [OF assms, of s]
    show ?case using f kept_f Suc [of s1] by (cases r) (auto intro: trans)
  qed (use assms in \<open>simp add: keeps_def\<close>)
  then show ?thesis by (simp add: keeps_def)
qed

lemma keeps_lease: "keeps I Q (new_lease S)" "keeps I Q (drop_lease S lease)"
  unfolding drop_lease_def by (rule leased) (rule keeps_ask, rule asks_registry)

lemma keeps_fetch_image: "keeps I Q (fetch_image S L to_hex name)"
  unfolding fetch_image_def
  by (intro kept split_keeps keeps_retry_unless keeps_with_lock keeps_lease keeps_pull_layers asks_registry errors) simp_all

end

locale layer_kept = lock_kept I allowed Q S
  for I and allowed and Q :: "'e client_error \<Rightarrow> bool" and S :: "('e, 'p, 'h) services" +
  assumes requests_kept: "layer_request r \<Longrightarrow> \<not> acquires r \<Longrightarrow> allowed r"
begin

lemma keeps_import_stream: "keeps I Q (import_stream_into_content_store S L stream lease known)"
  by (rule keeps_import_stream_asking) (rule requests_kept)

lemma keeps_fetch_layer: "keeps I Q (fetch_layer S L m lease)"
  by (rule keeps_fetch_layer_asking) (rule requests_kept)

lemma keeps_pull_layer: "keeps I Q (pull_layer S L m lease base name)"
  by (rule keeps_pull_layer_asking) (simp_all add: requests_kept)

lemma keeps_stat: "keeps I Q (stat_snapshot L name)"
  unfolding stat_snapshot_def by (intro kept requests_kept) simp_all

lemma keeps_pull_one: "keeps I Q (pull_one S L m lease base name)"
  unfolding pull_one_def by (intro keeps_with_lock kept split_keeps keeps_stat keeps_pull_layer)

sublocale pulling: pull_kept I allowed Q S L for L
  by unfold_locales (simp_all add: requests_kept keeps_pull_one)

lemmas keeps_lease = pulling.keeps_lease
lemmas keeps_pull_layers = pulling.keeps_pull_layers
lemmas keeps_fetch_image = pulling.keeps_fetch_image

lemma keeps_read_header: "keeps_layer (lift_outcome (read_header L r))"
  by (rule lifted.keeps_lift) (auto simp: read_header_def intro!: errors split: outcome.split_asm io_error.split_asm option.split_asm)

lemma keeps_import_entry:
  assumes "\<And>p. keeps_layer (ensure p)"
  shows "keeps_layer (import_entry S L ensure name hdr rest lease)"
proof -
  have "keeps I Q (import_local S lease base name content)" for base content
    unfolding import_local_def by (intro kept requests_kept) simp_all
  then show ?thesis unfolding import_entry_def Let_def
    by (intro kept_layer keeps_pull_layer keeps_import_stream keeps_lease assms)
qed

lemma keeps_ensure: "keeps_layer (ensure_snapshot k S L K name)"
proof (induction k arbitrary: name)
  case 0
  show ?case unfolding ensure_snapshot.simps by (rule lifted.keeps_lift) simp
next
  case (Suc k)
  have "keeps_layer (import_snapshot S L K (ensure_snapshot k S L K) name)"
    unfolding import_snapshot_def
    by (intro kept_layer keeps_read_header keeps_lease keeps_import_entry Suc)
  then show ?case unfolding ensure_snapshot.simps
    by (intro keeps_while_locked kept_layer keeps_stat)
qed

lemma keeps_healthcheck_value:
  "S' = S \<Longrightarrow> keeps_layer (healthcheck_value k S' L K st)" "S' = S \<Longrightarrow> keeps_layer (healthcheck_services k S' L K svcs)"
proof (induction k S' L K st and k S' L K svcs rule: healthcheck_value_healthcheck_services.induct)
  case (1 k S' L K name e w u svcs)
  have "healthcheck_value k S' L K (ContainerState name (ContainerConfig e w u svcs)) =
      and_do (ensure_snapshot k S' L K name) (\<lambda>ok. if \<not> ok then give False else healthcheck_services k S' L K svcs)"
    by (rule ext) simp
  with 1 show ?case by (auto intro!: kept_layer keeps_ensure)
next
  case (2 k S' L K)
  have "healthcheck_services k S' L K [] = give True" by (rule ext) simp
  then show ?case by (simp add: lifted.keeps_pure)
next
  case (3 k S' L K host st sc svcs)
  have "healthcheck_services k S' L K ((host, ServiceState st sc) # svcs) =
      and_do (healthcheck_value k S' L K st) (\<lambda>ok. if \<not> ok then give False else healthcheck_services k S' L K svcs)"
    by (rule ext) simp
  with 3 show ?case by (auto intro!: kept_layer)
qed

end

section \<open>Locks\<close>

lemmas new_lease_defs = new_lease_def new_uuid_def register_dangling_def update_def ask_def try_ask_def and_do_def
  lift_outcome_def of_sum_def give_def

text \<open>
  A layer that is committed under a name is committed under that name's lock: the lock was taken, then the snapshot was looked
  for and not found, and the lock is kept from there until after the commit. \<open>h\<close> are the requests before, \<open>before\<close> those
  since then, and \<open>after\<close> follow the commit.
\<close>

definition under_lock :: "('e, 'p, 'h) services \<Rightarrow> 'e stores \<Rightarrow> request list \<Rightarrow> ustr \<Rightarrow> request list \<Rightarrow> request list \<Rightarrow> bool" where
  "under_lock S L h name before after \<longleftrightarrow> (\<exists>earlier since.
     before = earlier @ [Lock (lock_file_name name), StatSnapshot name] @ since \<and>
     acks S (h @ earlier @ [Lock (lock_file_name name)]) = Inr () \<and>
     (\<exists>e. stats L (h @ earlier @ [Lock (lock_file_name name), StatSnapshot name]) = Inl e) \<and>
     list_all layer_request since \<and> Unlock (lock_file_name name) \<in> set after)"

definition guarded :: "('e, 'p, 'h) services \<Rightarrow> 'e stores \<Rightarrow> client_state \<Rightarrow> client_state \<Rightarrow> bool" where
  "guarded S L s s' \<longleftrightarrow> (\<exists>rs. requests s' = requests s @ rs \<and> (\<forall>before name key json lease after.
     rs = before @ CommitPulled name key json lease # after \<longrightarrow> under_lock S L (requests s) name before after))"

lemma under_lock_more: "under_lock S L h name before after \<Longrightarrow> under_lock S L h name before (after @ rs)"
  "under_lock S L (h @ rs) name before after \<Longrightarrow> under_lock S L h name (rs @ before) after"
proof -
  show "under_lock S L h name before after \<Longrightarrow> under_lock S L h name before (after @ rs)"
    unfolding under_lock_def by (elim exE conjE) (intro exI conjI, assumption+, simp)
  show "under_lock S L h name (rs @ before) after" if u: "under_lock S L (h @ rs) name before after"
  proof -
    from u obtain earlier since where "before = earlier @ [Lock (lock_file_name name), StatSnapshot name] @ since"
      "acks S (h @ (rs @ earlier) @ [Lock (lock_file_name name)]) = Inr ()"
      "\<exists>e. stats L (h @ (rs @ earlier) @ [Lock (lock_file_name name), StatSnapshot name]) = Inl e"
      "list_all layer_request since" "Unlock (lock_file_name name) \<in> set after"
      unfolding under_lock_def append_assoc by blast
    moreover from this(1) have "rs @ before = (rs @ earlier) @ [Lock (lock_file_name name), StatSnapshot name] @ since" by simp
    ultimately show ?thesis unfolding under_lock_def by blast
  qed
qed

lemma guarded_trans:
  assumes "guarded S L s t" "guarded S L t u"
  shows "guarded S L s u"
proof -
  obtain rs rs' where rs: "requests t = requests s @ rs" "requests u = requests s @ rs @ rs'"
    and a: "\<And>before name key json lease after. rs = before @ CommitPulled name key json lease # after \<Longrightarrow> under_lock S L (requests s) name before after"
    and b: "\<And>before name key json lease after. rs' = before @ CommitPulled name key json lease # after \<Longrightarrow>
      under_lock S L (requests s @ rs) name before after"
    using assms by (auto simp: guarded_def)
  have "under_lock S L (requests s) name before after"
    if split: "rs @ rs' = before @ CommitPulled name key json lease # after" for before name key json lease after
  proof -
    from split consider us where "rs = before @ us" "us @ rs' = CommitPulled name key json lease # after"
      | us where "rs @ us = before" "rs' = us @ CommitPulled name key json lease # after"
      unfolding append_eq_append_conv2 by blast
    then show ?thesis
    proof cases
      case (1 us)
      show ?thesis
      proof (cases us)
        case Nil
        with 1 b [of "[]"] have "under_lock S L (requests s @ rs) name [] after" by simp
        then show ?thesis by (simp add: under_lock_def)
      next
        case (Cons r us')
        with 1 have "rs = before @ CommitPulled name key json lease # us'" "after = us' @ rs'" by simp_all
        then show ?thesis using under_lock_more(1) [OF a] by simp
      qed
    next
      case (2 us)
      then show ?thesis using under_lock_more(2) [OF b [OF 2(2)]] by simp
    qed
  qed
  with rs show ?thesis by (auto simp: guarded_def)
qed

lemma guarded_one: "\<not> commits_pulled r \<Longrightarrow> guarded S L s (s\<lparr>requests := requests s @ [r]\<rparr>)"
  by (auto simp: guarded_def append_eq_Cons_conv Cons_eq_append_conv)

interpretation guarding: client_kept "guarded S L" "\<lambda>r. \<not> commits_pulled r" "\<lambda>_. True" for S L
proof unfold_locales
  show "guarded S L s u" if "guarded S L s t" "guarded S L t u" for s t u using that by (rule guarded_trans)
qed (simp_all add: guarded_one, simp_all add: guarded_def)

text \<open>Pulling one layer asks for no lock, and commits under its own name only.\<close>

definition pulls :: "ustr \<Rightarrow> request \<Rightarrow> bool" where
  "pulls name r \<longleftrightarrow> layer_request r \<and> (case r of CommitPulled n _ _ _ \<Rightarrow> n = name | _ \<Rightarrow> True)"

lemma pull_layer_pulls: "keeps (sent (pulls name)) (only (\<lambda>_. True)) (pull_layer S L m lease base name)"
  by (rule sent.keeps_pull_layer_asking) (auto simp: pulls_def split: request.split)

lemma guarded_pull_one: "keeps (guarded S L) (\<lambda>_. True) (pull_one S L m lease base name)"
  unfolding keeps_def
proof (intro allI conjI impI)
  fix s :: client_state
  let ?f = "lock_file_name name"
  let ?s = "s\<lparr>requests := requests s @ [Lock ?f, StatSnapshot name]\<rparr>"
  let ?run = "with_lock S name (and_do (stat_snapshot L name) (\<lambda>layer_exists. if layer_exists then give () else pull_layer S L m lease base name))"
  obtain r s' where p: "pull_layer S L m lease base name ?s = (r, s')" by (cases "pull_layer S L m lease base name ?s")
  from keepsD [OF pull_layer_pulls p] obtain rs where rs: "requests s' = requests s @ [Lock ?f, StatSnapshot name] @ rs" "list_all (pulls name) rs"
    by (auto simp: sent_def)
  show "guarded S L s (snd (pull_one S L m lease base name s))"
  proof (cases "acks S (requests s @ [Lock ?f])")
    case (Inl e)
    then show ?thesis
      by (simp add: pull_one_def with_lock_def acquire_file_lock_def try_ask_def and_do_def fail_def guarded_one)
  next
    case Inr: (Inr u)
    show ?thesis
    proof (cases "stats L (requests s @ [Lock ?f, StatSnapshot name])")
      case (Inr i)
      with \<open>acks S _ = _\<close> have "requests (snd (pull_one S L m lease base name s)) = requests s @ [Lock ?f, StatSnapshot name, Unlock ?f]"
        by (simp add: pull_one_def with_lock_def acquire_file_lock_def try_ask_def and_do_def stat_snapshot_def give_def unlock_def)
      then show ?thesis by (auto simp: guarded_def Cons_eq_append_conv)
    next
      case (Inl e)
      with Inr p have "requests (snd (pull_one S L m lease base name s)) = requests s' @ [Unlock ?f]"
        by (simp add: pull_one_def with_lock_def acquire_file_lock_def try_ask_def and_do_def stat_snapshot_def give_def unlock_def)
      then have all: "requests (snd (pull_one S L m lease base name s)) = requests s @ [Lock ?f, StatSnapshot name] @ rs @ [Unlock ?f]"
        by (simp add: rs(1))
      have "under_lock S L (requests s) n before after"
        if split: "[Lock ?f, StatSnapshot name] @ rs @ [Unlock ?f] = before @ CommitPulled n key json l # after" for before n key json l after
      proof -
        obtain b where b: "before = [Lock ?f, StatSnapshot name] @ b" "rs @ [Unlock ?f] = b @ CommitPulled n key json l # after"
          using split by (auto simp: Cons_eq_append_conv)
        from b(2) obtain a where a: "rs = b @ CommitPulled n key json l # a" "after = a @ [Unlock ?f]"
          by (auto simp: append_eq_append_conv2 append_eq_Cons_conv Cons_eq_append_conv)
        with rs(2) have "n = name" "list_all layer_request b" by (auto simp: pulls_def list_all_iff)
        then show ?thesis using Inr Inl b(1) a(2) unfolding under_lock_def by (intro exI [of _ "[]"] exI [of _ b]) simp
      qed
      with all show ?thesis by (auto simp: guarded_def)
    qed
  qed
qed simp

interpretation guarding_pull: pull_kept "guarded S L" "\<lambda>r. \<not> commits_pulled r" "\<lambda>_. True" S L for S L
proof unfold_locales
  show "guarded S L s (s'\<lparr>requests := requests s' @ [Unlock k]\<rparr>)" if "guarded S L (s\<lparr>requests := requests s @ [Lock k]\<rparr>) s'" for s s' k
    using guarded_trans [OF guarded_one guarded_trans [OF that guarded_one]] by simp
  show "keeps (guarded S L) (\<lambda>_. True) (new_lease S)"
    unfolding new_lease_def by (intro guarding.kept) simp_all
qed (simp_all add: guarded_one guarded_pull_one)

text \<open>
  C18: however pulling an image ends, every layer it commits is committed under the lock of its name: the lock was taken, the
  snapshot was looked for after that and not found, no lock was dropped from then to the commit, and it is dropped
  afterwards. Since locks exclude each other, a layer is
  not fetched by two clients.
\<close>

theorem layers_committed_under_lock:
  assumes "pull_image S L to_hex image_name s = (r, s')"
    and "requests s' = requests s @ before @ CommitPulled name key json lease # after"
  shows "under_lock S L (requests s) name before after"
proof -
  have "keeps (guarded S L) (\<lambda>_. True) (pull_image S L to_hex image_name)"
    unfolding pull_image_def by (intro guarding.kept guarding.split_keeps guarding_pull.keeps_fetch_image)
  from keepsD [OF this assms(1)] assms(2) show ?thesis by (auto simp: guarded_def)
qed

section \<open>What is there\<close>

definition grown :: "client_state \<Rightarrow> client_state \<Rightarrow> bool" where
  "grown s s' \<longleftrightarrow> prefix (requests s) (requests s')"

interpretation growth: layer_kept grown "\<lambda>_. True" "\<lambda>_. True" S for S
  by unfold_locales (auto simp: grown_def keeps_def new_lease_defs split: sum.split intro: prefix_order.trans append_prefixD)

text \<open>A request for the state of a snapshot would find it.\<close>

definition present :: "'e stores \<Rightarrow> request list \<Rightarrow> ustr \<Rightarrow> bool" where
  "present L h name \<longleftrightarrow> (\<exists>i. stats L (h @ [StatSnapshot name]) = Inr i)"

text \<open>
  What containerd documents of snapshots: one that was committed, or whose name was taken when it was to be
  committed, is there, and it stays (all are committed as roots of the garbage collection).
\<close>

definition accepted :: "('e, 'p, 'h) services \<Rightarrow> request list \<Rightarrow> bool" where
  "accepted S h \<longleftrightarrow> (case acks S h of Inr _ \<Rightarrow> True | Inl e \<Rightarrow> already_exists S e)"

definition keeps_snapshots :: "('e, 'p, 'h) services \<Rightarrow> 'e stores \<Rightarrow> bool" where
  "keeps_snapshots S L \<longleftrightarrow>
     (\<forall>h r name. present L h name \<longrightarrow> present L (h @ [r]) name) \<and>
     (\<forall>h name key. accepted S (h @ [CommitSnapshot name key]) \<longrightarrow> present L (h @ [CommitSnapshot name key]) name) \<and>
     (\<forall>h name key json lease. accepted S (h @ [CommitPulled name key json lease]) \<longrightarrow>
        present L (h @ [CommitPulled name key json lease]) name)"

lemma present_later:
  assumes "keeps_snapshots S L" "present L h name" "prefix h h'"
  shows "present L h' name"
proof -
  have "present L (h @ rs) name" for rs
    using assms(1,2) by (induction rs rule: rev_induct) (auto simp: keeps_snapshots_def simp flip: append_assoc)
  then show ?thesis using assms(3) by (auto simp: prefix_def)
qed

lemma committed_present:
  assumes "keeps_snapshots S L" "accepted S (h @ rs)" "rs \<noteq> []"
    and "last rs = CommitSnapshot name key \<or> last rs = CommitPulled name key json lease"
  shows "present L (h @ rs) name"
proof -
  have "h @ rs = (h @ butlast rs) @ [last rs]" using assms(3) by simp
  with assms show ?thesis unfolding keeps_snapshots_def by metis
qed

lemma retry_OkD: "retry n f s = (Ok x, s') \<Longrightarrow> \<exists>s1. f s1 = (Ok x, s')"
  by (induction n arbitrary: s) (auto split: prod.split_asm outcome.split_asm)

lemma commit_step:
  assumes "keeps_snapshots S L" "try_ask (acks S) r s = (Ok v, s1)" "r = CommitSnapshot name key \<or> r = CommitPulled name key json lease"
    and "(case v of Inl e \<Rightarrow> if already_exists S e then give () else fail (ServiceError e) | Inr _ \<Rightarrow> give ()) s1 = (Ok (), s')"
  shows "present L (requests s') name"
proof -
  have "accepted S (requests s @ [r])" "requests s' = requests s @ [r]"
    using assms(2,4) by (auto simp: accepted_def outcome_simps split: sum.split_asm if_split_asm)
  then show ?thesis using committed_present [OF assms(1), of "requests s" "[r]"] assms(3) by auto
qed

lemma pull_layer_present:
  assumes "keeps_snapshots S L" "pull_layer S L m lease base name s = (Ok (), s')"
  shows "present L (requests s') name"
proof -
  obtain s1 where "pull_attempt S L m lease base name s1 = (Ok (), s')"
    using retry_OkD [OF assms(2) [unfolded pull_layer_def]] by blast
  then obtain key json v s2 s3 where "try_ask (acks S) (CommitPulled name key json lease) s2 = (Ok v, s3)"
      "(case v of Inl e \<Rightarrow> if already_exists S e then give () else fail (ServiceError e) | Inr _ \<Rightarrow> give ()) s3 = (Ok (), s')"
    unfolding pull_attempt_def and_do_Ok by blast
  then show ?thesis using commit_step [OF assms(1)] by blast
qed

lemma on_client_Ok [outcome_simps]:
  "on_client f sc = (Ok x, sc') \<longleftrightarrow> f (fst sc) = (Ok x, fst sc') \<and> snd sc' = snd sc"
  by (cases sc') (auto simp: on_client_def split: prod.split)

lemma import_local_present:
  assumes "keeps_snapshots S L" "import_local S lease base name content s = (Ok (), s')"
  shows "present L (requests s') name"
proof -
  obtain key s1 where "ask (acks S) (CommitSnapshot name key) s1 = (Ok (), s')"
    using assms(2) unfolding import_local_def and_do_Ok by blast
  then show ?thesis using committed_present [OF assms(1), of "requests s1" "[CommitSnapshot name key]"]
    by (simp add: outcome_simps accepted_def)
qed

lemma drop_lease_grows: "drop_lease S lease s = (r, s') \<Longrightarrow> prefix (requests s) (requests s')"
  using keepsD [OF growth.keeps_lease(2) [of S lease]] by (simp add: grown_def)

lemma import_snapshot_present:
  assumes "keeps_snapshots S L" "import_snapshot S L K ensure name sc = (Ok True, sc')"
  shows "present L (requests (fst sc')) name"
proof -
  obtain hdr rest lease sc1 where e: "import_entry S L ensure name hdr rest lease sc1 = (Ok True, sc')"
    using assms(2) by (auto simp: import_snapshot_def outcome_simps split: option.split_asm)
  have "\<exists>s2. present L (requests s2) name \<and> drop_lease S lease s2 = (Ok (), fst sc')"
  proof (cases "entry_kind hdr")
    case LocalEntry
    with e obtain base content s1 s2 where "import_local S lease base name content s1 = (Ok (), s2)"
        "drop_lease S lease s2 = (Ok (), fst sc')"
      by (auto simp: import_entry_def Let_def outcome_simps split: if_split_asm)
    then show ?thesis using import_local_present [OF assms(1)] by blast
  next
    case (RemoteEntry m)
    with e obtain base s1 s2 where "pull_layer S L m lease base name s1 = (Ok (), s2)" "drop_lease S lease s2 = (Ok (), fst sc')"
      by (auto simp: import_entry_def Let_def outcome_simps split: if_split_asm)
    then show ?thesis using pull_layer_present [OF assms(1)] by blast
  qed
  then show ?thesis using present_later [OF assms(1)] drop_lease_grows by blast
qed

lemma while_locked_OkE:
  assumes "while_locked S key f sc = (Ok x, sc')"
  obtains sc1 sc2 where "f sc1 = (Ok x, sc2)" "prefix (requests (fst sc2)) (requests (fst sc'))"
proof -
  let ?s = "(fst sc)\<lparr>requests := requests (fst sc) @ [Lock (lock_file_name key)]\<rparr>"
  obtain r sc2 where f: "f (?s, snd sc) = (r, sc2)" by (cases "f (?s, snd sc)")
  have "r = Ok x" "prefix (requests (fst sc2)) (requests (fst sc'))"
    using assms f by (auto simp: while_locked_def on_client_def acquire_file_lock_def try_ask_def and_do_def unlock_def split: sum.split_asm)
  with f that show thesis by blast
qed

lemma stat_snapshot_Ok [outcome_simps]:
  "stat_snapshot L name s = (Ok b, s') \<longleftrightarrow> b = present L (requests s) name \<and> s' = s\<lparr>requests := requests s @ [StatSnapshot name]\<rparr>"
  by (cases "stats L (requests s @ [StatSnapshot name])") (auto simp: stat_snapshot_def present_def outcome_simps)

lemma recover_True: "recover f False sc = (Ok True, sc') \<longleftrightarrow> f sc = (Ok True, sc')"
  by (auto simp: recover_def split: prod.split outcome.split)

lemma ensure_snapshot_present:
  assumes "keeps_snapshots S L" "ensure_snapshot k S L K name sc = (Ok True, sc')"
  shows "present L (requests (fst sc')) name"
proof (cases k)
  case (Suc n)
  obtain sc1 sc2 where sc: "and_do (on_client (stat_snapshot L name)) (\<lambda>present.
      if present then give True else recover (import_snapshot S L K (ensure_snapshot n S L K) name) False) sc1 = (Ok True, sc2)"
    and p: "prefix (requests (fst sc2)) (requests (fst sc'))"
    using while_locked_OkE [OF assms(2) [unfolded Suc ensure_snapshot.simps]] by blast
  have "present L (requests (fst sc2)) name"
  proof (cases "present L (requests (fst sc1)) name")
    case True
    with sc have "requests (fst sc2) = requests (fst sc1) @ [StatSnapshot name]" by (auto simp: outcome_simps)
    then show ?thesis using True assms(1) by (simp add: keeps_snapshots_def)
  next
    case False
    with sc obtain sc3 where "import_snapshot S L K (ensure_snapshot n S L K) name sc3 = (Ok True, sc2)"
      by (auto simp: outcome_simps recover_True)
    then show ?thesis by (rule import_snapshot_present [OF assms(1)])
  qed
  with p show ?thesis using present_later [OF assms(1)] by blast
qed (use assms in \<open>simp add: outcome_simps\<close>)

lemma ensure_grows: "ensure_snapshot k S L K name sc = (r, sc') \<Longrightarrow> prefix (requests (fst sc)) (requests (fst sc'))"
  by (drule keepsD [OF growth.keeps_ensure]) (simp add: grown_def)

lemma healthcheck_grows:
  "healthcheck_value k S L K st sc = (r, sc') \<Longrightarrow> prefix (requests (fst sc)) (requests (fst sc'))"
  "healthcheck_services k S L K svcs sc = (r, sc') \<Longrightarrow> prefix (requests (fst sc)) (requests (fst sc'))"
  by (drule keepsD [OF growth.keeps_healthcheck_value(1) [OF HOL.refl]], simp add: grown_def)
    (drule keepsD [OF growth.keeps_healthcheck_value(2) [OF HOL.refl]], simp add: grown_def)

lemma healthcheck_present:
  assumes laws: "keeps_snapshots S L"
  shows "healthcheck_value k S' L' K st sc = (Ok True, sc') \<Longrightarrow> S' = S \<Longrightarrow> L' = L \<Longrightarrow>
      (\<forall>n \<in> set (snapshots st). present L (requests (fst sc')) n)"
    and "healthcheck_services k S' L' K svcs sc = (Ok True, sc') \<Longrightarrow> S' = S \<Longrightarrow> L' = L \<Longrightarrow>
      (\<forall>(h, s) \<in> set svcs. \<forall>n \<in> set (service_snapshots s). present L (requests (fst sc')) n)"
proof (induction k S' L' K st and k S' L' K svcs arbitrary: sc sc' and sc sc' rule: healthcheck_value_healthcheck_services.induct)
  case (1 k S' L' K name e w u svcs)
  then obtain sc1 where e: "ensure_snapshot k S L K name sc = (Ok True, sc1)"
    and h: "healthcheck_services k S L K svcs sc1 = (Ok True, sc')"
    by (auto simp: outcome_simps split: if_split_asm)
  have "present L (requests (fst sc')) name"
    using ensure_snapshot_present [OF laws e] healthcheck_grows(2) [OF h] present_later [OF laws] by blast
  moreover have "\<forall>(h, s) \<in> set svcs. \<forall>n \<in> set (service_snapshots s). present L (requests (fst sc')) n"
    using "1.IH" h "1.prems"(2,3) by blast
  ultimately show ?case by auto
next
  case (3 k S' L' K host st c svcs)
  then obtain sc1 where e: "healthcheck_value k S L K st sc = (Ok True, sc1)"
    and h: "healthcheck_services k S L K svcs sc1 = (Ok True, sc')"
    by (auto simp: outcome_simps split: if_split_asm)
  have "\<forall>n \<in> set (snapshots st). present L (requests (fst sc')) n"
    using "3.IH"(1) [of sc sc1] e "3.prems"(2,3) healthcheck_grows(2) [OF h] present_later [OF laws] by simp blast
  moreover have "\<forall>(h, s) \<in> set svcs. \<forall>n \<in> set (service_snapshots s). present L (requests (fst sc')) n"
    using "3.IH"(2) h "3.prems"(2,3) by blast
  ultimately show ?case by simp
qed simp

text \<open>
  C19: when the check of a value succeeds, its snapshot and the snapshots of all its services, at every level, are in
  containerd at the end, whether they were there before or have come from the cache.
\<close>

theorem healthcheck_value_sound:
  assumes "keeps_snapshots S L" "healthcheck_value k S L K st (s, c) = (Ok True, (s', c'))" "n \<in> set (snapshots st)"
  shows "present L (requests s') n"
  using healthcheck_present(1) [OF assms(1,2) HOL.refl HOL.refl] assms(3) by simp

section \<open>Names\<close>

text \<open>Different keys can share a file: the names of lock files are not unique.\<close>

lemma lock_files_shared: "lock_file_name (ustr ''import/a'') = lock_file_name (ustr ''import:a'')"
  by (simp add: lock_file_name_def plain_char_def ustr_def)

lemma with_lock_OkE:
  assumes "with_lock S key f s = (Ok x, s')"
  obtains s1 s2 where "f s1 = (Ok x, s2)" "prefix (requests s2) (requests s')"
proof -
  let ?s = "s\<lparr>requests := requests s @ [Lock (lock_file_name key)]\<rparr>"
  obtain r s2 where f: "f ?s = (r, s2)" by (cases "f ?s")
  have "r = Ok x" "prefix (requests s2) (requests s')"
    using assms f by (auto simp: with_lock_def acquire_file_lock_def try_ask_def and_do_def fail_def unlock_def split: sum.split_asm)
  with f that show thesis by blast
qed

text \<open>The snapshots of a pulled image: one for every layer, named after all the digests so far.\<close>

definition stack_names :: "('e, 'p, 'h) services \<Rightarrow> ('h \<Rightarrow> ustr) \<Rightarrow> ustr list \<Rightarrow> layer_descriptor list \<Rightarrow> ustr list" where
  "stack_names S to_hex digests layers =
     map (\<lambda>n. stack_name S to_hex (digests @ map digest (take n layers))) [1..<Suc (length layers)]"

lemma stack_names_Cons: "stack_names S to_hex digests (layer # layers) =
    stack_name S to_hex (digests @ [digest layer]) # stack_names S to_hex (digests @ [digest layer]) layers"
proof -
  have "[1..<Suc (Suc (length layers))] = 1 # map Suc [1..<Suc (length layers)]" by (simp add: upt_conv_Cons map_Suc_upt del: upt_Suc)
  then show ?thesis by (simp add: stack_names_def comp_def del: upt_Suc)
qed

lemma pull_layers_present:
  assumes "keeps_snapshots S L"
  shows "pull_layers S L to_hex ref lease layers base digests s = (Ok name, s') \<Longrightarrow>
    name = last (base # stack_names S to_hex digests layers) \<and>
    (\<forall>n \<in> set (stack_names S to_hex digests layers). present L (requests s') n)"
proof (induction layers arbitrary: base digests s)
  case Nil
  then show ?case by (simp add: stack_names_def outcome_simps)
next
  case (Cons layer layers)
  let ?name = "stack_name S to_hex (digests @ [digest layer])"
  obtain u s1 where w: "with_lock S ?name (and_do (stat_snapshot L ?name) (\<lambda>layer_exists. if layer_exists then give ()
        else pull_layer S L \<lparr>flm_image = ref, flm_layer = layer\<rparr> lease base ?name)) s = (Ok u, s1)"
    and r: "pull_layers S L to_hex ref lease layers ?name (digests @ [digest layer]) s1 = (Ok name, s')"
    using Cons.prems unfolding pull_layers.simps Let_def and_do_Ok by blast
  from with_lock_OkE [OF w] obtain s2 s3 where p: "prefix (requests s3) (requests s1)"
    and b: "and_do (stat_snapshot L ?name) (\<lambda>layer_exists. if layer_exists then give ()
        else pull_layer S L \<lparr>flm_image = ref, flm_layer = layer\<rparr> lease base ?name) s2 = (Ok u, s3)" by blast
  have "present L (requests s3) ?name"
  proof (cases "present L (requests s2) ?name")
    case True
    with b have "requests s3 = requests s2 @ [StatSnapshot ?name]" by (auto simp: outcome_simps)
    then show ?thesis using True assms by (simp add: keeps_snapshots_def)
  next
    case False
    with b show ?thesis using pull_layer_present [OF assms] by (auto simp: outcome_simps)
  qed
  moreover have "prefix (requests s1) (requests s')"
    using keepsD [OF growth.keeps_pull_layers r] by (simp add: grown_def)
  ultimately have "present L (requests s') ?name" using present_later [OF assms] p by blast
  with Cons.IH [OF r] show ?case by (simp add: stack_names_Cons)
qed

lemma retry_unless_OkD: "retry_unless stop n f s = (Ok x, s') \<Longrightarrow> \<exists>s1. f s1 = (Ok x, s')"
  by (induction n arbitrary: s) (auto split: prod.split_asm outcome.split_asm if_split_asm)

text \<open>
  The state of a pulled image has the snapshot named after the digests of all the layers of a manifest the
  registry gave for it, the empty name if it has none; at the end containerd has that snapshot and one for every
  shorter stack of the layers.
\<close>

theorem pull_image_snapshot:
  assumes "keeps_snapshots S L" "pull_image S L to_hex image_name s = (Ok st, s')"
  shows "\<exists>ref h layers manifest_digest text. parse_reference L image_name = Some ref \<and>
    manifests L (h @ [PullManifest ref]) = Inr (layers, manifest_digest, text) \<and>
    snapshot st = (if layers = [] then [] else stack_name S to_hex (map digest layers)) \<and>
    (\<forall>n \<in> {1..length layers}. present L (requests s') (stack_name S to_hex (map digest (take n layers))))"
proof -
  obtain cfg name where f: "fetch_image S L to_hex image_name s = (Ok (cfg, name), s')" and st: "snapshot st = name"
    using assms(2) by (auto simp: pull_image_def outcome_simps)
  obtain ref s1 layers md config_text s2 where ref: "parse_reference L image_name = Some ref"
    and m: "retry_unless (is_permanent L) (manifest_retries L) (ask (manifests L) (PullManifest ref)) s1 = (Ok (layers, md, config_text), s2)"
    and w: "with_lock S md (and_do (new_lease S) (\<lambda>lease. and_do (pull_layers S L to_hex ref lease layers [] []) (\<lambda>snapshot_name.
        and_do (drop_lease S lease) (\<lambda>_. give snapshot_name)))) s2 = (Ok name, s')"
    using f by (auto simp: fetch_image_def outcome_simps)
  obtain h where h: "manifests L (h @ [PullManifest ref]) = Inr (layers, md, config_text)"
    using retry_unless_OkD [OF m] by (auto simp: outcome_simps)
  from with_lock_OkE [OF w] obtain s3 s6 where b: "and_do (new_lease S) (\<lambda>lease. and_do (pull_layers S L to_hex ref lease layers [] [])
        (\<lambda>snapshot_name. and_do (drop_lease S lease) (\<lambda>_. give snapshot_name))) s3 = (Ok name, s6)"
      "prefix (requests s6) (requests s')" by blast
  then obtain lease s4 s5 where p: "pull_layers S L to_hex ref lease layers [] [] s4 = (Ok name, s5)"
      "drop_lease S lease s5 = (Ok (), s6)" by (auto simp: outcome_simps)
  have later: "prefix (requests s5) (requests s')" using drop_lease_grows [OF p(2)] b(2) by (rule prefix_order.trans)
  note q = pull_layers_present [OF assms(1) p(1)]
  have "name = (if layers = [] then [] else stack_name S to_hex (map digest layers))"
    using q by (auto simp: stack_names_def Suc_le_eq)
  moreover have "present L (requests s') (stack_name S to_hex (map digest (take n layers)))" if "n \<in> {1..length layers}" for n
    using q that present_later [OF assms(1) _ later] by (auto simp: stack_names_def simp del: upt_Suc)
  ultimately show ?thesis using ref h st by blast
qed

end
