(* ===== verification/Layer_Transfer.thy ===== *)
theory Layer_Transfer
  imports Layer_Props
begin

text \<open>
  Moving snapshots between machines through the cache: what one client exports, another imports. The cache is any
  backend that keeps the promises of the locale \<open>blob_cache\<close>; the local directory of \<open>Cache_Backends\<close> is one.
\<close>

section \<open>The cache\<close>

locale blob_cache =
  fixes K :: "('e, 'h, 'c) cache_ops"
    and entries :: "'c \<Rightarrow> 'h \<Rightarrow> bytes option"
    and pending :: "'c \<Rightarrow> nat \<Rightarrow> ('h \<times> bytes) option"
    and opened :: "'c \<Rightarrow> 'h set"
  assumes reads: "read_key K h c = map_option (\<lambda>b. (b, None)) (entries c h)"
    and refused: "write_key K h c = (None, c') \<Longrightarrow>
      entries c' = entries c \<and> opened c' = opened c \<and> (entries c h \<noteq> None \<or> h \<in> opened c)"
    and opens: "write_key K h c = (Some w, c') \<Longrightarrow>
      entries c h = None \<and> h \<notin> opened c \<and> entries c' = entries c \<and> opened c' = insert h (opened c) \<and> pending c' w = Some (h, [])"
    and writes: "pending c w = Some (h, b) \<Longrightarrow> write_all K w b' c = (Inr (), c') \<Longrightarrow>
      entries c' = entries c \<and> opened c' = opened c \<and> pending c' w = Some (h, b @ b')"
    and finishes: "pending c w = Some (h, b) \<Longrightarrow> shutdown_writer K w c = (Inr (), c') \<Longrightarrow>
      entries c' = (entries c)(h \<mapsto> b) \<and> opened c' = opened c - {h}"

section \<open>Trees of snapshots\<close>

text \<open>Where the files of a snapshot are: in its layer, or at a registry. A snapshot is followed by its ancestors.\<close>

datatype layer_source = LayerTar bytes | LayerBlob full_layer_manifest

type_synonym ancestry = "(ustr \<times> layer_source) list"

fun base_name :: "ancestry \<Rightarrow> ustr option" where
  "base_name [] = None"
| "base_name ((name, src) # rest) = Some name"

definition base_text :: "ustr option \<Rightarrow> ustr" where
  "base_text p = (case p of Some n \<Rightarrow> n | None \<Rightarrow> [])"

text \<open>
  After the requests \<open>h\<close> containerd has the snapshot: asked for it, it tells its parent and its label, and what the
  sidecar reads from the mount of a view of it is its layer.
\<close>

fun info_of :: "'e stores \<Rightarrow> snapshot_info \<Rightarrow> layer_source \<Rightarrow> bool" where
  "info_of L i (LayerTar t) \<longleftrightarrow> info_manifest i = None"
| "info_of L i (LayerBlob m) \<longleftrightarrow> (\<exists>json. info_manifest i = Some json \<and> parse_manifest L json = Some m)"

definition has_snapshot :: "('e, 'p, 'h) services \<Rightarrow> 'e stores \<Rightarrow> request list \<Rightarrow> ustr \<Rightarrow> ustr option \<Rightarrow> layer_source \<Rightarrow> bool" where
  "has_snapshot S L h name base src \<longleftrightarrow> name \<noteq> [] \<and>
     (\<forall>h'. prefix h h' \<longrightarrow>
        (\<exists>i. stats L (h' @ [StatSnapshot name]) = Inr (Some i) \<and> info_parent i = base_text base \<and> info_of L i src)) \<and>
     (\<forall>h1 h2 v lease m ms bs t. prefix h h1 \<longrightarrow> mounted S (h1 @ [ViewSnapshot v name lease]) = Inr (m # ms) \<longrightarrow>
        prefix (h1 @ [ViewSnapshot v name lease]) h2 \<longrightarrow> layer_tars L (h2 @ [ExportLayer m]) = Inr (map Inr bs) \<longrightarrow>
        src = LayerTar t \<longrightarrow> concat bs = t)"

fun has_tree :: "('e, 'p, 'h) services \<Rightarrow> 'e stores \<Rightarrow> request list \<Rightarrow> ancestry \<Rightarrow> bool" where
  "has_tree S L h [] \<longleftrightarrow> True"
| "has_tree S L h ((name, src) # rest) \<longleftrightarrow> has_snapshot S L h name (base_name rest) src \<and> has_tree S L h rest"

fun kind_of :: "layer_source \<Rightarrow> entry_kind" where
  "kind_of (LayerTar t) = LocalEntry"
| "kind_of (LayerBlob m) = RemoteEntry m"

fun tar_of :: "layer_source \<Rightarrow> bytes" where
  "tar_of (LayerTar t) = t"
| "tar_of (LayerBlob m) = []"

definition entry_of :: "'e stores \<Rightarrow> ustr option \<Rightarrow> layer_source \<Rightarrow> bytes \<Rightarrow> bool" where
  "entry_of L base src b \<longleftrightarrow>
     (\<exists>f. write_frame (encode_entry L) \<lparr>entry_parent = base, entry_kind = kind_of src\<rparr> = Ok f \<and> b = f @ tar_of src)"

text \<open>Every entry of the cache for one of the snapshots is right, and all of them have one.\<close>

fun right_entries :: "('e, 'p, 'h) services \<Rightarrow> 'e stores \<Rightarrow> ('h \<Rightarrow> bytes option) \<Rightarrow> ancestry \<Rightarrow> bool" where
  "right_entries S L es [] \<longleftrightarrow> True"
| "right_entries S L es ((name, src) # rest) \<longleftrightarrow>
     (\<forall>b. es (snapshot_key S name) = Some b \<longrightarrow> entry_of L (base_name rest) src b) \<and> right_entries S L es rest"

fun stored :: "('e, 'p, 'h) services \<Rightarrow> 'e stores \<Rightarrow> ('h \<Rightarrow> bytes option) \<Rightarrow> ancestry \<Rightarrow> bool" where
  "stored S L es [] \<longleftrightarrow> True"
| "stored S L es ((name, src) # rest) \<longleftrightarrow>
     (\<exists>b. es (snapshot_key S name) = Some b \<and> entry_of L (base_name rest) src b) \<and> stored S L es rest"

definition keys_of :: "('e, 'p, 'h) services \<Rightarrow> ancestry \<Rightarrow> 'h list" where
  "keys_of S tree = map (\<lambda>(name, src). snapshot_key S name) tree"

lemma entries_cong:
  "(\<And>h. h \<in> set (keys_of S tree) \<Longrightarrow> es' h = es h) \<Longrightarrow>
    right_entries S L es' tree = right_entries S L es tree \<and> stored S L es' tree = stored S L es tree"
  by (induction tree) (auto simp: keys_of_def)

lemma has_snapshot_later: "has_snapshot S L h name base src \<Longrightarrow> prefix h h' \<Longrightarrow> has_snapshot S L h' name base src"
  unfolding has_snapshot_def using prefix_order.trans [of h h'] by blast

lemma has_tree_later: "has_tree S L h tree \<Longrightarrow> prefix h h' \<Longrightarrow> has_tree S L h' tree"
  by (induction tree) (auto intro: has_snapshot_later)

section \<open>Exporting\<close>

lemma on_cache_Ok [outcome_simps]:
  "on_cache f sc = (Ok x, sc') \<longleftrightarrow> fst sc' = fst sc \<and> f (snd sc) = (x, snd sc')"
  by (cases sc') (auto simp: on_cache_def split: prod.split)

context blob_cache begin

lemma append_entry_Ok:
  assumes "append_entry K w b' sc = (Ok u, sc')" "pending (snd sc) w = Some (h, b)"
  shows "fst sc' = fst sc \<and> entries (snd sc') = entries (snd sc) \<and> opened (snd sc') = opened (snd sc) \<and>
    pending (snd sc') w = Some (h, b @ b')"
proof -
  have "fst sc' = fst sc" "write_all K w b' (snd sc) = (Inr (), snd sc')"
    using assms(1) by (auto simp: append_entry_def outcome_simps)
  with writes [OF assms(2)] show ?thesis by blast
qed

lemma append_header_Ok:
  assumes "append_header L K w hdr sc = (Ok u, sc')" "pending (snd sc) w = Some (h, b)"
  shows "\<exists>f. write_frame (encode_entry L) hdr = Ok f \<and> fst sc' = fst sc \<and> entries (snd sc') = entries (snd sc) \<and>
    opened (snd sc') = opened (snd sc) \<and> pending (snd sc') w = Some (h, b @ f)"
proof -
  obtain f where "write_frame (encode_entry L) hdr = Ok f" "append_entry K w f sc = (Ok (), sc')"
    using assms(1) by (auto simp: append_header_def outcome_simps)
  with append_entry_Ok [OF _ assms(2)] show ?thesis by blast
qed

lemma copy_stream_Ok:
  "copy_stream K w items sc = (Ok u, sc') \<Longrightarrow> pending (snd sc) w = Some (h, b) \<Longrightarrow>
    \<exists>bs. items = map Inr bs \<and> fst sc' = fst sc \<and> entries (snd sc') = entries (snd sc) \<and>
      opened (snd sc') = opened (snd sc) \<and> pending (snd sc') w = Some (h, b @ concat bs)"
proof (induction items arbitrary: sc b)
  case Nil
  then show ?case by (simp add: outcome_simps)
next
  case (Cons i items)
  then obtain b' sc1 where i: "i = Inr b'" and a: "append_entry K w b' sc = (Ok (), sc1)"
    and c: "copy_stream K w items sc1 = (Ok u, sc')"
    by (cases i) (auto simp: outcome_simps)
  note a' = append_entry_Ok [OF a Cons.prems(2)]
  with Cons.IH [OF c] obtain bs where "items = map Inr bs" "fst sc' = fst sc1" "entries (snd sc') = entries (snd sc1)"
      "opened (snd sc') = opened (snd sc1)" "pending (snd sc') w = Some (h, (b @ b') @ concat bs)" by blast
  with i a' show ?case by (intro exI [of _ "b' # bs"]) simp
qed

lemma export_local_Ok:
  assumes "export_local S L K w name base sc = (Ok (), sc')" "pending (snd sc) w = Some (h, [])"
    and snap: "has_snapshot S L (requests (fst sc)) name base (LayerTar t)"
  shows "\<exists>b. entry_of L base (LayerTar t) b \<and> entries (snd sc') = entries (snd sc) \<and>
    opened (snd sc') = opened (snd sc) \<and> pending (snd sc') w = Some (h, b) \<and> prefix (requests (fst sc)) (requests (fst sc'))"
proof -
  obtain view sc1 lease sc2 mounts sc3 where v: "on_client (new_uuid S) sc = (Ok view, sc1)"
    and l: "on_client (new_lease S) sc1 = (Ok lease, sc2)"
    and m: "on_client (ask (mounted S) (ViewSnapshot (name @ ustr ''/view/'' @ view) name lease)) sc2 = (Ok mounts, sc3)"
    and e: "(case mounts of [] \<Rightarrow> fail (InternalError ''No mounts returned for snapshoter'') | mount # _ \<Rightarrow>
          and_do (append_header L K w \<lparr>entry_parent = base, entry_kind = LocalEntry\<rparr>) (\<lambda>_.
          and_do (on_client (ask (layer_tars L) (ExportLayer mount))) (\<lambda>tar.
          and_do (copy_stream K w tar) (\<lambda>_. on_client (drop_lease S lease))))) sc3 = (Ok (), sc')"
    using assms(1) unfolding export_local_def and_do_Ok by blast
  obtain mount ms where mounts: "mounts = mount # ms" using e by (cases mounts) (simp_all add: outcome_simps)
  obtain u sc4 tar sc5 u' sc6 where hd: "append_header L K w \<lparr>entry_parent = base, entry_kind = LocalEntry\<rparr> sc3 = (Ok u, sc4)"
    and t: "on_client (ask (layer_tars L) (ExportLayer mount)) sc4 = (Ok tar, sc5)"
    and c: "copy_stream K w tar sc5 = (Ok u', sc6)" and d: "on_client (drop_lease S lease) sc6 = (Ok (), sc')"
    using e unfolding mounts list.case and_do_Ok by blast
  let ?view = "ViewSnapshot (name @ ustr ''/view/'' @ view) name lease"
  have s: "prefix (requests (fst sc)) (requests (fst sc2))"
    using v keepsD [OF growth.keeps_lease(1), of S "fst sc1"] l by (auto simp: outcome_simps grown_def)
  have m': "mounted S (requests (fst sc2) @ [?view]) = Inr (mount # ms)" "requests (fst sc3) = requests (fst sc2) @ [?view]"
      "snd sc3 = snd sc" using m l v mounts by (simp_all add: outcome_simps del: append_assoc)
  obtain f where f: "write_frame (encode_entry L) \<lparr>entry_parent = base, entry_kind = LocalEntry\<rparr> = Ok f" "fst sc4 = fst sc3"
      "entries (snd sc4) = entries (snd sc)" "opened (snd sc4) = opened (snd sc)" "pending (snd sc4) w = Some (h, f)"
    using append_header_Ok [OF hd, of h "[]"] assms(2) m'(3) by auto
  have t': "layer_tars L (requests (fst sc4) @ [ExportLayer mount]) = Inr tar" "snd sc5 = snd sc4"
      "requests (fst sc5) = requests (fst sc4) @ [ExportLayer mount]"
    using t by (simp_all add: outcome_simps)
  obtain bs where bs: "tar = map Inr bs" "fst sc6 = fst sc5" "entries (snd sc6) = entries (snd sc)"
      "opened (snd sc6) = opened (snd sc)" "pending (snd sc6) w = Some (h, f @ concat bs)"
    using copy_stream_Ok [OF c, of h f] f t'(2) by auto
  have "concat bs = t"
    using snap s m' t'(1) f(2) bs(1) unfolding has_snapshot_def by (metis prefix_order.refl)
  moreover have "prefix (requests (fst sc)) (requests (fst sc'))" "snd sc' = snd sc6"
    using s m'(2) f(2) t'(3) bs(2) drop_lease_grows [of S lease "fst sc6" "Ok ()" "fst sc'"] d
    by (auto simp: outcome_simps prefix_def)
  ultimately show ?thesis using f(1) bs by (auto simp: entry_of_def)
qed

lemma write_entry_Ok:
  assumes w: "write_entry S L K name info base (s, c) = (Ok (), (s', c'))"
    and snap: "has_snapshot S L (requests s) name base src" "info_of L info src"
    and closed: "snapshot_key S name \<notin> opened c"
  shows "prefix (requests s) (requests s') \<and> opened c' = opened c \<and>
    (\<exists>b. entries c' = (entries c)(snapshot_key S name \<mapsto> b) \<and>
      (entries c (snapshot_key S name) = Some b \<or> entries c (snapshot_key S name) = None \<and> entry_of L base src b))"
proof -
  let ?key = "snapshot_key S name"
  obtain writer c1 where wk: "write_key K ?key c = (writer, c1)" by (cases "write_key K ?key c")
  show ?thesis
  proof (cases writer)
    case None
    with w wk have "s' = s" "c' = c1" by (auto simp: write_entry_def outcome_simps)
    with refused [of ?key c c1] wk None closed show ?thesis by (auto simp: fun_upd_idem)
  next
    case (Some i)
    note o = opens [OF wk [unfolded Some]]
    obtain u sc2 where body: "(case info_manifest info of
        Some json \<Rightarrow> and_do (lift_outcome (ok_or (parse_manifest L json) (InvalidJson json))) (\<lambda>m.
            append_header L K i \<lparr>entry_parent = base, entry_kind = RemoteEntry m\<rparr>)
      | None \<Rightarrow> export_local S L K i name base) (s, c1) = (Ok u, sc2)"
      and fin: "shutdown_writer K i (snd sc2) = (Inr (), c')" "s' = fst sc2"
      using w wk Some by (auto simp: write_entry_def outcome_simps)
    have "\<exists>b. entry_of L base src b \<and> entries (snd sc2) = entries c1 \<and> opened (snd sc2) = opened c1 \<and>
        pending (snd sc2) i = Some (?key, b) \<and> prefix (requests s) (requests (fst sc2))"
    proof (cases src)
      case (LayerTar t)
      then have "export_local S L K i name base (s, c1) = (Ok (), sc2)" using body snap(2) by simp
      from export_local_Ok [OF this] snap(1) o LayerTar show ?thesis by auto
    next
      case (LayerBlob m)
      then have "append_header L K i \<lparr>entry_parent = base, entry_kind = RemoteEntry m\<rparr> (s, c1) = (Ok u, sc2)"
        using body snap(2) by (auto simp: outcome_simps)
      from append_header_Ok [OF this] o LayerBlob show ?thesis by (fastforce simp: entry_of_def)
    qed
    then obtain b where b: "entry_of L base src b" "entries (snd sc2) = entries c1" "opened (snd sc2) = opened c1"
        "pending (snd sc2) i = Some (?key, b)" "prefix (requests s) (requests (fst sc2))" by blast
    from finishes [OF b(4) fin(1)] b o fin(2) show ?thesis by auto
  qed
qed

lemma export_stores:
  assumes "export_snapshot k S L K name (s, c) = (Ok (), (s', c'))" "tree = (name, src) # rest"
    and "has_tree S L (requests s) tree" "right_entries S L (entries c) tree"
    and "distinct (keys_of S tree)" "set (keys_of S tree) \<inter> opened c = {}"
  shows "prefix (requests s) (requests s') \<and> stored S L (entries c') tree \<and> opened c' = opened c \<and> (\<forall>h. h \<notin> set (keys_of S tree) \<longrightarrow> entries c' h = entries c h)"
  using assms
proof (induction k arbitrary: name s s' c' tree src rest)
  case (Suc k)
  let ?key = "snapshot_key S name"
  have snap: "has_snapshot S L (requests s) name (base_name rest) src" and tl: "has_tree S L (requests s) rest"
    using Suc.prems by simp_all
  obtain i where i: "stats L (requests s @ [StatSnapshot name]) = Inr (Some i)" "info_parent i = base_text (base_name rest)"
      "info_of L i src"
    using snap unfolding has_snapshot_def by blast
  define s1 where "s1 = s\<lparr>requests := requests s @ [StatSnapshot name]\<rparr>"
  have par: "parent_of i = base_name rest"
    using tl i(2) by (cases rest) (auto simp: parent_of_def base_text_def has_snapshot_def)
  obtain s2 c2 where parent: "(case base_name rest of Some p \<Rightarrow> export_snapshot k S L K p | None \<Rightarrow> give ()) (s1, c) = (Ok (), (s2, c2))"
    and w: "write_entry S L K name i (base_name rest) (s2, c2) = (Ok (), (s', c'))"
    using Suc.prems(1) i(1) by (auto simp: outcome_simps par s1_def)
  have p1: "prefix (requests s) (requests s1)" by (simp add: s1_def)
  have "prefix (requests s1) (requests s2) \<and> stored S L (entries c2) rest \<and> opened c2 = opened c \<and>
      (\<forall>h. h \<notin> set (keys_of S rest) \<longrightarrow> entries c2 h = entries c h)"
  proof (cases rest)
    case Nil
    with parent show ?thesis by (simp add: outcome_simps)
  next
    case (Cons a rest')
    obtain p psrc where a: "a = (p, psrc)" by (cases a)
    have "export_snapshot k S L K p (s1, c) = (Ok (), (s2, c2))" using parent Cons a by simp
    from Suc.IH [OF this Cons [unfolded a]] show ?thesis using Suc.prems has_tree_later [OF tl p1]
      by (auto simp: keys_of_def)
  qed
  note r = this
  have key: "?key \<notin> set (keys_of S rest)" "?key \<notin> opened c" using Suc.prems by (auto simp: keys_of_def)
  with r have kept: "entries c2 ?key = entries c ?key" "?key \<notin> opened c2" by auto
  obtain b where b: "prefix (requests s2) (requests s')" "opened c' = opened c2" "entries c' = (entries c2)(?key \<mapsto> b)"
      "entries c2 ?key = Some b \<or> entries c2 ?key = None \<and> entry_of L (base_name rest) src b"
    using write_entry_Ok [OF w has_snapshot_later [OF snap] i(3) kept(2)] r p1 by (meson prefix_order.trans)
  have "entry_of L (base_name rest) src b" using b(4) kept(1) Suc.prems(2,4) by auto
  moreover have "stored S L (entries c') rest"
    using r key(1) by (subst entries_cong [of S rest "entries c'" "entries c2" L, THEN conjunct2]) (auto simp: b(3))
  ultimately have "stored S L (entries c') tree" using b(3) Suc.prems(2) by simp
  moreover have "entries c' h = entries c h" if "h \<notin> set (keys_of S tree)" for h
    using that r b(3) Suc.prems(2) by (auto simp: keys_of_def)
  moreover have "prefix (requests s) (requests s')" using r b(1) p1 by (blast intro: prefix_order.trans)
  ultimately show ?case using r b(2) by simp
qed (simp add: outcome_simps)

end

section \<open>Importing\<close>

text \<open>
  The blocks of requests that make a snapshot of a layer: its bytes are written to the content store and committed,
  or it is one of a registry; a snapshot is prepared on the parent, the layer applied to its mounts, and it is
  committed under the name. \<open>h0\<close> are the requests that have gone before.
\<close>

fun applied :: "('e, 'p, 'h) services \<Rightarrow> 'e stores \<Rightarrow> request list \<Rightarrow> request list \<Rightarrow> ustr \<Rightarrow> ustr \<Rightarrow> layer_source \<Rightarrow> bool" where
  "applied S L h0 h name base (LayerTar t) \<longleftrightarrow> (\<exists>before upload bs lease responses d key mounts.
     prefix (before @ [WriteContent (chunk_writes upload 0 bs) lease, CommitContent upload (as_i64 (length t)) [] lease,
       PrepareSnapshot key base lease,
       ApplyDiff mounts \<lparr>media_type = layer_media_type, digest = d, layer_size = int (as_i64 (length t))\<rparr>,
       CommitSnapshot name key]) h \<and> prefix h0 before \<and> concat bs = t \<and>
     write_answers L (before @ [WriteContent (chunk_writes upload 0 bs) lease]) = Inr responses \<and>
     last_digest [] responses = Inr d \<and>
     mounted S (before @ [WriteContent (chunk_writes upload 0 bs) lease, CommitContent upload (as_i64 (length t)) [] lease,
       PrepareSnapshot key base lease]) = Inr mounts)"
| "applied S L h0 h name base (LayerBlob m) \<longleftrightarrow> (\<exists>before key lease mounts json.
     prefix (before @ [PrepareSnapshot key base lease, ApplyDiff mounts (flm_layer m), CommitPulled name key json lease]) h \<and>
     prefix h0 before \<and> manifest_json L m = Some json \<and> mounted S (before @ [PrepareSnapshot key base lease]) = Inr mounts)"

text \<open>The snapshots of a tree are made from the layers of the tree, the ancestors first.\<close>

fun restored :: "('e, 'p, 'h) services \<Rightarrow> 'e stores \<Rightarrow> request list \<Rightarrow> ancestry \<Rightarrow> bool" where
  "restored S L h [] \<longleftrightarrow> True"
| "restored S L h ((name, src) # rest) \<longleftrightarrow>
     (\<exists>h0. restored S L h0 rest \<and> applied S L h0 h name (base_text (base_name rest)) src)"

text \<open>A client all of whose requests are met, though contents may be missing and snapshots are there once committed.\<close>

definition committed_in :: "request list \<Rightarrow> ustr \<Rightarrow> bool" where
  "committed_in h name \<longleftrightarrow> (\<exists>key. CommitSnapshot name key \<in> set h) \<or> (\<exists>key json lease. CommitPulled name key json lease \<in> set h)"

definition reliable :: "('e, 'p, 'h) services \<Rightarrow> 'e stores \<Rightarrow> bool" where
  "reliable S L \<longleftrightarrow>
     (\<forall>h r. (\<forall>d. r \<noteq> ReadContent d) \<longrightarrow> acks S (h @ [r]) = Inr ()) \<and> (\<forall>h. \<exists>ms. mounted S h = Inr ms) \<and>
     (\<forall>h. \<exists>ds. write_answers L h = Inr (map Inr ds)) \<and> (\<forall>h. \<exists>d. commit_answers L h = Inr (Some (Inr d))) \<and>
     (\<forall>h. \<exists>items. blobs L h = Inr items) \<and> (\<forall>m. manifest_json L m \<noteq> None) \<and>
     (\<forall>h name. present L h name \<longleftrightarrow> committed_in h name)"

lemma and_do_run: "f s = (Ok x, s1) \<Longrightarrow> and_do f g s = g x s1"
  by (simp add: and_do_def)

lemma on_client_run: "f s = (Ok x, s1) \<Longrightarrow> on_client f (s, c) = (Ok x, (s1, c))"
  by (simp add: on_client_def)

lemma ask_run: "answer (requests s @ [r]) = Inr x \<Longrightarrow> ask answer r s = (Ok x, s\<lparr>requests := requests s @ [r]\<rparr>)"
  by (simp add: outcome_simps)

lemma last_digest_all: "\<exists>d. last_digest d0 (map Inr ds) = Inr d"
  by (induction ds arbitrary: d0) auto

lemma applied_later: "applied S L h0 h name base src \<Longrightarrow> prefix h h' \<Longrightarrow> applied S L h0 h' name base src"
  by (cases src) (simp_all only: applied.simps, (blast intro: prefix_order.trans)+)

lemma restored_later: "restored S L h tree \<Longrightarrow> prefix h h' \<Longrightarrow> restored S L h' tree"
  using applied_later by (cases tree) fastforce+

lemma import_stream_run:
  assumes "reliable S L"
  shows "\<exists>upload d responses s'. import_stream_into_content_store S L stream lease known s =
      (Ok (length (concat (stream_data stream)), d), s') \<and>
    requests s' = requests s @ [WriteContent (chunk_writes upload 0 (stream_data stream)) lease,
      CommitContent upload (as_i64 (length (concat (stream_data stream)))) (case known of Some x \<Rightarrow> x | None \<Rightarrow> []) lease] \<and>
    write_answers L (requests s @ [WriteContent (chunk_writes upload 0 (stream_data stream)) lease]) = Inr responses \<and>
    last_digest [] responses = Inr d"
proof -
  define upload where "upload = uuid_of S (uuids_drawn s)"
  obtain ds where ds: "write_answers L (requests s @ [WriteContent (chunk_writes upload 0 (stream_data stream)) lease]) = Inr (map Inr ds)"
    using assms unfolding reliable_def by blast
  obtain d where d: "last_digest [] (map Inr ds) = (Inr d :: 'a + ustr)" using last_digest_all by blast
  obtain d' where c: "commit_answers L (requests s @ [WriteContent (chunk_writes upload 0 (stream_data stream)) lease,
      CommitContent upload (as_i64 (length (concat (stream_data stream)))) (case known of Some x \<Rightarrow> x | None \<Rightarrow> []) lease]) = Inr (Some (Inr d'))"
    using assms unfolding reliable_def by blast
  show ?thesis
    using ds d c by (intro exI [of _ upload] exI [of _ d] exI [of _ "map Inr ds"])
      (simp add: import_stream_into_content_store_def Let_def outcome_simps flip: upload_def)
qed

lemma pull_layer_run:
  assumes "reliable S L"
  shows "\<exists>s'. pull_layer S L m lease base name s = (Ok (), s') \<and> applied S L (requests s) (requests s') name base (LayerBlob m)"
proof -
  have ok: "acks S (h @ [r]) = Inr ()" if "\<And>d. r \<noteq> ReadContent d" for h r using assms that by (simp add: reliable_def)
  have "\<exists>s1. fetch_layer S L m lease s = (Ok (), s1)"
  proof (cases "acks S (requests s @ [ReadContent (digest (flm_layer m))])")
    case (Inl e)
    obtain items where "blobs L ((requests s @ [ReadContent (digest (flm_layer m)), Authenticate (flm_image m)]) @
        [PullBlob (flm_image m) (flm_layer m)]) = Inr items"
      using assms unfolding reliable_def by blast
    moreover have "acks S ((requests s @ [ReadContent (digest (flm_layer m))]) @ [Authenticate (flm_image m)]) = Inr ()" by (rule ok) simp
    ultimately show ?thesis
      using Inl import_stream_run [OF assms, of items lease "Some (digest (flm_layer m))"
        "s\<lparr>requests := requests s @ [ReadContent (digest (flm_layer m)), Authenticate (flm_image m), PullBlob (flm_image m) (flm_layer m)]\<rparr>"]
      by (auto simp: fetch_layer_def outcome_simps)
  qed (simp add: fetch_layer_def outcome_simps)
  then obtain s1 where s1: "fetch_layer S L m lease s = (Ok (), s1)" by blast
  then have grown: "prefix (requests s) (requests s1)"
    using keepsD [OF growth.keeps_fetch_layer [of S L m lease]] by (simp add: grown_def)
  define key where "key = uuid_of S (uuids_drawn s1)"
  obtain ms where ms: "mounted S (requests s1 @ [PrepareSnapshot key base lease]) = Inr ms" using assms unfolding reliable_def by blast
  obtain json where json: "manifest_json L m = Some json" using assms unfolding reliable_def by blast
  have a: "acks S (requests s1 @ [PrepareSnapshot key base lease, ApplyDiff ms (flm_layer m)]) = Inr ()"
      "acks S (requests s1 @ [PrepareSnapshot key base lease, ApplyDiff ms (flm_layer m), CommitPulled name key json lease]) = Inr ()"
    using ok [of "ApplyDiff ms (flm_layer m)" "requests s1 @ [PrepareSnapshot key base lease]"]
      ok [of "CommitPulled name key json lease" "requests s1 @ [PrepareSnapshot key base lease, ApplyDiff ms (flm_layer m)]"] by simp_all
  have run: "\<exists>s'. pull_attempt S L m lease base name s = (Ok (), s') \<and>
      requests s' = requests s1 @ [PrepareSnapshot key base lease, ApplyDiff ms (flm_layer m), CommitPulled name key json lease]"
    using s1 ms json a by (simp add: pull_attempt_def outcome_simps key_def)
  then obtain s' where s': "pull_attempt S L m lease base name s = (Ok (), s')"
      "requests s' = requests s1 @ [PrepareSnapshot key base lease, ApplyDiff ms (flm_layer m), CommitPulled name key json lease]" by blast
  have "retry n (pull_attempt S L m lease base name) s = (Ok (), s')" for n using s'(1) by (cases n) simp_all
  moreover have "applied S L (requests s) (requests s') name base (LayerBlob m)"
    using s'(2) grown ms json by auto
  ultimately show ?thesis by (auto simp: pull_layer_def)
qed

lemma import_local_run:
  assumes "reliable S L"
  shows "\<exists>content s1 s'. import_stream_into_content_store S L (reader_stream (t, None)) lease None s = (Ok content, s1) \<and>
    import_local S lease base name content s1 = (Ok (), s') \<and> applied S L (requests s) (requests s') name base (LayerTar t)"
proof -
  let ?bs = "stream_data (reader_stream (t, None) :: ('a + bytes) list)"
  have t: "concat ?bs = t" by (simp add: reader_stream_def)
  obtain upload d responses s1 where i: "import_stream_into_content_store S L (reader_stream (t, None)) lease None s = (Ok (length t, d), s1)"
      "requests s1 = requests s @ [WriteContent (chunk_writes upload 0 ?bs) lease, CommitContent upload (as_i64 (length t)) [] lease]"
      "write_answers L (requests s @ [WriteContent (chunk_writes upload 0 ?bs) lease]) = Inr responses" "last_digest [] responses = Inr d"
    using import_stream_run [OF assms, of "reader_stream (t, None)" lease None s] t by auto
  define key where "key = uuid_of S (uuids_drawn s1)"
  let ?p = "PrepareSnapshot key base lease"
  obtain ms where ms: "mounted S (requests s1 @ [?p]) = Inr ms" using assms unfolding reliable_def by blast
  let ?a = "ApplyDiff ms \<lparr>media_type = layer_media_type, digest = d, layer_size = int (as_i64 (length t))\<rparr>"
  have "acks S ((requests s1 @ [?p]) @ [?a]) = Inr ()" "acks S ((requests s1 @ [?p, ?a]) @ [CommitSnapshot name key]) = Inr ()"
    using assms unfolding reliable_def by blast+
  then have "\<exists>s'. import_local S lease base name (length t, d) s1 = (Ok (), s') \<and>
      requests s' = requests s1 @ [?p, ?a, CommitSnapshot name key]"
    using ms by (simp add: import_local_def outcome_simps key_def)
  then obtain s' where s': "import_local S lease base name (length t, d) s1 = (Ok (), s')"
      "requests s' = requests s1 @ [?p, ?a, CommitSnapshot name key]" by blast
  have "applied S L (requests s) (requests s') name base (LayerTar t)"
    unfolding applied.simps using ms i(2-4) s'(2) t
    by (intro exI [of _ "requests s"] exI [of _ upload] exI [of _ ?bs] exI [of _ lease] exI [of _ responses] exI [of _ d]
        exI [of _ key] exI [of _ ms]) simp
  with i(1) s'(1) show ?thesis by blast
qed

lemma new_lease_run:
  assumes "reliable S L"
  shows "\<exists>lease s'. new_lease S s = (Ok lease, s') \<and> requests s' = requests s @ [CreateLease lease]"
    "\<exists>s'. drop_lease S lease s = (Ok (), s') \<and> requests s' = requests s @ [DeleteLease lease]"
  using assms by (auto simp: reliable_def new_lease_def drop_lease_def register_dangling_def outcome_simps)

lemma while_locked_run:
  assumes "reliable S L" "f (s\<lparr>requests := requests s @ [Lock (lock_file_name key)]\<rparr>, c) = (Ok x, (s1, c1))"
  shows "while_locked S key f (s, c) = (Ok x, (unlock key s1, c1))"
proof -
  have "acks S (requests s @ [Lock (lock_file_name key)]) = Inr ()" using assms(1) by (simp add: reliable_def)
  with assms(2) show ?thesis by (simp add: while_locked_def acquire_file_lock_def on_client_def try_ask_def and_do_def)
qed

text \<open>The client that imports agrees with the one that exported on the names, and reads the headers that it wrote.\<close>

fun headers_of :: "ancestry \<Rightarrow> entry_header list" where
  "headers_of [] = []"
| "headers_of ((name, src) # rest) = \<lparr>entry_parent = base_name rest, entry_kind = kind_of src\<rparr> # headers_of rest"

definition same_format :: "entry_header list \<Rightarrow> ('e, 'p, 'h) services \<Rightarrow> 'e stores \<Rightarrow> ('f, 'q, 'h) services \<Rightarrow> 'f stores \<Rightarrow> bool" where
  "same_format hs S L S' L' \<longleftrightarrow> snapshot_key S' = snapshot_key S \<and> codec (\<lambda>x. x \<in> set hs) (encode_entry L) (decode_entry L')"

lemma read_entry:
  assumes "same_format hs S L S' L'" "entry_of L base src b" "\<lparr>entry_parent = base, entry_kind = kind_of src\<rparr> \<in> set hs"
  shows "read_header L' (b, None) = Ok (\<lparr>entry_parent = base, entry_kind = kind_of src\<rparr>, tar_of src, None)"
proof -
  obtain f where f: "write_frame (encode_entry L) \<lparr>entry_parent = base, entry_kind = kind_of src\<rparr> = Ok f" "b = f @ tar_of src"
    using assms(2) by (auto simp: entry_of_def)
  then have "read_frame (decode_entry L') b = Ok (\<lparr>entry_parent = base, entry_kind = kind_of src\<rparr>, tar_of src)"
    using write_frame_read [of "\<lambda>x. x \<in> set hs" "encode_entry L" "decode_entry L'" "\<lparr>entry_parent = base, entry_kind = kind_of src\<rparr>"]
      assms(1,3) by (auto simp: same_format_def)
  then show ?thesis by (simp add: read_header_def)
qed

lemma import_entry_restores:
  assumes "reliable S L"
    and ensure: "(case base of Some p \<Rightarrow> ensure p | None \<Rightarrow> give True) (s, c) = (Ok True, (s1, c))" "restored S L (requests s1) rest"
      "base_name rest = base"
  shows "\<exists>s'. import_entry S L ensure name \<lparr>entry_parent = base, entry_kind = kind_of src\<rparr> (tar_of src, None) lease (s, c) =
    (Ok True, (s', c)) \<and> restored S L (requests s') ((name, src) # rest)"
proof -
  have base: "(case base of Some p \<Rightarrow> p | None \<Rightarrow> []) = base_text base" by (simp add: base_text_def)
  have *: "\<exists>s'. drop_lease S lease s2 = (Ok (), s') \<and> restored S L (requests s') ((name, src) # rest)"
    if "applied S L (requests s1) (requests s2) name (base_text base) src" for s2
  proof -
    obtain s' where s': "drop_lease S lease s2 = (Ok (), s')" "requests s' = requests s2 @ [DeleteLease lease]"
      using new_lease_run(2) [OF assms(1)] by blast
    have "applied S L (requests s1) (requests s') name (base_text base) src" by (rule applied_later [OF that]) (simp add: s'(2))
    with s'(1) ensure(2,3) show ?thesis by auto
  qed
  note found = and_do_run [where f = "case base of Some p \<Rightarrow> ensure p | None \<Rightarrow> give True" and s = "(s, c)", OF ensure(1)]
  note client = and_do_run [where f = "on_client f" for f, OF on_client_run]
  show ?thesis
  proof (cases src)
    case (LayerTar t)
    obtain content s2 s3 where "import_stream_into_content_store S L (reader_stream (t, None)) lease None s1 = (Ok content, s2)"
        "import_local S lease (base_text base) name content s2 = (Ok (), s3)"
        "applied S L (requests s1) (requests s3) name (base_text base) src"
      using import_local_run [OF assms(1), of t lease s1 "base_text base" name] LayerTar by blast
    note run = this
    obtain s' where "drop_lease S lease s3 = (Ok (), s')" "restored S L (requests s') ((name, src) # rest)" using * [OF run(3)] by blast
    with run(1,2) LayerTar base show ?thesis
      by (intro exI [of _ s']) (simp add: import_entry_def Let_def found client give_def del: restored.simps)
  next
    case (LayerBlob m)
    obtain s2 where "pull_layer S L m lease (base_text base) name s1 = (Ok (), s2)"
        "applied S L (requests s1) (requests s2) name (base_text base) src"
      using pull_layer_run [OF assms(1), of m lease "base_text base" name s1] LayerBlob by blast
    note run = this
    obtain s' where "drop_lease S lease s2 = (Ok (), s')" "restored S L (requests s') ((name, src) # rest)" using * [OF run(2)] by blast
    with run(1) LayerBlob base show ?thesis
      by (intro exI [of _ s']) (simp add: import_entry_def Let_def found client give_def del: restored.simps)
  qed
qed

definition no_commit_of :: "ancestry \<Rightarrow> request list \<Rightarrow> bool" where
  "no_commit_of tree h \<longleftrightarrow> (\<forall>(name, src) \<in> set tree. \<not> committed_in h name)"

context blob_cache begin

lemma ensure_restores:
  assumes rel: "reliable S' L'" and fmt: "same_format hs S L S' L'"
  shows "stored S L (entries c) tree \<Longrightarrow> tree = (name, src) # rest \<Longrightarrow> length tree \<le> k \<Longrightarrow> no_commit_of tree (requests s) \<Longrightarrow>
    set (headers_of tree) \<subseteq> set hs \<Longrightarrow> \<exists>s'. ensure_snapshot k S' L' K name (s, c) = (Ok True, (s', c)) \<and> restored S' L' (requests s') tree"
proof (induction k arbitrary: name src rest tree s)
  case (Suc k)
  obtain b where b: "entries c (snapshot_key S name) = Some b" "entry_of L (base_name rest) src b" and rest: "stored S L (entries c) rest"
    using Suc.prems by auto
  let ?hdr = "\<lparr>entry_parent = base_name rest, entry_kind = kind_of src\<rparr>"
  let ?body = "and_do (on_client (stat_snapshot L' name)) (\<lambda>present. if present then give True
      else recover (import_snapshot S' L' K (ensure_snapshot k S' L' K) name) False)"
  let ?lock = "Lock (lock_file_name (ustr ''import/'' @ name))"
  define s1 where "s1 = s\<lparr>requests := requests s @ [?lock]\<rparr>"
  define s2 where "s2 = s\<lparr>requests := requests s @ [?lock, StatSnapshot name]\<rparr>"
  obtain lease s3 where lease: "new_lease S' s2 = (Ok lease, s3)" "requests s3 = requests s2 @ [CreateLease lease]"
    using new_lease_run(1) [OF rel] by blast
  have fresh: "no_commit_of tree (requests s3)" "\<not> committed_in (requests s1) name"
    using Suc.prems by (auto simp: no_commit_of_def committed_in_def lease(2) s1_def s2_def)
  have "\<exists>s4. (case base_name rest of Some p \<Rightarrow> ensure_snapshot k S' L' K p | None \<Rightarrow> give True) (s3, c) = (Ok True, (s4, c)) \<and>
      restored S' L' (requests s4) rest"
  proof (cases rest)
    case Nil
    then show ?thesis by (simp add: give_def)
  next
    case (Cons a rest')
    obtain p psrc where a: "a = (p, psrc)" by (cases a)
    have "no_commit_of rest (requests s3)" using fresh Suc.prems(2) by (simp add: no_commit_of_def)
    from Suc.IH [OF rest Cons [unfolded a] _ this] Suc.prems(2,3,5) Cons a show ?thesis by auto
  qed
  then obtain s4 where s4: "(case base_name rest of Some p \<Rightarrow> ensure_snapshot k S' L' K p | None \<Rightarrow> give True) (s3, c) = (Ok True, (s4, c))"
      "restored S' L' (requests s4) rest" by blast
  obtain s5 where s5: "import_entry S' L' (ensure_snapshot k S' L' K) name ?hdr (tar_of src, None) lease (s3, c) = (Ok True, (s5, c))"
      "restored S' L' (requests s5) tree"
    using import_entry_restores [OF rel s4 HOL.refl] Suc.prems(2) by blast
  have "import_snapshot S' L' K (ensure_snapshot k S' L' K) name (s2, c) = (Ok True, (s5, c))"
    using fmt b read_entry [OF fmt b(2)] Suc.prems(2,5) lease(1) s5(1)
    by (simp add: import_snapshot_def reads same_format_def and_do_def inspect_def lift_outcome_def on_client_def)
  moreover have "stat_snapshot L' name s1 = (Ok False, s2)"
    using rel fresh(2) by (simp add: outcome_simps reliable_def s1_def s2_def)
  ultimately have "?body (s1, c) = (Ok True, (s5, c))"
    by (simp add: and_do_def on_client_def recover_def)
  from while_locked_run [where f = ?body and s = s and key = "ustr ''import/'' @ name", OF rel this [unfolded s1_def]]
  have "ensure_snapshot (Suc k) S' L' K name (s, c) = (Ok True, (unlock (ustr ''import/'' @ name) s5, c))" by simp
  moreover have "restored S' L' (requests (unlock (ustr ''import/'' @ name) s5)) tree"
    by (rule restored_later [OF s5(2)]) (simp add: unlock_def)
  ultimately show ?case by blast
qed simp

end

section \<open>Reading errors\<close>








section \<open>The local cache\<close>

definition local_writer :: "nat \<Rightarrow> 'h local_backend \<Rightarrow> 'h scratch_file option" where
  "local_writer w c = (if w < length (lb_writers c) then Some (lb_writers c ! w) else None)"

text \<open>
  \<open>write_all\<close> with a file system that takes what it is given, and a shutdown that ends when all is on disk and the
  rename is done.
\<close>

definition settled :: "'h scratch_file \<Rightarrow> 'h scratch_file" where
  "settled f = f\<lparr>sf_disk := sf_disk f @ sf_flight f, sf_flight := []\<rparr>"

definition local_ops :: "(write_error \<Rightarrow> 'e) \<Rightarrow> ('e, 'h, 'h local_backend) cache_ops" where
  "local_ops err = \<lparr>
     read_key = (\<lambda>h c. map_option (\<lambda>b. (b, None)) (local_read c h)),
     write_key = local_write_key True,
     write_all = (\<lambda>w b c. case local_writer w c of
         None \<Rightarrow> (Inl (err OsError), c)
       | Some f \<Rightarrow> (case poll_write (Ready (Some (length b))) b f of
           (Ready (Ok _), f') \<Rightarrow> (Inr (), put_writer w f' c)
         | (Ready (Err e), f') \<Rightarrow> (Inl (err e), c)
         | _ \<Rightarrow> (Inl (err OsError), c))),
     shutdown_writer = (\<lambda>w c. case local_writer w c of
         None \<Rightarrow> (Inl (err OsError), c)
       | Some f \<Rightarrow> (case poll_shutdown (Ready True) (Ready True) (settled f) (lb_files c) of
           (Ready (Ok _), f', files) \<Rightarrow> (Inr (), put_writer w f' c\<lparr>lb_files := files\<rparr>)
         | (Ready (Err e), f', files) \<Rightarrow> (Inl (err e), c)
         | _ \<Rightarrow> (Inl (err OsError), c)))\<rparr>"

definition local_pending :: "'h local_backend \<Rightarrow> nat \<Rightarrow> ('h \<times> bytes) option" where
  "local_pending c w = (case local_writer w c of
       Some f \<Rightarrow> if sf_state f = Writing \<and> \<not> sf_moved f then Some (sf_destination f, sf_disk f @ sf_flight f) else None
     | None \<Rightarrow> None)"

definition local_opened :: "'h local_backend \<Rightarrow> 'h set" where
  "local_opened c = {h \<in> lb_locks c. lb_files c h = None}"

interpretation local_cache: blob_cache "local_ops err" lb_files local_pending local_opened
proof
  fix h c
  show "read_key (local_ops err) h c = map_option (\<lambda>b. (b, None)) (lb_files c h)"
    by (simp add: local_ops_def local_read_def)
next
  fix h c c'
  assume "write_key (local_ops err) h c = (None, c')"
  then show "lb_files c' = lb_files c \<and> local_opened c' = local_opened c \<and> (lb_files c h \<noteq> None \<or> h \<in> local_opened c)"
    by (auto simp: local_ops_def local_write_key_def local_opened_def Let_def split: if_split_asm)
next
  fix h c w c'
  assume "write_key (local_ops err) h c = (Some w, c')"
  then show "lb_files c h = None \<and> h \<notin> local_opened c \<and> lb_files c' = lb_files c \<and>
      local_opened c' = insert h (local_opened c) \<and> local_pending c' w = Some (h, [])"
    by (auto simp: local_ops_def local_write_key_def local_opened_def local_pending_def local_writer_def scratch_create_def Let_def
      split: if_split_asm)
next
  fix c w h b b' c'
  assume "local_pending c w = Some (h, b)" "write_all (local_ops err) w b' c = (Inr (), c')"
  then show "lb_files c' = lb_files c \<and> local_opened c' = local_opened c \<and> local_pending c' w = Some (h, b @ b')"
    by (auto simp: local_ops_def local_pending_def local_writer_def local_opened_def poll_write_def put_writer_def
      split: option.split_asm if_split_asm outcome.split_asm)
next
  fix c w h b c'
  assume "local_pending c w = Some (h, b)" "shutdown_writer (local_ops err) w c = (Inr (), c')"
  then show "lb_files c' = (lb_files c)(h \<mapsto> b) \<and> local_opened c' = local_opened c - {h}"
    by (auto simp: local_ops_def local_pending_def local_writer_def local_opened_def poll_shutdown_def poll_rename_def
      move_file_def settled_def put_writer_def split: option.split_asm if_split_asm)
qed

text \<open>
  C14: a snapshot that one client has exported to a directory, a second client that opens the directory gets with all
  its ancestors: the check of the snapshot succeeds, and what was done for it is to make each snapshot of the
  first client's layer, read back byte by byte or named at the registry, ancestors first. Of containerd the first client
  needs that its snapshots are what they are, the second that its requests are met.
\<close>

theorem snapshot_moves:
  assumes tree: "tree = (name, src) # rest" "has_tree S L (requests s) tree" "distinct (keys_of S tree)"
    and cache: "right_entries S L (lb_files c) tree" "\<forall>h \<in> lb_locks c. lb_files c h \<noteq> None"
    and exported: "export_snapshot k S L (local_ops err) name (s, c) = (Ok (), (s', c'))"
    and second: "reliable S' L'" "same_format (headers_of tree) S L S' L'" "no_commit_of tree (requests t)" "length tree \<le> k'"
  shows "\<exists>t'. ensure_snapshot k' S' L' (local_ops err') name (t, backend_new (lb_files c')) = (Ok True, (t', backend_new (lb_files c'))) \<and>
    restored S' L' (requests t') tree"
proof -
  have "local_opened c = {}" using cache(2) by (auto simp: local_opened_def)
  then have "stored S L (lb_files c') tree"
    using local_cache.export_stores [OF exported tree(1,2) cache(1) tree(3)] by simp
  then have "stored S L (lb_files (backend_new (lb_files c'))) tree" by (simp add: backend_new_def)
  then show ?thesis by (rule local_cache.ensure_restores [OF second(1,2) _ tree(1) second(4,3)]) simp
qed

end
