(* ===== verification/Left_Behind.thy ===== *)
theory Left_Behind
  imports Layer_Props
begin

text \<open>
  What commands leave behind: leases and tasks are noted before they are acquired and networks as soon as they are,
  and shutting the client down releases all that is noted, also when operations were aborted on their way.
\<close>

section \<open>What was acquired\<close>

text \<open>
  The resource that a request acquires, with the answer to it: which request it is, the resource, and whether it is noted
  later than the request is sent, as a network is, whose name only the answer tells. Then those of some requests after others.
\<close>

fun acquired_by :: "('e, 'p, 'h) services \<Rightarrow> request list \<Rightarrow> request \<Rightarrow> (nat \<times> nat \<times> dangling_resource) list" where
  "acquired_by S h (CreateLease lease) = [(length h, 0, DanglingLease lease)]"
| "acquired_by S h (CreateTask container _ _ _ _) = [(length h, 0, DanglingTask container)]"
| "acquired_by S h (CreateNetwork t) = (case networks S (h @ [CreateNetwork t]) of
       Inr network \<Rightarrow> [(length h, 1, DanglingNetwork network)] | Inl _ \<Rightarrow> [])"
| "acquired_by S h _ = []"

fun acquired :: "('e, 'p, 'h) services \<Rightarrow> request list \<Rightarrow> request list \<Rightarrow> (nat \<times> nat \<times> dangling_resource) list" where
  "acquired S h [] = []"
| "acquired S h (r # rs) = acquired_by S h r @ acquired S (h @ [r]) rs"

lemma acquired_append: "acquired S h (rs @ rs') = acquired S h rs @ acquired S (h @ rs) rs'"
  by (induction rs arbitrary: h) simp_all

lemma acquired_by_none: "\<not> acquires r \<Longrightarrow> acquired_by S h r = []"
  by (cases r) simp_all

lemma acquired_by_index: "(i, late, d) \<in> set (acquired_by S h r) \<Longrightarrow> i = length h \<and> late \<le> 1"
  by (cases r) (auto split: sum.split_asm)

lemma acquired_index: "(i, late, d) \<in> set (acquired S h rs) \<Longrightarrow> i < length h + length rs \<and> late \<le> 1"
  by (induction rs arbitrary: h) (auto dest: acquired_by_index, fastforce)

lemma acquired_late: "(i, 1, d) \<in> set (acquired S h rs) \<Longrightarrow> \<exists>n. d = DanglingNetwork n"
proof (induction rs arbitrary: h)
  case (Cons r rs)
  then show ?case by (cases r) (auto split: sum.split_asm)
qed simp

text \<open>
  A resource is noted with the number of requests sent by then, so that one can tell whether it is noted by the time its
  request, or the one after it, is sent. The networks of the requests \<open>lost\<close> need not be noted.
\<close>

definition noted :: "(nat \<times> dangling_resource) list \<Rightarrow> nat \<Rightarrow> dangling_resource \<Rightarrow> bool" where
  "noted ds n d \<longleftrightarrow> (\<exists>k \<le> n. (k, d) \<in> set ds)"

definition tracked :: "('e, 'p, 'h) services \<Rightarrow> nat set \<Rightarrow> client_state \<Rightarrow> bool" where
  "tracked S lost s \<longleftrightarrow> (\<forall>(i, late, d) \<in> set (acquired S [] (requests s)). noted (dangling s) (i + late) d \<or> late = 1 \<and> i \<in> lost)"

definition tracks :: "('e, 'p, 'h) services \<Rightarrow> client_state \<Rightarrow> client_state \<Rightarrow> bool" where
  "tracks S s s' \<longleftrightarrow> (\<forall>lost. tracked S lost s \<longrightarrow> tracked S lost s') \<and> set (dangling s) \<subseteq> set (dangling s') \<and>
     length (requests s) \<le> length (requests s')"

lemma noted_append: "noted (ds @ ds') n d \<longleftrightarrow> noted ds n d \<or> noted ds' n d"
  by (auto simp: noted_def)

lemma noted_single: "noted [(k, d')] n d \<longleftrightarrow> d' = d \<and> k \<le> n"
  by (auto simp: noted_def)

lemma tracked_snoc: "tracked S lost (s\<lparr>requests := requests s @ [r]\<rparr>) \<longleftrightarrow> tracked S lost s \<and>
    (\<forall>(i, late, d) \<in> set (acquired_by S (requests s) r). noted (dangling s) (i + late) d \<or> late = 1 \<and> i \<in> lost)"
  by (simp add: tracked_def acquired_append ball_Un)

lemma trackedD: "tracked S lost s \<Longrightarrow> (i, late, d) \<in> set (acquired S [] (requests s)) \<Longrightarrow>
    noted (dangling s) (i + late) d \<or> late = 1 \<and> i \<in> lost"
  by (auto simp: tracked_def)

lemma trackedI: "(\<And>i late d. (i, late, d) \<in> set (acquired S [] (requests s)) \<Longrightarrow>
    noted (dangling s) (i + late) d \<or> late = 1 \<and> i \<in> lost) \<Longrightarrow> tracked S lost s"
  unfolding tracked_def by (clarify, blast)

interpretation tracking: client_kept "tracks S" "\<lambda>r. \<not> acquires r" "\<lambda>_. True" for S
proof unfold_locales
  show "tracks S s (s\<lparr>requests := requests s @ [r]\<rparr>)" if "\<not> acquires r" for s r
    using that by (simp add: tracks_def tracked_snoc acquired_by_none)
  show "tracks S s (s\<lparr>dangling := dangling s @ ds\<rparr>)" for s ds
    by (auto simp: tracks_def tracked_def noted_append)
qed (auto simp: tracks_def tracked_def)

section \<open>Acquiring\<close>

lemma tracks_new_lease: "keeps (tracks S) (\<lambda>_. True) (new_lease S)"
  by (auto simp: keeps_def new_lease_defs tracks_def tracked_def acquired_append noted_append noted_single split: sum.split)

lemma tracks_get_network: "keeps (tracks S) (\<lambda>_. True) (get_network S shape)"
  unfolding get_network_def
proof (intro tracking.keeps_and_do tracking.keeps_pure)
  fix free :: "unit topology \<Rightarrow> namespace topology list option"
  have fresh: "keeps (tracks S) (\<lambda>_. True) (and_do (ask (networks S) (CreateNetwork shape))
      (\<lambda>network. and_do (register_dangling (DanglingNetwork network)) (\<lambda>_. give network)))"
    by (auto simp: keeps_def register_dangling_def update_def ask_def try_ask_def and_do_def
        lift_outcome_def of_sum_def give_def tracks_def tracked_def acquired_append noted_append noted_single split: sum.split)
  have pooled: "keeps (tracks S) (\<lambda>_. True) (and_do (update (\<lambda>s. s\<lparr>free_networks := f s\<rparr>)) (\<lambda>_. give n))" for f n
    by (simp add: keeps_def update_def and_do_def give_def tracks_def tracked_def)
  show "keeps (tracks S) (\<lambda>_. True) (case free shape of
       Some (n # ns) \<Rightarrow> and_do (update (\<lambda>s. s\<lparr>free_networks := (free_networks s)(shape \<mapsto> butlast (n # ns))\<rparr>)) (\<lambda>_. give (last (n # ns)))
     | _ \<Rightarrow> and_do (ask (networks S) (CreateNetwork shape)) (\<lambda>network. and_do (register_dangling (DanglingNetwork network)) (\<lambda>_. give network)))"
    by (cases "free shape"; cases "the (free shape)") (simp_all only: option.case list.case option.sel fresh pooled)
qed

text \<open>A container's task is noted before it is created.\<close>

definition tracks_with :: "('e, 'p, 'h) services \<Rightarrow> dangling_resource \<Rightarrow> ('e, 'a) client_action \<Rightarrow> bool" where
  "tracks_with S d f \<longleftrightarrow> (\<forall>s. noted (dangling s) (length (requests s)) d \<longrightarrow> tracks S s (snd (f s)))"

lemma noted_mono: "noted ds n d \<Longrightarrow> set ds \<subseteq> set ds' \<Longrightarrow> n \<le> n' \<Longrightarrow> noted ds' n' d"
  unfolding noted_def by (meson subsetD le_trans)

lemma tracks_noted: "tracks S s s' \<Longrightarrow> noted (dangling s) (length (requests s)) d \<Longrightarrow> noted (dangling s') (length (requests s')) d"
  unfolding tracks_def by (blast intro: noted_mono)

lemma tracks_with_any: "keeps (tracks S) Q f \<Longrightarrow> tracks_with S d f"
  by (simp add: keeps_def tracks_with_def)

lemma tracks_with_and_do:
  assumes "tracks_with S d f" "\<And>x. tracks_with S d (g x)"
  shows "tracks_with S d (and_do f g)"
  unfolding tracks_with_def
proof (intro allI impI)
  fix s :: client_state assume d: "noted (dangling s) (length (requests s)) d"
  obtain r s1 where f: "f s = (r, s1)" by (cases "f s")
  have s1: "tracks S s s1" using assms(1) d f by (force simp: tracks_with_def)
  then have "noted (dangling s1) (length (requests s1)) d" using d by (rule tracks_noted)
  then show "tracks S s (snd (and_do f g s))"
    using f s1 assms(2) by (cases r) (auto simp: and_do_def tracks_with_def intro: tracking.trans)
qed

lemma keeps_noted:
  assumes f: "keeps (tracks S) (\<lambda>_. True) f" and d: "\<And>s x s'. f s = (Ok x, s') \<Longrightarrow> noted (dangling s') (length (requests s')) (d x)"
    and g: "\<And>x. tracks_with S (d x) (g x)"
  shows "keeps (tracks S) (\<lambda>_. True) (and_do f g)"
  unfolding keeps_def
proof (intro allI conjI impI)
  fix s :: client_state
  obtain r s1 where r: "f s = (r, s1)" by (cases "f s")
  have s1: "tracks S s s1" using keepsD [OF f r] .
  show "tracks S s (snd (and_do f g s))"
  proof (cases r)
    case (Ok x)
    then have "tracks S s1 (snd (g x s1))" using d g r by (simp add: tracks_with_def)
    then show ?thesis using r Ok s1 by (auto simp: and_do_def intro: tracking.trans)
  qed (use r s1 in \<open>simp_all add: and_do_def\<close>)
qed simp

lemma create_container_noted:
  assumes "create_container S st command ns hosts mounts lease s = (Ok (container, p), s')"
  shows "noted (dangling s') (length (requests s')) (DanglingTask container)"
proof -
  let ?rest = "\<lambda>container. and_do (case user (config st) of
         Some u \<Rightarrow> construct_spec_user S mounts u
       | None \<Rightarrow> give (\<lparr>oci_uid = 0, oci_gid = 0, oci_additional_gids = []\<rparr>, ustr ''/root'')) (\<lambda>(u, home_dir).
     let p = \<lparr>args = shell command, env_entries = env_strings (config st) home_dir, cwd = working_dir (config st),
              spec_user = u, capabilities = docker_capabilities\<rparr> in
     and_do (write_hosts_file S hosts) (\<lambda>hosts_mount.
     and_do (ask (acks S) (CreateContainer container (snapshot st)
         \<lparr>process = p, netns = ns,
          bind_mounts = [bind_mount (ustr ''/etc/resolv.conf'') (ustr ''/etc/resolv.conf'') (ustr ''ro''), hosts_mount]\<rparr>
         lease)) (\<lambda>_.
     give (container, p))))"
  obtain s1 where s1: "?rest container s1 = (Ok (container, p), s')" "noted (dangling s1) (length (requests s1)) (DanglingTask container)"
    using assms by (fastforce simp: noted_append noted_single create_container_def register_dangling_def outcome_simps Let_def split: prod.split_asm)
  have "keeps (tracks S) (\<lambda>_. True) (?rest container)"
  proof -
    have "keeps (tracks S) (\<lambda>_. True) (construct_spec_user S mounts u)" for u
      unfolding construct_spec_user_def by (intro tracking.kept tracking.keeps_files) simp_all
    moreover have "keeps (tracks S) (\<lambda>_. True) (write_hosts_file S hosts)"
      unfolding write_hosts_file_def Let_def by (intro tracking.kept tracking.keeps_files) simp_all
    ultimately show ?thesis
      unfolding Let_def by (auto intro!: tracking.kept split: option.split prod.split)
  qed
  from keepsD [OF this s1(1)] s1(2) show ?thesis by (rule tracks_noted)
qed

lemma tracks_start_container: "keeps (tracks S) (\<lambda>_. True) (start_container S lease node ns hosts)"
proof -
  have task: "tracks_with S (DanglingTask container) (ask (acks S) (CreateTask container mounts stdout stderr lease))"
    for container mounts stdout stderr
    by (auto simp: tracks_with_def ask_def try_ask_def and_do_def lift_outcome_def of_sum_def tracks_def tracked_def acquired_append
        split: sum.split)
  have create: "keeps (tracks S) (\<lambda>_. True) (create_container S st command ns hosts mounts lease)" for st command ns hosts mounts
    by (rule tracking.keeps_create_container_asking) simp_all
  have wait: "keeps (tracks S) (\<lambda>_. True) (wait_healthy S st container p lease)" for st container p
    unfolding wait_healthy_def
    by (cases st) (simp_all add: tracking.keeps_pure, rule tracking.keeps_healthcheck_asking, simp_all)
  have quiet: "tracks_with S d (ask (fifos S) CreateFifo)" "tracks_with S d (ask (acks S) (StartProcess c e))"
      "tracks_with S d (give x :: ('a, handle) client_action)" for d c e x
    by (rule tracks_with_any [OF tracking.keeps_ask], simp) (rule tracks_with_any [OF tracking.keeps_ask], simp, rule tracks_with_any [OF tracking.keeps_pure(1)])
  have tail: "tracks_with S (DanglingTask container) (and_do (ask (fifos S) CreateFifo) (\<lambda>stdout.
     and_do (ask (fifos S) CreateFifo) (\<lambda>stderr.
     and_do (ask (acks S) (CreateTask container mounts stdout stderr lease)) (\<lambda>_.
     and_do (ask (acks S) (StartProcess container [])) (\<lambda>_.
     and_do (wait_healthy S (state node) container p lease) (\<lambda>_.
     give \<lparr>h_id = container, h_pipes = (stdout, stderr), h_snapshot = m, h_node = node\<rparr>))))))" for container p mounts m
    by (intro tracks_with_and_do task quiet tracks_with_any [OF wait])
  show ?thesis
    unfolding start_container_def
    by (intro tracking.keeps_and_do tracking.kept keeps_noted [where d = "\<lambda>(container, p). DanglingTask container"] create)
      (auto simp: tail create_container_noted split: prod.split)
qed

section \<open>Commands\<close>

lemma tracks_exec_internal: "keeps (tracks S) (\<lambda>_. True) (exec_internal S st command lease)"
proof -
  have up: "keeps (tracks S) (\<lambda>_. True) (spinup_topology S lease t)" for t
    by (rule tracking.keeps_spinup_starting(1)) (rule tracks_start_container)
  have down: "keeps (tracks S) (\<lambda>_. True) (spindown_topology S t name)" for t name
    by (rule tracking.keeps_spindown(1)) simp_all
  have wait: "keeps (tracks S) (\<lambda>_. True) (wait_for_exit S c e)" for c e
    unfolding wait_for_exit_def by (rule tracking.keeps_ask) simp
  have release: "keeps (tracks S) (\<lambda>_. True) (release_network shape n)" for shape n
    unfolding release_network_def by (rule tracking.keeps_update) (simp add: tracks_def tracked_def)
  show ?thesis
    unfolding exec_internal_def Let_def
    by (intro tracking.keeps_and_do tracks_get_network up wait)
      (auto intro!: tracking.keeps_and_do down release tracking.keeps_pure split: container_like.split prod.split)
qed

lemma tracks_drop_lease: "keeps (tracks S) (\<lambda>_. True) (drop_lease S lease)"
  unfolding drop_lease_def by (rule tracking.keeps_ask) simp

lemma tracks_commands:
  "keeps (tracks S) (\<lambda>_. True) (exec S st command)" "keeps (tracks S) (\<lambda>_. True) (exec_output S st command)"
  unfolding exec_def exec_output_def
  by (auto intro!: tracking.keeps_and_do tracks_new_lease tracks_exec_internal tracks_drop_lease tracking.keeps_pure
      tracking.keeps_of_sum split: prod.split)

lemma tracks_files:
  "keeps (tracks S) (\<lambda>_. True) (copy_fs_into_container S st src dest)" "keeps (tracks S) (\<lambda>_. True) (export_path S st path)"
  unfolding copy_fs_into_container_def export_path_def
  by (auto intro!: tracking.kept tracks_new_lease tracks_drop_lease tracking.keeps_commit tracking.keeps_lift)

context layer_kept begin

lemma keeps_append: "keeps_layer (append_entry K w b)" "keeps_layer (append_header L K w hdr)"
  unfolding append_entry_def append_header_def by (intro kept_layer errors; simp)+

lemma keeps_copy_stream: "keeps_layer (copy_stream K w items)"
  by (induction K w items rule: copy_stream.induct) (auto intro!: kept_layer keeps_append errors)

lemma keeps_list: "(v = [] \<Longrightarrow> keeps J P f) \<Longrightarrow> (\<And>x xs. v = x # xs \<Longrightarrow> keeps J P (g x xs)) \<Longrightarrow>
    keeps J P (case v of [] \<Rightarrow> f | x # xs \<Rightarrow> g x xs)"
  by (cases v) simp_all

lemma keeps_write_entry: "keeps_layer (write_entry S L K name info base)"
proof -
  have "keeps_layer (export_local S L K w name base)" for w
    unfolding export_local_def
    by (intro kept_layer keeps_list keeps_append keeps_copy_stream keeps_lease keeps_uuid keeps_ask requests_kept errors) simp_all
  then show ?thesis
    unfolding write_entry_def by (intro kept_layer keeps_append errors) simp_all
qed

lemma keeps_export_snapshot: "keeps_layer (export_snapshot k S L K name)"
proof (induction k arbitrary: name)
  case 0
  show ?case unfolding export_snapshot.simps by (rule lifted.keeps_lift) simp
next
  case (Suc k)
  show ?case unfolding export_snapshot.simps
    by (intro kept_layer keeps_write_entry Suc keeps_ask requests_kept errors) simp_all
qed

lemma keeps_export_snapshots_from:
  "S' = S \<Longrightarrow> keeps_layer (export_snapshots_from k S' L K st)" "S' = S \<Longrightarrow> keeps_layer (export_services k S' L K svcs)"
proof (induction k S' L K st and k S' L K svcs rule: export_snapshots_from_export_services.induct)
  case (1 k S' L K name e w u svcs)
  have "export_snapshots_from k S' L K (ContainerState name (ContainerConfig e w u svcs)) =
      and_do (recover (export_snapshot k S' L K name) ()) (\<lambda>_. export_services k S' L K svcs)"
    by (rule ext) simp
  with 1 show ?case by (auto intro!: kept_layer keeps_export_snapshot)
next
  case (2 k S' L K)
  have "export_services k S' L K [] = give ()" by (rule ext) simp
  then show ?case by (simp add: lifted.keeps_pure)
next
  case (3 k S' L K host st sc svcs)
  have "export_services k S' L K ((host, ServiceState st sc) # svcs) =
      and_do (export_snapshots_from k S' L K st) (\<lambda>_. export_services k S' L K svcs)"
    by (rule ext) simp
  with 3 show ?case by (auto intro!: kept_layer)
qed

end

interpretation tracking_layers: layer_kept "tracks S" "\<lambda>r. \<not> acquires r" "\<lambda>_. True" S for S
proof unfold_locales
  fix s k s' x
  show "tracks S s (s'\<lparr>requests := requests s' @ [Unlock k]\<rparr>)" if "tracks S (s\<lparr>requests := requests s @ [Lock k]\<rparr>) s'"
    using that by (auto simp: tracks_def tracked_snoc)
  show "tracks S s (s\<lparr>requests := requests s @ [Lock k]\<rparr>)" by (auto simp: tracks_def tracked_snoc)
qed (simp_all add: tracks_new_lease)

section \<open>Shutting down\<close>

definition client_new :: client_state where
  "client_new = \<lparr>requests = [], dangling = [], free_networks = Map.empty, uuids_drawn = 0\<rparr>"

text \<open>An operation of the client, run to its end, whatever that is: a result, an error or a panic.\<close>

inductive client_operation :: "('e, 'p, 'h) services \<Rightarrow> 'e stores \<Rightarrow> ('e, 'h, 'c) cache_ops \<Rightarrow> ('h \<Rightarrow> ustr) \<Rightarrow> client_state \<Rightarrow> client_state \<Rightarrow> bool"
  for S L K to_hex s where
  run_exec: "client_operation S L K to_hex s (snd (exec S st command s))"
| run_output: "client_operation S L K to_hex s (snd (exec_output S st command s))"
| run_copy: "client_operation S L K to_hex s (snd (copy_fs_into_container S st src dest s))"
| run_path: "client_operation S L K to_hex s (snd (export_path S st path s))"
| run_image: "client_operation S L K to_hex s (snd (pull_image S L to_hex name s))"
| run_service: "client_operation S L K to_hex s (snd (pull_service S L to_hex name s))"
| run_check: "client_operation S L K to_hex s (fst (snd (healthcheck_value k S L K st (s, c))))"
| run_export: "client_operation S L K to_hex s (fst (snd (export_snapshots_from k S L K st (s, c))))"

text \<open>
  An operation from \<open>s\<close> that would have ended in \<open>s'\<close> is aborted when the requests \<open>h\<close> are sent: what it noted before the last
  of them is noted, and of what it noted next at most a part.
\<close>

definition aborted_at :: "client_state \<Rightarrow> client_state \<Rightarrow> request list \<Rightarrow> (nat \<times> dangling_resource) list \<Rightarrow> bool" where
  "aborted_at s s' h ds \<longleftrightarrow> prefix (requests s) h \<and> prefix h (requests s') \<and> prefix (dangling s) ds \<and> prefix ds (dangling s') \<and>
     (\<forall>(k, d) \<in> set (dangling s'). k < length h \<longrightarrow> (k, d) \<in> set ds) \<and> (\<forall>(k, d) \<in> set ds. k \<le> length h)"

text \<open>
  What one thread of the engine does with the client: one operation after the other, ended or aborted. Other threads change the pool
  and draw names meanwhile, and the answers are whatever they are with theirs in between. The locks of an aborted operation are
  dropped. \<open>lost\<close> are the last requests of the aborted operations.
\<close>

inductive client_run :: "('e, 'p, 'h) services \<Rightarrow> 'e stores \<Rightarrow> ('e, 'h, 'c) cache_ops \<Rightarrow> ('h \<Rightarrow> ustr) \<Rightarrow> client_state \<Rightarrow> nat set \<Rightarrow> bool"
  for S L K to_hex where
  run_new: "requests s = [] \<Longrightarrow> dangling s = [] \<Longrightarrow> client_run S L K to_hex s {}"
| run_others: "client_run S L K to_hex s lost \<Longrightarrow> client_run S L K to_hex (s\<lparr>free_networks := pool, uuids_drawn := n\<rparr>) lost"
| run_operation: "client_run S L K to_hex s lost \<Longrightarrow> client_operation S L K to_hex s s' \<Longrightarrow> client_run S L K to_hex s' lost"
| run_abort: "client_run S L K to_hex s lost \<Longrightarrow> client_operation S L K to_hex s s' \<Longrightarrow> aborted_at s s' h ds \<Longrightarrow>
    client_run S L K to_hex (s\<lparr>requests := h @ map Unlock guards, dangling := ds\<rparr>)
      (if h = requests s then lost else insert (length h - 1) lost)"

lemma tracks_pull:
  "keeps (tracks S) (\<lambda>_. True) (pull_image S L to_hex name)" "keeps (tracks S) (\<lambda>_. True) (pull_service S L to_hex name)"
  unfolding pull_image_def pull_service_def
  by (intro tracking.kept tracking.split_keeps tracking_layers.keeps_fetch_image)+

lemma tracks_after: "keeps (tracks S) (\<lambda>_. True) f \<Longrightarrow> tracks S s (snd (f s))"
  by (simp add: keeps_def)

lemma tracks_operation: "client_operation S L K to_hex s s' \<Longrightarrow> tracks S s s'"
proof (induction rule: client_operation.induct)
  case (run_check k st c)
  then show ?case
    using tracking_layers.keeps_healthcheck_value(1) [OF HOL.refl, of S k L K st] by (fastforce simp: keeps_def)
next
  case (run_export k st c)
  then show ?case
    using tracking_layers.keeps_export_snapshots_from(1) [OF HOL.refl, of S k L K st] by (fastforce simp: keeps_def)
qed (simp_all add: tracks_after tracks_commands tracks_files tracks_pull)

lemma acquired_unlocks: "acquired S h (rs @ map Unlock ks) = acquired S h rs"
proof -
  have "acquired S h (map Unlock ks) = []" for h by (induction ks arbitrary: h) simp_all
  then show ?thesis by (simp add: acquired_append)
qed

lemma tracked_aborted:
  assumes s: "tracked S lost s" and s': "tracked S lost s'" and at: "aborted_at s s' h ds"
  shows "tracked S (if h = requests s then lost else insert (length h - 1) lost) (s\<lparr>requests := h @ map Unlock guards, dangling := ds\<rparr>)"
proof -
  obtain rs where rs: "requests s' = h @ rs" using at by (auto simp: aborted_at_def prefix_def)
  have "noted ds (i + late) d \<or> late = 1 \<and> i \<in> (if h = requests s then lost else insert (length h - 1) lost)"
    if a: "(i, late, d) \<in> set (acquired S [] h)" for i late d
  proof (cases "h = requests s")
    case True
    with trackedD [OF s] a have "noted (dangling s) (i + late) d \<or> late = 1 \<and> i \<in> lost" by simp
    moreover have "set (dangling s) \<subseteq> set ds" using at by (simp add: aborted_at_def set_mono_prefix)
    ultimately show ?thesis using True noted_mono by fastforce
  next
    case False
    have i: "i < length h" "late \<le> 1" using acquired_index [OF a] by simp_all
    have "noted (dangling s') (i + late) d \<or> late = 1 \<and> i \<in> lost" using trackedD [OF s'] a by (simp add: rs acquired_append)
    moreover have "noted ds (i + late) d \<or> late = 1 \<and> i = length h - 1" if n: "noted (dangling s') (i + late) d"
    proof -
      obtain k where k: "k \<le> i + late" "(k, d) \<in> set (dangling s')" using n by (auto simp: noted_def)
      show ?thesis
      proof (cases "k < length h")
        case True
        with k at show ?thesis by (auto simp: aborted_at_def noted_def)
      next
        case False
        with k(1) i show ?thesis by linarith
      qed
    qed
    ultimately show ?thesis using False by auto
  qed
  then show ?thesis by (intro trackedI) (simp add: acquired_unlocks)
qed

lemma client_run_tracked: "client_run S L K to_hex s lost \<Longrightarrow> tracked S lost s"
proof (induction rule: client_run.induct)
  case (run_operation s lost s')
  then show ?case using tracks_operation [OF run_operation(2)] by (simp add: tracks_def)
next
  case (run_abort s lost s' h ds guards)
  then show ?case using tracks_operation [OF run_abort(2)] by (intro tracked_aborted) (simp_all add: tracks_def)
qed (simp_all add: tracked_def)

lemma release_all_sends: "release_all S ds s = (Ok (), s\<lparr>requests := requests s @ map release_request ds\<rparr>)"
  by (induction ds arbitrary: s) (simp_all add: give_def and_do_def try_ask_def)

text \<open>
  C9: nothing is left behind. Let any number of threads run commands, pull images, copy files and move snapshots with one client,
  with whatever outcomes, aborted anywhere or not, where the client's list holds what they noted. Then shutting the client down
  asks for the release of every lease, task and network that was acquired, except a network whose creation was the last
  request of an aborted operation: that one is not noted yet.
\<close>

theorem nothing_left_behind:
  assumes "\<forall>(S, L, K, s, lost) \<in> threads. client_run S L K to_hex s lost"
    and "snd ` set (dangling c) = (\<Union>(S, L, K, s, lost) \<in> threads. snd ` set (dangling s))" and "shutdown S0 c = (r, c')"
  shows "r = Ok () \<and> dangling c' = [] \<and> (\<exists>released. requests c' = requests c @ released \<and>
    (\<forall>(S, L, K, s, lost) \<in> threads. \<forall>(i, late, d) \<in> set (acquired S [] (requests s)).
       release_request d \<in> set released \<or> (\<exists>n. d = DanglingNetwork n) \<and> i \<in> lost))"
proof -
  have c': "(r, c') = (Ok (), c\<lparr>dangling := [], requests := requests c @ map release_request (map snd (dangling c))\<rparr>)"
    using assms(3) by (simp add: shutdown_def inspect_def update_def and_do_def release_all_sends)
  have released: "release_request d \<in> set (map release_request (map snd (dangling c))) \<or> (\<exists>n. d = DanglingNetwork n) \<and> i \<in> lost"
    if t: "(S, L, K, s, lost) \<in> threads" and a: "(i, late, d) \<in> set (acquired S [] (requests s))" for S L K s lost i late d
  proof -
    have "noted (dangling s) (i + late) d \<or> late = 1 \<and> i \<in> lost"
      using assms(1) t trackedD [OF client_run_tracked a] by blast
    moreover have "d \<in> snd ` set (dangling c)" if "noted (dangling s) (i + late) d"
      using that t unfolding assms(2) by (force simp: noted_def)
    ultimately show ?thesis using acquired_late a by (auto simp: image_image)
  qed
  then have "\<forall>(S, L, K, s, lost) \<in> threads. \<forall>(i, late, d) \<in> set (acquired S [] (requests s)).
      release_request d \<in> set (map release_request (map snd (dangling c))) \<or> (\<exists>n. d = DanglingNetwork n) \<and> i \<in> lost"
    by (clarify, blast)
  with c' show ?thesis by (intro conjI exI [of _ "map release_request (map snd (dangling c))"]) (simp_all del: list.map_comp)
qed

end
