(* ===== verification/Network_Pool.thy ===== *)
theory Network_Pool
  imports Exec_Props "HOL-Library.Multiset"
begin

text \<open>
  Commands that run at the same time: every task is a command somewhere between the stages of \<open>exec_internal\<close>, and does its
  next stage at any time, interleaved with the others and with other requests. A command that fails or is aborted
  stays where it is: its containers may still be there, so its network counts as used.
\<close>

record command_task =
  task_state :: container_state
  task_command :: ustr
  task_lease :: ustr
  task_stage :: command_stage
  task_running :: bool

text \<open>The network a command has, from when it took it to when it put it back.\<close>

fun stage_networks :: "command_stage \<Rightarrow> namespace topology list" where
  "stage_networks Acquire = []"
| "stage_networks (SpinUp n) = [n]"
| "stage_networks (WaitExit n r) = [n]"
| "stage_networks (SpinDown n r) = [n]"
| "stage_networks (Release n c out) = [n]"
| "stage_networks (Finish c out) = []"

definition in_use :: "command_task list \<Rightarrow> namespace topology list" where
  "in_use ts = concat (map (\<lambda>t. stage_networks (task_stage t)) ts)"

definition task_step :: "('e, 'p, 'h) services \<Rightarrow> command_task \<Rightarrow> ('e, command_stage) client_action" where
  "task_step S t = exec_stage S (task_state t) (task_command t) (task_lease t) (task_stage t)"

inductive pool_step :: "('e, 'p, 'h) services \<Rightarrow> client_state \<times> command_task list \<Rightarrow> client_state \<times> command_task list \<Rightarrow> bool"
  for S where
  begin_command: "pool_step S (s, ts) (s, ts @ [\<lparr>task_state = st, task_command = command, task_lease = lease, task_stage = Acquire,
     task_running = True\<rparr>])"
| advance: "i < length ts \<Longrightarrow> task_running (ts ! i) \<Longrightarrow> task_step S (ts ! i) s = (Ok stage, s') \<Longrightarrow>
    pool_step S (s, ts) (s', ts[i := (ts ! i)\<lparr>task_stage := stage\<rparr>])"
| stop: "i < length ts \<Longrightarrow> task_running (ts ! i) \<Longrightarrow> task_step S (ts ! i) s = (r, s') \<Longrightarrow> (\<And>stage. r \<noteq> Ok stage) \<Longrightarrow>
    pool_step S (s, ts) (s', ts[i := (ts ! i)\<lparr>task_running := False\<rparr>])"
| abort: "i < length ts \<Longrightarrow> pool_step S (s, ts) (s, ts[i := (ts ! i)\<lparr>task_running := False\<rparr>])"
| elsewhere: "same_pool s s' \<Longrightarrow> requests s' = requests s @ rs \<Longrightarrow> pool_step S (s, ts) (s', ts)"

text \<open>A network that the sidecar makes differs from those it has made before.\<close>

definition new_networks :: "('e, 'p, 'h) services \<Rightarrow> bool" where
  "new_networks S \<longleftrightarrow> (\<forall>h shape g shape' n n'. networks S (h @ [CreateNetwork shape]) = Inr n \<longrightarrow>
     networks S (h @ CreateNetwork shape # g @ [CreateNetwork shape']) = Inr n' \<longrightarrow> n \<noteq> n')"

definition created :: "('e, 'p, 'h) services \<Rightarrow> request list \<Rightarrow> namespace topology \<Rightarrow> bool" where
  "created S rs n \<longleftrightarrow> (\<exists>h shape g. rs = h @ CreateNetwork shape # g \<and> networks S (h @ [CreateNetwork shape]) = Inr n)"

definition pooled :: "client_state \<Rightarrow> namespace topology \<Rightarrow> bool" where
  "pooled s n \<longleftrightarrow> (\<exists>shape ns. free_networks s shape = Some ns \<and> n \<in> set ns)"

definition exclusive :: "('e, 'p, 'h) services \<Rightarrow> client_state \<Rightarrow> namespace topology multiset \<Rightarrow> bool" where
  "exclusive S s used \<longleftrightarrow> pool_ok s \<and> (\<forall>shape ns. free_networks s shape = Some ns \<longrightarrow> distinct ns) \<and>
     (\<forall>n. count used n \<le> 1) \<and> (\<forall>n \<in># used. \<not> pooled s n) \<and>
     (\<forall>n. n \<in># used \<or> pooled s n \<longrightarrow> created S (requests s) n)"

lemma created_more: "created S rs n \<Longrightarrow> created S (rs @ later) n"
  unfolding created_def by (metis append.assoc append_Cons)

lemma unit_topology_eq:
  fixes t u :: "unit topology"
  shows "topology_eq t u \<Longrightarrow> t = u" and "children_eq ts us \<Longrightarrow> ts = (us :: unit topology list)"
  by (induction t u and ts us rule: topology_eq_children_eq.induct) simp_all

lemma same_shape:
  fixes shape shape' :: "unit topology"
  assumes "topology_eq shape n" "topology_eq shape' n"
  shows "shape = shape'"
  using assms by (intro unit_topology_eq(1)) (simp add: topology_eq_cmp topology_cmp_iff)

lemma pooled_upd:
  "pooled (s\<lparr>free_networks := (free_networks s)(shape \<mapsto> ns)\<rparr>) n \<longleftrightarrow>
     n \<in> set ns \<or> (\<exists>shape' ms. shape' \<noteq> shape \<and> free_networks s shape' = Some ms \<and> n \<in> set ms)"
  by (auto simp: pooled_def)

lemma get_networkE:
  assumes "get_network S shape s = (Ok n, s')"
  obtains (reused) ns where "free_networks s shape = Some (ns @ [n])" "s' = s\<lparr>free_networks := (free_networks s)(shape \<mapsto> ns)\<rparr>"
  | (made) "networks S (requests s @ [CreateNetwork shape]) = Inr n"
      "s' = s\<lparr>requests := requests s @ [CreateNetwork shape], dangling := dangling s @ [(Suc (length (requests s)), DanglingNetwork n)]\<rparr>"
proof (cases "free_networks s shape")
  case None
  with assms show ?thesis by (intro made) (auto simp: get_network_def register_dangling_def outcome_simps)
next
  case (Some ms)
  show ?thesis
  proof (cases ms rule: rev_cases)
    case Nil
    with assms Some show ?thesis by (intro made) (auto simp: get_network_def register_dangling_def outcome_simps)
  next
    case (snoc ks k)
    have "get_network S shape s = (Ok k, s\<lparr>free_networks := (free_networks s)(shape \<mapsto> ks)\<rparr>)"
    proof (cases ms)
      case (Cons x xs)
      then have "last (x # xs) = k" "butlast (x # xs) = ks" using snoc by (metis last_snoc, metis butlast_snoc)
      with Some Cons show ?thesis
        by (simp add: get_network_def and_do_def inspect_def update_def give_def del: last.simps butlast.simps)
    qed (use snoc in simp)
    with assms Some snoc show ?thesis by (intro reused) auto
  qed
qed

lemma take_exclusive:
  assumes I: "exclusive S s used" and S: "networks_fit S" "new_networks S"
    and c: "canonical shape" and g: "get_network S shape s = (Ok n, s')"
  shows "exclusive S s' (add_mset n used)"
proof -
  have pool: "pool_ok s'" using get_network_fits [OF _ S(1) c g] I by (simp add: exclusive_def)
  from g show ?thesis
  proof (cases rule: get_networkE)
    case (reused ns)
    have d: "distinct (ns @ [n])" using I reused(1) unfolding exclusive_def by blast
    have p: "pooled s n" unfolding pooled_def using reused(1) by (intro exI [of _ shape] exI [of _ "ns @ [n]"]) simp
    have out: "\<not> pooled s' n"
    proof
      assume "pooled s' n"
      then obtain shape' ms where "shape' \<noteq> shape" "free_networks s shape' = Some ms" "n \<in> set ms"
        using d unfolding reused(2) pooled_upd by auto
      then have "topology_eq shape' n" "topology_eq shape n"
        using I reused(1) unfolding exclusive_def pool_ok_def by fastforce+
      with \<open>shape' \<noteq> shape\<close> same_shape show False by blast
    qed
    have sub: "pooled s k" if "pooled s' k" for k
    proof -
      from that consider "k \<in> set ns" | shape' ms where "free_networks s shape' = Some ms" "k \<in> set ms"
        unfolding reused(2) pooled_upd by blast
      then show ?thesis
      proof cases
        case 1
        then show ?thesis unfolding pooled_def using reused(1) by (intro exI [of _ shape] exI [of _ "ns @ [n]"]) simp
      next
        case 2
        then show ?thesis unfolding pooled_def by blast
      qed
    qed
    have "n \<notin># used" using I p unfolding exclusive_def by blast
    then have "count (add_mset n used) k \<le> 1" for k using I by (auto simp: exclusive_def count_eq_zero_iff)
    moreover have "distinct ms" if "free_networks s' sh = Some ms" for sh ms
      using that I d unfolding reused(2) exclusive_def by (auto split: if_split_asm)
    moreover have "created S (requests s') k" if "k \<in># add_mset n used \<or> pooled s' k" for k
      using that I p sub unfolding exclusive_def by (auto simp: reused(2))
    ultimately show ?thesis using pool out sub I unfolding exclusive_def by auto
  next
    case made
    have "\<not> created S (requests s) n"
    proof
      assume "created S (requests s) n"
      then obtain h sh g where rs: "requests s = h @ CreateNetwork sh # g" and n: "networks S (h @ [CreateNetwork sh]) = Inr n"
        unfolding created_def by blast
      have "networks S (h @ CreateNetwork sh # g @ [CreateNetwork shape]) = Inr n" using made(1) by (simp add: rs)
      with S(2) n show False unfolding new_networks_def by blast
    qed
    then have fresh: "n \<notin># used" "\<not> pooled s n" using I unfolding exclusive_def by blast+
    have same: "pooled s' k \<longleftrightarrow> pooled s k" for k by (simp add: pooled_def made(2))
    have "created S (requests s') n" using made by (auto simp: created_def)
    moreover have "created S (requests s') k" if "created S (requests s) k" for k
      using created_more [OF that] by (simp add: made(2))
    moreover have "count (add_mset n used) k \<le> 1" for k
      using I fresh(1) by (auto simp: exclusive_def count_eq_zero_iff)
    ultimately show ?thesis using I pool fresh same unfolding exclusive_def by (auto simp: made(2))
  qed
qed

lemma release_exclusive:
  assumes I: "exclusive S s used" and n: "n \<in># used" "topology_eq shape n"
    and r: "release_network shape n s = (Ok () :: ('e client_error, unit) outcome, s')"
  shows "exclusive S s' (used - {#n#})"
proof -
  define ns where "ns = (case free_networks s shape of Some ns \<Rightarrow> ns | None \<Rightarrow> [])"
  have s': "s' = s\<lparr>free_networks := (free_networks s)(shape \<mapsto> ns @ [n])\<rparr>"
    using r by (simp add: release_network_def outcome_simps ns_def)
  have old: "pooled s k" if "k \<in> set ns" for k using that by (cases "free_networks s shape") (auto simp: ns_def pooled_def)
  have p: "pooled s' k \<longleftrightarrow> pooled s k \<or> k = n" for k
    using old unfolding s' pooled_upd by (auto simp: pooled_def ns_def split: option.split_asm) (metis option.case_eq_if option.sel)
  have one: "count used n = 1" using I n(1) by (metis count_greater_eq_one_iff exclusive_def le_antisym)
  have "n \<notin> set ns" using old I n(1) unfolding exclusive_def by blast
  moreover have "distinct ns" using I by (auto simp: ns_def exclusive_def split: option.split)
  ultimately have "distinct ms" if "free_networks s' sh = Some ms" for sh ms
    using that I unfolding s' exclusive_def by (auto split: if_split_asm)
  moreover have "pool_ok s'"
  proof -
    have "topology_eq shape k" if "k \<in> set ns" for k
      using that I by (cases "free_networks s shape") (auto simp: ns_def exclusive_def pool_ok_def)
    then show ?thesis using I n(2) unfolding s' exclusive_def pool_ok_def by auto
  qed
  moreover have "\<not> pooled s' k" if "k \<in># used - {#n#}" for k
    using that one I p by (metis count_single count_diff diff_self_eq_0 exclusive_def in_diffD not_in_iff One_nat_def)
  moreover have "count (used - {#n#}) k \<le> 1" for k
  proof -
    have "count used k \<le> 1" using I by (simp add: exclusive_def)
    then show ?thesis by simp
  qed
  moreover have "created S (requests s') k" if "k \<in># used - {#n#} \<or> pooled s' k" for k
    using that I n(1) p unfolding exclusive_def by (auto simp: s' dest: in_diffD)
  ultimately show ?thesis unfolding exclusive_def by blast
qed

lemma count_distinct: "\<forall>x. count (mset xs) x \<le> 1 \<Longrightarrow> distinct xs"
proof (induction xs)
  case (Cons x xs)
  have "count (mset xs) x = 0" using spec [OF Cons.prems, of x] by simp
  moreover have "count (mset xs) y \<le> 1" for y using spec [OF Cons.prems, of y] by (cases "x = y") (simp_all flip: count_mset_0_iff)
  ultimately show ?case using Cons.IH by (simp add: count_eq_zero_iff)
qed simp

lemma in_use_update:
  assumes "i < length ts"
  shows "mset (in_use (ts[i := t])) = mset (in_use ts) - mset (stage_networks (task_stage (ts ! i))) + mset (stage_networks (task_stage t))"
  unfolding upd_conv_take_nth_drop [OF assms] by (subst (2) id_take_nth_drop [OF assms]) (simp add: in_use_def)

lemma in_use_member: "t \<in> set ts \<Longrightarrow> n \<in> set (stage_networks (task_stage t)) \<Longrightarrow> n \<in># mset (in_use ts)"
  by (auto simp: in_use_def)

lemma elsewhere_exclusive:
  assumes "exclusive S s used" "same_pool s s'" "requests s' = requests s @ rs"
  shows "exclusive S s' used"
proof -
  have "pooled s' n \<longleftrightarrow> pooled s n" "pool_ok s' \<longleftrightarrow> pool_ok s" "free_networks s' = free_networks s" for n
    using assms(2) by (simp_all add: same_pool_def pooled_def pool_ok_def)
  moreover have "created S (requests s') n" if "created S (requests s) n" for n
    using created_more [OF that] assms(3) by simp
  ultimately show ?thesis using assms(1) unfolding exclusive_def by simp
qed

text \<open>Only the first and the last stage have to do with the pool.\<close>

lemma stage_quiet:
  assumes "exec_stage S st command lease stage s = (r, s')" "stage \<noteq> Acquire" "\<And>n c out. stage \<noteq> Release n c out"
  shows "same_pool s s' \<and> (\<exists>rs. requests s' = requests s @ rs) \<and> (\<forall>next_stage. r = Ok next_stage \<longrightarrow> stage_networks next_stage = stage_networks stage)"
proof -
  have wait: "keeps same_pool (\<lambda>_. True) (wait_for_exit S c e)" "keeps (sent (\<lambda>_. True)) (only (\<lambda>_. True)) (wait_for_exit S c e)" for c e
    unfolding wait_for_exit_def by (rule pool.keeps_ask, simp) (rule sent.keeps_ask, simp)
  have "keeps same_pool (\<lambda>_. True) (exec_stage S st command lease stage)"
    using assms(2,3) by (cases stage) (auto intro!: pool.kept pool.keeps_spinup(1) pool.keeps_spindown(1) wait split: prod.split)
  moreover have "keeps (sent (\<lambda>_. True)) (only (\<lambda>_. True)) (exec_stage S st command lease stage)"
    using assms(2,3) by (cases stage) (auto intro!: sent.kept sent.keeps_spinup(1) sent.keeps_spindown(1) wait simp: only_def split: prod.split)
  moreover have "stage_networks next_stage = stage_networks stage" if "r = Ok next_stage" for next_stage
    using assms that by (cases stage) (auto simp: outcome_simps split: prod.split_asm)
  ultimately show ?thesis using keepsD assms(1) by (fastforce simp: sent_def)
qed

definition tasks_ok :: "('e, 'p, 'h) services \<Rightarrow> client_state \<times> command_task list \<Rightarrow> bool" where
  "tasks_ok S a \<longleftrightarrow> exclusive S (fst a) (mset (in_use (snd a))) \<and>
     (\<forall>t \<in> set (snd a). \<forall>n \<in> set (stage_networks (task_stage t)). topology_eq (exec_shape (task_state t) (task_command t)) n)"

lemma exec_shape_canonical: "canonical (exec_shape st command)"
  unfolding exec_shape_def by (rule canonical_map_data [THEN iffD2]) (rule container_canonical)

lemma advance_ok:
  fixes S :: "('e, 'p, 'h) services"
  assumes S: "networks_fit S" "new_networks S" and ok: "tasks_ok S (s, ts)" and i: "i < length ts"
    and step: "task_step S (ts ! i) s = (Ok stage, s')"
  shows "tasks_ok S (s', ts[i := (ts ! i)\<lparr>task_stage := stage\<rparr>])"
proof -
  let ?t = "ts ! i" and ?shape = "exec_shape (task_state (ts ! i)) (task_command (ts ! i))"
  have ex: "exclusive S s (mset (in_use ts))" using ok by (simp add: tasks_ok_def)
  have fits: "topology_eq ?shape n" if "n \<in> set (stage_networks (task_stage ?t))" for n
    using ok i that by (simp add: tasks_ok_def)
  have update: "tasks_ok S (s', ts[i := ?t\<lparr>task_stage := stage\<rparr>])"
    if "exclusive S s' (mset (in_use ts) - mset (stage_networks (task_stage ?t)) + mset (stage_networks stage))"
      "\<And>n. n \<in> set (stage_networks stage) \<Longrightarrow> topology_eq ?shape n"
    using that ok by (auto simp: tasks_ok_def in_use_update [OF i] dest!: set_update_subset_insert [THEN subsetD])
  have quiet: ?thesis if q: "task_stage ?t \<noteq> Acquire" "\<And>n c out. task_stage ?t \<noteq> Release n c out"
  proof -
    note quiet = stage_quiet [OF step [unfolded task_step_def] q]
    have "mset (in_use ts) - mset (stage_networks (task_stage ?t)) + mset (stage_networks stage) = mset (in_use ts)"
      using in_use_update [OF i, of ?t] quiet by simp
    then show ?thesis using quiet fits by (intro update) (auto intro: elsewhere_exclusive [OF ex])
  qed
  show ?thesis
  proof (cases "task_stage ?t")
    case Acquire
    with step obtain n where n: "get_network S ?shape s = (Ok n, s')" "stage = SpinUp n" by (auto simp: task_step_def outcome_simps)
    have "topology_eq ?shape n" using get_network_fits [OF _ S(1) exec_shape_canonical n(1)] ex by (simp add: exclusive_def)
    then show ?thesis using take_exclusive [OF ex S exec_shape_canonical n(1)] Acquire n(2) by (intro update) simp_all
  next
    case (Release n c out)
    with step have r: "release_network ?shape n s = (Ok () :: ('e client_error, unit) outcome, s')" "stage = Finish c out"
      by (auto simp: task_step_def outcome_simps)
    have "n \<in># mset (in_use ts)" using in_use_member [of ?t ts n] i Release by simp
    from release_exclusive [OF ex this _ r(1)] fits Release r(2) show ?thesis by (intro update) simp_all
  qed (use quiet in simp_all)
qed

lemma stop_ok:
  assumes ok: "tasks_ok S (s, ts)" and i: "i < length ts" and s': "exclusive S s' (mset (in_use ts))"
  shows "tasks_ok S (s', ts[i := (ts ! i)\<lparr>task_running := False\<rparr>])"
proof -
  have "mset (in_use (ts[i := (ts ! i)\<lparr>task_running := False\<rparr>])) = mset (in_use ts)"
    using in_use_update [OF i, of "(ts ! i)\<lparr>task_running := False\<rparr>"] in_use_update [OF i, of "ts ! i"] by simp
  then show ?thesis using ok s' i by (auto simp: tasks_ok_def dest!: set_update_subset_insert [THEN subsetD])
qed

lemma pool_step_ok:
  fixes S :: "('e, 'p, 'h) services"
  assumes S: "networks_fit S" "new_networks S" and "pool_step S a b" "tasks_ok S a"
  shows "tasks_ok S b"
  using assms(3,4)
proof cases
  case (stop i ts s r s')
  have ex: "exclusive S s (mset (in_use ts))" using stop(1) assms(4) by (simp add: tasks_ok_def)
  have "exclusive S s' (mset (in_use ts))"
  proof (cases "task_stage (ts ! i)")
    case Acquire
    let ?shape = "exec_shape (task_state (ts ! i)) (task_command (ts ! i))"
    have "fst (get_network S ?shape s) \<noteq> Ok n" for n
      using stop(5) stop(6) [of "SpinUp n"] Acquire by (cases "get_network S ?shape s") (auto simp: task_step_def and_do_def give_def)
    moreover have "snd (get_network S ?shape s) = s'"
      using stop(5) Acquire by (auto simp: task_step_def and_do_def give_def split: prod.split_asm outcome.split_asm)
    ultimately have "s' = s\<lparr>requests := requests s @ [CreateNetwork ?shape]\<rparr>"
      by (auto simp: get_network_def and_do_def inspect_def update_def give_def ask_def try_ask_def lift_outcome_def of_sum_def
          register_dangling_def split: option.split_asm list.split_asm sum.split_asm)
    then show ?thesis using elsewhere_exclusive [OF ex] by (simp add: same_pool_def)
  next
    case (Release n c out)
    with stop(5,6) show ?thesis by (auto simp: task_step_def and_do_def release_network_def update_def give_def)
  next
    case (SpinUp n)
    then show ?thesis using stage_quiet [OF stop(5) [unfolded task_step_def]] elsewhere_exclusive [OF ex] by auto
  next
    case (WaitExit n r)
    then show ?thesis using stage_quiet [OF stop(5) [unfolded task_step_def]] elsewhere_exclusive [OF ex] by auto
  next
    case (SpinDown n r)
    then show ?thesis using stage_quiet [OF stop(5) [unfolded task_step_def]] elsewhere_exclusive [OF ex] by auto
  next
    case (Finish c out)
    with stop(5,6) show ?thesis by (auto simp: task_step_def give_def)
  qed
  then show ?thesis using stop_ok stop(1,2,3) assms(4) by blast
next
  case (begin_command s ts st command lease)
  then show ?thesis using assms(4) by (auto simp: tasks_ok_def in_use_def)
next
  case (advance i ts s stage s')
  then show ?thesis using advance_ok [OF S] assms(4) by blast
next
  case (abort i ts s)
  then show ?thesis using stop_ok [of S s ts i s] assms(4) by (simp add: tasks_ok_def)
next
  case (elsewhere s s' rs ts)
  then show ?thesis using elsewhere_exclusive assms(4) by (auto simp: tasks_ok_def)
qed

section \<open>The sidecar behind the pool\<close>

text \<open>The state of the sidecar after a history of requests, and a client whose networks come from it.\<close>

fun sidecar_step :: "network_env \<Rightarrow> request \<Rightarrow> network_state \<Rightarrow> network_state" where
  "sidecar_step E (CreateNetwork shape) s = snd (realize_topology E shape None s)"
| "sidecar_step E (DeleteNetwork n) s = snd (delete_network E n s)"
| "sidecar_step E _ s = s"

definition sidecar_after :: "network_env \<Rightarrow> network_state \<Rightarrow> request list \<Rightarrow> network_state" where
  "sidecar_after E s0 h = fold (sidecar_step E) h s0"

definition served_by :: "network_env \<Rightarrow> network_state \<Rightarrow> ('e, 'p, 'h) services \<Rightarrow> bool" where
  "served_by E s0 S \<longleftrightarrow> (\<forall>h shape n. networks S (h @ [CreateNetwork shape]) = Inr n \<longrightarrow>
     fst (realize_topology E shape None (sidecar_after E s0 h)) = Ok n)"

lemma served_from_sidecar: "served_by E s0 S \<Longrightarrow> from_sidecar E S"
  unfolding served_by_def from_sidecar_def by (metis surjective_pairing)

text \<open>The names of namespaces are drawn in order.\<close>

definition draws_on :: "network_state \<Rightarrow> network_state \<Rightarrow> bool" where
  "draws_on s s' \<longleftrightarrow> uuids s \<le> uuids s'"

interpretation draws: preorder_kept draws_on
  by unfold_locales (auto simp: draws_on_def)

lemma create_draws: "keeps draws_on (\<lambda>_. True) (create_network_namespace E bridges)"
  by (auto simp: keeps_def draws_on_def create_network_namespace_def fresh_uuid_def take_subnet_def Let_def
    split: prod.split option.split)

abbreviation draws :: "(network_state, network_error, 'a) action \<Rightarrow> bool" where
  "draws \<equiv> keeps draws_on (\<lambda>_. True)"

lemma realize_children_draws:
  assumes "\<And>t b. t \<in> set ts \<Longrightarrow> draws (realize_topology E t b)"
  shows "draws (realize_children E ts bs ns)"
  using assms
proof (induction ts arbitrary: bs ns)
  case Nil
  have "realize_children E [] bs ns = give (bs, ns)" by (rule ext) (simp add: give_def)
  then show ?case by (simp add: draws.keeps_pure)
next
  case (Cons t ts)
  let ?rest = "\<lambda>s name. and_do (realize_topology E t (Some \<lparr>bd_name = name, bd_ip = high_ip (subnet_counter s)\<rparr>)) (\<lambda>new_child.
      realize_children E ts (bs @ [\<lparr>bd_name = name, bd_ip = low_ip (subnet_counter s)\<rparr>]) (ns @ [new_child]))"
  have rest: "draws (?rest s name)" for s name
  proof (rule draws.keeps_and_do)
    show "draws (realize_children E ts bs ns)" for bs ns
      by (rule Cons.IH) (rule Cons.prems, simp)
  qed (rule Cons.prems, simp)
  have "draws_on s (snd (realize_children E (t # ts) bs ns s))" for s
  proof (cases "str_truncate 15 (uuid E (uuids s))")
    case None
    then show ?thesis by (simp add: fresh_uuid_def draws_on_def)
  next
    case (Some name)
    let ?s = "s\<lparr>uuids := Suc (uuids s), subnet_counter := subnet_counter s + 1\<rparr>"
    have "realize_children E (t # ts) bs ns s = ?rest s name ?s"
      using Some by (simp add: fresh_uuid_def take_subnet_def pick_subnet_def Let_def)
    moreover have a: "draws_on ?s (snd (?rest s name ?s))" using rest [of name s] unfolding keeps_def by blast
    moreover have b: "draws_on s ?s" by (simp add: draws_on_def)
    ultimately show ?thesis by (simp only: draws.trans [OF b a])
  qed
  then show ?case by (simp add: keeps_def)
qed

lemma realize_draws: "draws (realize_topology E t b)"
proof (induction t arbitrary: b)
  case (Topology u cs)
  show ?case
    unfolding realize_topology.simps [abs_def] Let_def
    by (auto simp: create_draws intro!: draws.keeps_and_do realize_children_draws Topology draws.keeps_pure split: prod.split)
qed

lemma delete_draws: "draws (delete_network E n)"
proof -
  have "draws (delete_namespaces E nss)" for nss
  proof (induction nss)
    case Nil
    have "delete_namespaces E [] = give ()" by (rule ext) (simp add: give_def)
    then show ?case by (simp add: draws.keeps_pure)
  next
    case (Cons ns nss)
    have "draws (delete_namespace E ns)"
      by (auto simp: keeps_def draws_on_def delete_namespace_def split: option.split)
    moreover have "delete_namespaces E (ns # nss) = and_do (delete_namespace E ns) (\<lambda>_. delete_namespaces E nss)"
      by (rule ext) simp
    ultimately show ?case using Cons by (simp add: draws.keeps_and_do)
  qed
  then show ?thesis by (simp add: keeps_def delete_network_def)
qed

lemma sidecar_draws: "draws_on s (fold (sidecar_step E) h s)"
proof (induction h arbitrary: s)
  case (Cons r h)
  have "draws_on s (sidecar_step E r s)" 
    using realize_draws delete_draws by (cases r) (simp_all add: keeps_def draws.refl)
  with Cons show ?case by (auto intro: draws.trans)
qed (simp add: draws.refl)

lemma served_new_networks:
  assumes S: "served_by E s0 S" and inj: "inj (\<lambda>k. netns_path E (uuid E k))"
  shows "new_networks S"
  unfolding new_networks_def
proof (intro allI impI)
  fix h shape g shape' n n'
  assume n: "networks S (h @ [CreateNetwork shape]) = Inr n"
    and n': "networks S (h @ CreateNetwork shape # g @ [CreateNetwork shape']) = Inr n'"
  let ?s = "sidecar_after E s0 h"
  let ?t = "sidecar_after E s0 (h @ CreateNetwork shape # g)"
  obtain s1 where r: "realize_topology E shape None ?s = (Ok n, s1)"
    using S n unfolding served_by_def by (metis surjective_pairing)
  have "networks S ((h @ CreateNetwork shape # g) @ [CreateNetwork shape']) = Inr n'" using n' by simp
  then obtain t1 where r': "realize_topology E shape' None ?t = (Ok n', t1)"
    using S unfolding served_by_def by (metis surjective_pairing)
  have "snd (realize_topology E shape None (fold (sidecar_step E) h s0)) = s1" using r by (simp add: sidecar_after_def)
  then have "draws_on s1 ?t" using sidecar_draws [of s1 E g] by (simp add: sidecar_after_def)
  then have le: "uuids s1 \<le> uuids ?t" by (simp add: draws_on_def)
  have paths: "\<exists>k. a \<le> k \<and> k < b \<and> ns_path (get_data n) = netns_path E (uuid E k)"
    if re: "realize_topology E shape None s = (Ok n, s')" and ab: "a = uuids s" "b = uuids s'" for shape s n s' a b
  proof -
    obtain ks where ks: "mset (map ns_path (preorder n)) = mset (map (netns_path E \<circ> uuid E) ks)" "set ks \<subseteq> {uuids s..<uuids s'}"
      using realize_made [OF re] by (auto simp: made_def)
    have "ns_path (get_data n) \<in> set (map ns_path (preorder n))" by (cases n) simp
    then have "ns_path (get_data n) \<in> set (map (netns_path E \<circ> uuid E) ks)" using mset_eq_setD [OF ks(1)] by simp
    then obtain k where "k \<in> set ks" "ns_path (get_data n) = netns_path E (uuid E k)" by auto
    with ks(2) ab show ?thesis by (intro exI [of _ k]) auto
  qed
  from paths [OF r refl refl] paths [OF r' refl refl] le inj show "n \<noteq> n'"
    unfolding inj_def by (metis leD le_trans)
qed

text \<open>
  C8: whatever commands run at the same time, each from stage to stage of \<open>exec_internal\<close>, and however they end, no network is
  used by two of them and none in use is in the pool, when the networks come from the sidecar daemon and the names
  it draws differ.
\<close>

theorem networks_exclusive:
  assumes "served_by E sidecar S" and "inj (\<lambda>k. netns_path E (uuid E k))" and "free_networks s0 = Map.empty"
    and "(pool_step S)\<^sup>*\<^sup>* (s0, []) (s, ts)"
  shows "distinct (in_use ts) \<and> (\<forall>n \<in> set (in_use ts). \<not> pooled s n)"
proof -
  have "tasks_ok S (s0, [])" by (simp add: tasks_ok_def in_use_def exclusive_def pool_ok_def pooled_def assms(3))
  moreover have "(pool_step S)\<^sup>*\<^sup>* a b \<Longrightarrow> tasks_ok S a \<Longrightarrow> tasks_ok S b" for a b
    by (induction rule: rtranclp_induct)
      (blast dest: pool_step_ok [OF from_sidecar_fits [OF served_from_sidecar [OF assms(1)]] served_new_networks [OF assms(1,2)]])+
  ultimately have "tasks_ok S (s, ts)" using assms(4) by blast
  then have "exclusive S s (mset (in_use ts))" by (simp add: tasks_ok_def)
  then have "\<forall>n. count (mset (in_use ts)) n \<le> 1" "\<forall>n \<in> set (in_use ts). \<not> pooled s n"
    unfolding exclusive_def set_mset_mset by blast+
  then show ?thesis using count_distinct by blast
qed

end
