(* ===== verification/Demo_Exec.thy ===== *)
theory Demo_Exec
  imports Exec_Parts Network_Pool
begin

text \<open>
  A client whose services always answer and whose networks come from the sidecar, and a container with a service on
  it: the properties on running commands at these.
\<close>

definition demo_services :: "nat \<Rightarrow> (unit, unit, bytes) services" where
  "demo_services code = \<lparr>
     acks = (\<lambda>_. Inr ()), mounted = (\<lambda>_. Inr []), fifos = (\<lambda>_. Inr (ustr ''/fifo'')), exits = (\<lambda>h. case last h of WaitProcess c e \<Rightarrow> Inr (if e = [] then code else 0) | _ \<Rightarrow> Inr code),
     outlives = (\<lambda>_ _. False),
     networks = (\<lambda>h. case last h of
         CreateNetwork shape \<Rightarrow> (case fst (realize_topology demo_net shape None (sidecar_after demo_net demo_start (butlast h))) of
           Ok n \<Rightarrow> Inr n | _ \<Rightarrow> Inl ())
       | _ \<Rightarrow> Inl ()),
     exported = (\<lambda>_. Inl ()), output_lines = (\<lambda>_ _ _. [Some (ustr ''out'')]), already_exists = (\<lambda>_. False),
     uuid_of = (\<lambda>k. [117, 48 + k]), retries = (\<lambda>_. 0), join_path = (@), strip_ansi = id,
     hashing = \<lparr>ser_int = \<lambda>_. [], ser_string = \<lambda>_. [], ser_container = \<lambda>_. [], ser_service = \<lambda>_. [], fs_digest = \<lambda>_. Inr []\<rparr>,
     ser_exec_inputs = (\<lambda>_ command. utf8_encode command), ser_copy_inputs = (\<lambda>_ h. h), blake3 = id, base64_url = map unat,
     fs_stream = (\<lambda>_. Inr []), encode_header = (\<lambda>_. Some [7]), decode_header = (\<lambda>_. None)\<rparr>"

definition demo_db :: service_state where
  "demo_db = ServiceState (ContainerState (ustr ''postgres'') (ContainerConfig [] (ustr ''/'') None [])) service_config_default"

definition demo_state :: container_state where
  "demo_state = ContainerState (ustr ''alpine'') (ContainerConfig [(ustr ''A'', ustr ''1'')] (ustr ''/'') None [(ustr ''db'', demo_db)])"

definition demo_ns :: "string \<Rightarrow> namespace" where
  "demo_ns name = \<lparr>ns_path = ustr name, ns_ip = 7, ns_adapters = []\<rparr>"

definition demo_client :: "request list \<Rightarrow> (nat \<times> dangling_resource) list \<Rightarrow> nat \<Rightarrow> client_state" where
  "demo_client rs ds k = \<lparr>requests = rs, dangling = ds,
     free_networks = [Topology () [Topology () []] \<mapsto> [Topology (demo_ns ''/a'') [Topology (demo_ns ''/b'') []]]], uuids_drawn = k\<rparr>"

lemmas run_defs = exec_def exec_internal_def get_network_def release_network_def wait_for_exit_def wait_within_def send_signal_def
  start_container_def create_container_def write_hosts_file_def write_file_def write_frame_def wait_healthy_def
  wait_for_command_success_def healthcheck_attempt_def stop_container_def exit_or_kill_def report_exit_def
  commit_snapshot_def new_lease_def drop_lease_def register_dangling_def new_uuid_def ask_def try_ask_def of_sum_def
  and_do_def give_def fail_def lift_outcome_def update_def inspect_def Let_def

lemma demo_topology: "container_topology command demo_state =
   Topology \<lparr>state = Container demo_state, hostname = None, cmd = Some command\<rparr>
     [Topology \<lparr>state = Service demo_db, hostname = Some (ustr ''db''), cmd = None\<rparr> []]"
  by (simp add: container_topology_def demo_state_def demo_db_def with_children_def sort_children_def)

lemma demo_answers [simp]:
  "acks (demo_services code) h = Inr ()" "mounted (demo_services code) h = Inr []" "fifos (demo_services code) h = Inr (ustr ''/fifo'')"
  "exits (demo_services code) h = (case last h of WaitProcess c e \<Rightarrow> Inr (if e = [] then code else 0) | _ \<Rightarrow> Inr code)" "outlives (demo_services code) h n = False"
  "output_lines (demo_services code) h a b = [Some (ustr ''out'')]" "uuid_of (demo_services code) k = [117, 48 + k]"
  "retries (demo_services code) n = 0" "strip_ansi (demo_services code) = id" "encode_header (demo_services code) x = Some [7]"
  by (simp_all add: demo_services_def)

lemma demo_internal: "\<exists>out s. exec_internal (demo_services 0) demo_state command lease (demo_client rs ds k) =
   (Ok (renamed (exec_name (demo_services 0) demo_state command) demo_state, out), s)"
  unfolding exec_internal_def Let_def demo_topology
  by (simp add: run_defs demo_client_def get_cmd_def get_hostname_def read_stdout_def demo_state_def demo_db_def demo_ns_def
    service_config_default_def committed_def with_children_def sort_children_def set_services_def update_config_def)

lemma demo_started: "\<exists>n r t. exec_stages (demo_services 7) demo_state command lease 3 Acquire (demo_client rs ds k) = (Ok (SpinDown n r), t)"
proof -
  have three: "3 = Suc (Suc (Suc 0))" by simp
  show ?thesis
    unfolding three exec_stages.simps exec_stage.simps exec_shape_def demo_topology
    by (simp add: run_defs demo_client_def get_cmd_def get_hostname_def demo_topology demo_ns_def with_children_def sort_children_def)
      (simp add: run_defs demo_state_def demo_db_def service_config_default_def)
qed

lemma demo_exec: "\<exists>s. exec (demo_services 0) demo_state command (demo_client [] [] 0) =
   (Ok (renamed (exec_name (demo_services 0) demo_state command) demo_state), s)"
proof -
  let ?lease = "[117, 48] :: ustr"
  obtain out s where "exec_internal (demo_services 0) demo_state command ?lease (demo_client [CreateLease ?lease] [(0, DanglingLease ?lease)] 1) =
     (Ok (renamed (exec_name (demo_services 0) demo_state command) demo_state, out), s)" using demo_internal by blast
  then show ?thesis
    by (simp add: exec_def new_lease_def drop_lease_def register_dangling_def new_uuid_def ask_def try_ask_def of_sum_def
      and_do_def give_def lift_outcome_def update_def demo_client_def)
qed

lemma demo_served: "served_by demo_net demo_start (demo_services code)"
  by (auto simp: served_by_def demo_services_def split: outcome.split_asm)

lemma demo_pool: "pool_ok (demo_client rs ds k)"
  by (simp add: pool_ok_def demo_client_def)

lemma demo_services_ok: "services_ok demo_state"
  by (simp add: demo_state_def demo_db_def bt_ok_def)

theorem exec_result_witness:
  "\<exists>s. exec (demo_services 0) demo_state (ustr ''make'') (demo_client [] [] 0) =
      (Ok (renamed (exec_name (demo_services 0) demo_state (ustr ''make'')) demo_state), s) \<and> pool_ok s"
proof -
  obtain s where s: "exec (demo_services 0) demo_state (ustr ''make'') (demo_client [] [] 0) =
      (Ok (renamed (exec_name (demo_services 0) demo_state (ustr ''make'')) demo_state), s)" using demo_exec by blast
  from exec_result [OF demo_services_ok served_from_sidecar [OF demo_served] demo_pool s] s show ?thesis by blast
qed

theorem distinct_snapshots_witness:
  "distinct (snapshots (renamed (exec_name (demo_services 0) demo_state (ustr ''make'')) demo_state))"
proof -
  obtain s where s: "exec (demo_services 0) demo_state (ustr ''make'') (demo_client [] [] 0) =
      (Ok (renamed (exec_name (demo_services 0) demo_state (ustr ''make'')) demo_state), s)" using demo_exec by blast
  have "plain_hosts demo_state" by (simp add: demo_state_def demo_db_def ustr_def slash_def)
  from distinct_snapshots [OF demo_services_ok this served_from_sidecar [OF demo_served] demo_pool s] show ?thesis .
qed

theorem failing_command_witness:
  "\<exists>s. exec_internal (demo_services 7) demo_state (ustr ''make'') [] (demo_client [] [] 0) =
      (Err (CommandFailed 7 (ustr ''make'') (ustr ''out'')), s) \<and> sent no_commit (demo_client [] [] 0) s"
proof -
  obtain n r t where run: "exec_stages (demo_services 7) demo_state (ustr ''make'') [] 3 Acquire (demo_client [] [] 0) = (Ok (SpinDown n r), t)"
    using demo_started by blast
  have "exit_status (demo_services 7) (requests t) (h_id (get_data r)) = Inr 7" by (simp add: exit_status_def Let_def)
  moreover have "output_text (demo_services 7) h pipes = ustr ''out''" for h pipes
    by (simp add: output_text_def read_stdout_def)
  ultimately show ?thesis using failing_command [OF served_from_sidecar [OF demo_served] demo_pool run, of 7] by simp
qed

theorem exec_order_witness:
  "\<exists>s (t :: handle topology). map_data h_node t = container_topology (ustr ''make'') demo_state \<and>
     logs started (demo_client [] [] 0) s (map h_id (postorder t))"
proof -
  obtain out s where s: "exec_internal (demo_services 0) demo_state (ustr ''make'') [] (demo_client [] [] 0) =
      (Ok (renamed (exec_name (demo_services 0) demo_state (ustr ''make'')) demo_state, out), s)" using demo_internal by blast
  have "uuid_of (demo_services 0) k \<noteq> []" for k by simp
  from exec_order [OF this served_from_sidecar [OF demo_served] demo_pool s] show ?thesis by blast
qed

definition demo_complete :: "(topology_node \<times> namespace) topology" where
  "demo_complete = Topology (\<lparr>state = Container demo_state, hostname = None, cmd = Some (ustr ''make'')\<rparr>, demo_ns ''/a'')
     [Topology (\<lparr>state = Service demo_db, hostname = Some (ustr ''db''), cmd = None\<rparr>, demo_ns ''/b'') []]"

lemma demo_spinup: "\<exists>r s. spinup_topology (demo_services 0) [] demo_complete (demo_client [] [] 0) = (Ok r, s)"
  by (simp add: run_defs demo_client_def demo_complete_def get_cmd_def get_hostname_def demo_state_def demo_db_def demo_ns_def
    service_config_default_def with_children_def sort_children_def)

theorem healthy_before_start_witness:
  "\<exists>r s before after. spinup_topology (demo_services 0) [] demo_complete (demo_client [] [] 0) = (Ok r, s) \<and>
     requests s = before @ after \<and> (\<forall>c \<in> set (children r). \<exists>p q. before = p @ q \<and> healthy (demo_services 0) (h_id (get_data c)) p)"
proof -
  obtain r s where r: "spinup_topology (demo_services 0) [] demo_complete (demo_client [] [] 0) = (Ok r, s)" using demo_spinup by blast
  have n: "uuid_of (demo_services 0) k \<noteq> []" for k by simp
  have "requests (demo_client [] [] 0) = []" by (simp add: demo_client_def)
  with healthy_before_start [OF r [unfolded demo_complete_def] _ _ n] r show ?thesis by fastforce
qed

theorem slash_collides_witness:
  "\<not> distinct (snapshots (renamed (ustr ''x'') (ContainerState [] (ContainerConfig [] [] None
     [(ustr ''a'', ServiceState (ContainerState [] (ContainerConfig [] [] None [(ustr ''b'', demo_db)])) service_config_default),
      (ustr ''a/b'', demo_db)]))))"
  by (rule slash_collides [where h = "ustr ''a''" and k = "ustr ''b''" and snap = "[]" and e = "[]" and w = "[]" and u = None
      and inner = demo_db and outer = demo_db and sc = service_config_default]) (simp add: ustr_def slash_def)

theorem process_environment_witness:
  "get_env_var (ustr ''HOME'') (config_from_oci (Some (env_strings (config demo_state) (ustr ''/root''))) None None) = Some (ustr ''/root'')"
  using process_environment [of "config demo_state" "ustr ''HOME''" "ustr ''/root''"] by (simp add: demo_state_def bt_ok_def ustr_def)

theorem hosts_file_lists_witness:
  "List.map_filter (Users.split_once 9) (text_lines (hosts_content [(ustr ''db'', 3323068417)])) = [(ustr ''198.18.0.1'', ustr ''db'')]"
  using hosts_file_lists [of "[(ustr ''db'', 3323068417)]"]
  by (simp add: ustr_def newline_char_def return_char_def ipv4_text_def dec.simps)

definition demo_files :: "unit file_system" where
  "demo_files = \<lparr>provider = (), producer = None\<rparr>"

lemma demo_copy: "\<exists>c s. copy_fs_into_container (demo_services 0) demo_state demo_files dest (demo_client [] [] 0) = (Ok c, s)"
  by (simp add: copy_fs_into_container_def copy_name_def fs_content_hash_def demo_services_def run_defs demo_client_def)

theorem copy_ignores_destination_witness:
  "\<exists>c s t. copy_fs_into_container (demo_services 0) demo_state demo_files (ustr ''a'') (demo_client [] [] 0) = (Ok c, s) \<and>
     copy_fs_into_container (demo_services 0) demo_state demo_files (ustr ''b'') (demo_client [] [] 0) = (Ok c, t) \<and>
     (\<exists>m bs. ImportFiles m (ustr ''/b'') bs \<in> set (requests t))"
proof -
  obtain c s where s: "copy_fs_into_container (demo_services 0) demo_state demo_files (ustr ''a'') (demo_client [] [] 0) = (Ok c, s)"
    using demo_copy by blast
  obtain d t where t: "copy_fs_into_container (demo_services 0) demo_state demo_files (ustr ''b'') (demo_client [] [] 0) = (Ok d, t)"
    using demo_copy by blast
  have "join_path (demo_services 0) (working_dir (config demo_state)) (here (ustr ''b'')) = ustr ''/b''"
    by (simp add: demo_services_def demo_state_def here_def ustr_def)
  with copy_ignores_destination [OF s t] s t show ?thesis by metis
qed

text \<open>
  Two commands take a network each; when the first is done, a third takes its network from the pool.
\<close>

definition plain_state :: container_state where
  "plain_state = ContainerState (ustr ''alpine'') (ContainerConfig [] (ustr ''/'') None [])"

definition demo_task :: "command_stage \<Rightarrow> command_task" where
  "demo_task stage = \<lparr>task_state = plain_state, task_command = ustr ''make'', task_lease = [], task_stage = stage, task_running = True\<rparr>"

lemma demo_advance:
  assumes "(pool_step S)\<^sup>*\<^sup>* a (s, ts)" "i < length ts" "ts ! i = demo_task stage"
    and "exec_stages S plain_state (ustr ''make'') [] k stage s = (Ok stage', s')"
  shows "(pool_step S)\<^sup>*\<^sup>* a (s', ts[i := demo_task stage'])"
  using assms
proof (induction k arbitrary: s ts stage)
  case 0
  then show ?case by (simp add: give_def) (metis list_update_id)
next
  case (Suc k)
  from Suc.prems(4) obtain g s1 where g: "exec_stage S plain_state (ustr ''make'') [] stage s = (Ok g, s1)"
    "exec_stages S plain_state (ustr ''make'') [] k g s1 = (Ok stage', s')" by (auto simp: outcome_simps)
  have "pool_step S (s, ts) (s1, ts[i := demo_task g])"
    using pool_step.advance [of i ts S s g s1] g(1) Suc.prems(2,3) by (simp add: demo_task_def task_step_def)
  with Suc.prems(1) have "(pool_step S)\<^sup>*\<^sup>* a (s1, ts[i := demo_task g])" by (rule rtranclp.rtrancl_into_rtrancl)
  from Suc.IH [OF this _ _ g(2)] Suc.prems(2) show ?case by simp
qed

lemma demo_begin: "(pool_step S)\<^sup>*\<^sup>* a (s, ts) \<Longrightarrow> (pool_step S)\<^sup>*\<^sup>* a (s, ts @ [demo_task Acquire])"
  unfolding demo_task_def by (erule rtranclp.rtrancl_into_rtrancl) (rule begin_command)

lemma demo_take:
  "\<exists>n s m s1 c out s2 k s3. exec_stages (demo_services 0) plain_state (ustr ''make'') [] 1 Acquire
      \<lparr>requests = [], dangling = [], free_networks = Map.empty, uuids_drawn = 0\<rparr> = (Ok (SpinUp n), s) \<and>
     exec_stages (demo_services 0) plain_state (ustr ''make'') [] 1 Acquire s = (Ok (SpinUp m), s1) \<and>
     exec_stages (demo_services 0) plain_state (ustr ''make'') [] 4 (SpinUp n) s1 = (Ok (Finish c out), s2) \<and>
     exec_stages (demo_services 0) plain_state (ustr ''make'') [] 1 Acquire s2 = (Ok (SpinUp k), s3) \<and> k = n"
proof -
  have "\<exists>n s m s1. exec_stages (demo_services 0) plain_state (ustr ''make'') [] 1 Acquire
      \<lparr>requests = [], dangling = [], free_networks = Map.empty, uuids_drawn = 0\<rparr> = (Ok (SpinUp n), s) \<and>
      exec_stages (demo_services 0) plain_state (ustr ''make'') [] 1 Acquire s = (Ok (SpinUp m), s1) \<and>
      free_networks s1 = Map.empty \<and> children n = []"
    by (simp add: run_defs demo_services_def topology_new_def exec_shape_def plain_state_def container_topology_def with_children_def sort_children_def
      sidecar_after_def demo_net_def demo_start_def
      create_network_namespace_def fresh_uuid_def take_subnet_def str_get_def case_prod_beta len_utf8_def str_upto_numeral ustr_def)
  then obtain n s m s1 where a: "exec_stages (demo_services 0) plain_state (ustr ''make'') [] 1 Acquire
      \<lparr>requests = [], dangling = [], free_networks = Map.empty, uuids_drawn = 0\<rparr> = (Ok (SpinUp n), s)"
      "exec_stages (demo_services 0) plain_state (ustr ''make'') [] 1 Acquire s = (Ok (SpinUp m), s1)"
      "free_networks s1 = Map.empty" "children n = []" by blast
  obtain ns where n: "n = Topology ns []" using a(4) by (cases n) simp
  have four: "4 = Suc (Suc (Suc (Suc 0)))" by simp
  have shape: "container_topology (ustr ''make'') plain_state = Topology \<lparr>state = Container plain_state, hostname = None, cmd = Some (ustr ''make'')\<rparr> []"
    by (simp add: plain_state_def container_topology_def with_children_def sort_children_def)
  have "\<exists>c out s2. exec_stages (demo_services 0) plain_state (ustr ''make'') [] 4 (SpinUp n) s1 = (Ok (Finish c out), s2) \<and>
      free_networks s2 (exec_shape plain_state (ustr ''make'')) = Some [n]"
    unfolding four exec_stages.simps exec_stage.simps exec_shape_def shape n
    by (simp add: run_defs a(3) shape get_cmd_def)
      (simp add: run_defs a(3) exec_shape_def plain_state_def container_topology_def get_cmd_def with_children_def sort_children_def committed_def set_services_def update_config_def)
  then obtain c out s2 where s2: "exec_stages (demo_services 0) plain_state (ustr ''make'') [] 4 (SpinUp n) s1 = (Ok (Finish c out), s2)"
    "free_networks s2 (exec_shape plain_state (ustr ''make'')) = Some [n]" by blast
  then have "\<exists>s3. exec_stages (demo_services 0) plain_state (ustr ''make'') [] 1 Acquire s2 = (Ok (SpinUp n), s3)"
    by (simp add: run_defs)
  with a s2 show ?thesis by blast
qed

theorem networks_exclusive_witness:
  "\<exists>s c out m n. (pool_step (demo_services 0))\<^sup>*\<^sup>* (\<lparr>requests = [], dangling = [], free_networks = Map.empty, uuids_drawn = 0\<rparr>, [])
      (s, [demo_task (Finish c out), demo_task (SpinUp m), demo_task (SpinUp n)]) \<and> m \<noteq> n"
proof -
  let ?s = "\<lparr>requests = [], dangling = [], free_networks = Map.empty, uuids_drawn = 0\<rparr> :: client_state"
  let ?stages = "exec_stages (demo_services 0) plain_state (ustr ''make'') []"
  obtain n s m s1 c out s2 k s3 where run: "?stages 1 Acquire ?s = (Ok (SpinUp n), s)" "?stages 1 Acquire s = (Ok (SpinUp m), s1)"
      "?stages 4 (SpinUp n) s1 = (Ok (Finish c out), s2)" "?stages 1 Acquire s2 = (Ok (SpinUp k), s3)" "k = n"
    using demo_take by blast
  have "(pool_step (demo_services 0))\<^sup>*\<^sup>* (?s, []) (?s, [])" by simp
  note start = demo_begin [OF demo_begin [OF this]]
  have one: "(pool_step (demo_services 0))\<^sup>*\<^sup>* (?s, []) (s, [demo_task (SpinUp n), demo_task Acquire])"
    using demo_advance [OF start _ _ run(1), of 0] by simp
  have two: "(pool_step (demo_services 0))\<^sup>*\<^sup>* (?s, []) (s1, [demo_task (SpinUp n), demo_task (SpinUp m)])"
    using demo_advance [OF one _ _ run(2), of 1] by simp
  have three: "(pool_step (demo_services 0))\<^sup>*\<^sup>* (?s, []) (s2, [demo_task (Finish c out), demo_task (SpinUp m)])"
    using demo_advance [OF two _ _ run(3), of 0] by simp
  have four: "(pool_step (demo_services 0))\<^sup>*\<^sup>* (?s, []) (s3, [demo_task (Finish c out), demo_task (SpinUp m), demo_task (SpinUp k)])"
    using demo_advance [OF demo_begin [OF three] _ _ run(4), of 2] by simp
  have inj: "inj (\<lambda>k. netns_path demo_net (uuid demo_net k))" by (rule injI) (simp add: demo_net_def)
  have "distinct (in_use [demo_task (Finish c out), demo_task (SpinUp m), demo_task (SpinUp k)])"
    using networks_exclusive [OF demo_served inj _ four] by simp
  then have "m \<noteq> k" by (simp add: in_use_def demo_task_def)
  with four show ?thesis by blast
qed

end
