(* ===== verification/Demo_Layers.thy ===== *)
theory Demo_Layers
  imports Layer_Transfer Left_Behind Demo_Exec
begin

text \<open>
  Two machines that share a directory: on the first a snapshot with its layer on top of one from a registry, the second
  has none. The properties on moving and checking snapshots at these.
\<close>

definition demo_layer :: full_layer_manifest where
  "demo_layer = \<lparr>flm_image = ustr ''alpine'',
     flm_layer = \<lparr>media_type = ustr ''tar'', digest = ustr ''sha256:0'', layer_size = 3\<rparr>\<rparr>"

definition demo_tree :: ancestry where
  "demo_tree = [(ustr ''c'', LayerTar [1, 2]), (ustr ''b'', LayerBlob demo_layer)]"

definition machine :: "(unit, unit, bytes) services" where
  "machine = (demo_services 0)\<lparr>mounted := \<lambda>_. Inr [bind_mount [] [] []],
     hashing := (hashing (demo_services 0))\<lparr>ser_string := map word_of_nat\<rparr>\<rparr>"

definition first_stores :: "unit stores" where
  "first_stores = \<lparr>
     stats = (\<lambda>h. case last h of
         StatSnapshot n \<Rightarrow>
           if n = ustr ''c'' then Inr (Some \<lparr>info_parent = ustr ''b'', info_manifest = None\<rparr>)
           else if n = ustr ''b'' then Inr (Some \<lparr>info_parent = [], info_manifest = Some (ustr ''{}'')\<rparr>) else Inl ()
       | _ \<Rightarrow> Inl ()),
     write_answers = (\<lambda>_. Inr [Inr (ustr ''sha256:1'')]), commit_answers = (\<lambda>_. Inr (Some (Inr (ustr ''sha256:1'')))),
     layer_tars = (\<lambda>_. Inr [Inr [1], Inr [2]]), manifests = (\<lambda>_. Inl ()), blobs = (\<lambda>_. Inr [Inr [7]]), permanent = (\<lambda>_. True),
     manifest_retries = 3, layer_retries = 3, parse_reference = Some, parse_config = (\<lambda>_. None),
     manifest_json = (\<lambda>_. Some (ustr ''{}'')), parse_manifest = (\<lambda>_. Some demo_layer),
     encode_entry = (\<lambda>x. Some [if entry_kind x = LocalEntry then 1 else 2]),
     decode_entry = (\<lambda>b. if b = [1] then Some \<lparr>entry_parent = Some (ustr ''b''), entry_kind = LocalEntry\<rparr>
        else Some \<lparr>entry_parent = None, entry_kind = RemoteEntry demo_layer\<rparr>),
     shell_join = concat\<rparr>"

definition second_stores :: "unit stores" where
  "second_stores = first_stores\<lparr>stats := \<lambda>h. case last h of
       StatSnapshot n \<Rightarrow> if committed_in (butlast h) n then Inr None else Inl () | _ \<Rightarrow> Inl ()\<rparr>"

lemma machine_answers [simp]:
  "acks machine h = Inr ()" "mounted machine h = Inr [bind_mount [] [] []]" "uuid_of machine k = [117, 48 + k]"
  by (simp_all add: machine_def demo_services_def)

lemma demo_keys_distinct: "distinct (keys_of machine demo_tree)"
  by (simp add: keys_of_def demo_tree_def snapshot_key_def hash_from_data_def machine_def demo_services_def ustr_def)

lemma demo_has_tree: "has_tree machine first_stores h demo_tree"
proof -
  have "concat bs = [1, 2]" if "layer_tars first_stores h = Inr (map Inr bs)" for h bs
    using that by (auto simp: first_stores_def map_eq_Cons_conv)
  then show ?thesis
    by (auto simp: demo_tree_def has_snapshot_def base_text_def ustr_def) (auto simp: first_stores_def ustr_def)
qed

lemma demo_exported: "\<exists>s' c'. export_snapshot 2 machine first_stores (local_ops (\<lambda>_. ())) (ustr ''c'') (demo_client [] [] 0, backend_new (\<lambda>_. None)) =
   (Ok (), (s', c'))"
proof -
  note defs = local_ops_def local_write_key_def local_writer_def local_read_def backend_new_def scratch_create_def poll_write_def
    poll_shutdown_def poll_rename_def move_file_def settled_def put_writer_def machine_def demo_services_def demo_client_def snapshot_key_def hash_from_data_def
    append_header_def append_entry_def write_frame_def export_local_def new_uuid_def new_lease_def drop_lease_def register_dangling_def
    ask_def try_ask_def of_sum_def and_do_def give_def fail_def lift_outcome_def update_def on_client_def on_cache_def Let_def
  show ?thesis
    by (simp add: numeral_2_eq_2 first_stores_def parent_of_def write_entry_def defs ustr_def)
qed

lemma second_present: "present second_stores h name \<longleftrightarrow> committed_in h name"
  by (simp add: present_def second_stores_def)

lemma second_reliable: "reliable machine second_stores"
proof -
  have "\<exists>ds. write_answers second_stores h = Inr (map Inr ds)" for h
    by (intro exI [of _ "[ustr ''sha256:1'']"]) (simp add: second_stores_def first_stores_def)
  then show ?thesis unfolding reliable_def by (simp add: second_present) (simp add: second_stores_def first_stores_def)
qed

lemma demo_format: "same_format (headers_of demo_tree) machine first_stores machine second_stores"
  by (auto simp: same_format_def codec_def demo_tree_def second_stores_def first_stores_def)

theorem snapshot_moves_witness:
  "\<exists>(c' :: bytes local_backend) t'. ensure_snapshot 2 machine second_stores (local_ops (\<lambda>_. ())) (ustr ''c'') (demo_client [] [] 0, backend_new (lb_files c')) =
     (Ok True, (t', backend_new (lb_files c'))) \<and> restored machine second_stores (requests t') demo_tree"
proof -
  obtain s' c' where x: "export_snapshot 2 machine first_stores (local_ops (\<lambda>_. ())) (ustr ''c'')
      (demo_client [] [] 0, backend_new (\<lambda>_. None)) = (Ok (), (s', c'))" using demo_exported by blast
  have cache: "right_entries machine first_stores (lb_files (backend_new (\<lambda>_. None))) demo_tree"
      "\<forall>h \<in> lb_locks (backend_new (\<lambda>_. None)). lb_files (backend_new (\<lambda>_. None)) h \<noteq> None"
    by (simp_all add: demo_tree_def backend_new_def)
  have fresh: "no_commit_of demo_tree (requests (demo_client [] [] 0))" "length demo_tree \<le> 2"
    by (simp_all add: no_commit_of_def committed_in_def demo_client_def demo_tree_def)
  from snapshot_moves [where err' = "\<lambda>_. ()", OF demo_tree_def demo_has_tree demo_keys_distinct cache x second_reliable demo_format fresh] show ?thesis by blast
qed

lemma second_keeps: "keeps_snapshots machine second_stores"
  by (auto simp: keeps_snapshots_def second_present committed_in_def)

theorem healthcheck_value_sound_witness:
  "\<exists>s' c'. healthcheck_value 1 machine second_stores (local_ops (\<lambda>_. ())) demo_state
       (demo_client [CommitSnapshot (ustr ''alpine'') [], CommitSnapshot (ustr ''postgres'') []] [] 0, backend_new (\<lambda>_. None)) =
     (Ok True, (s', c')) \<and> present second_stores (requests s') (ustr ''postgres'')"
proof -
  let ?s = "demo_client [CommitSnapshot (ustr ''alpine'') [], CommitSnapshot (ustr ''postgres'') []] [] 0"
  let ?c = "backend_new (\<lambda>_. None) :: bytes local_backend"
  have run: "\<exists>s'. ensure_snapshot 1 machine second_stores (local_ops (\<lambda>_. ())) name (s, ?c) = (Ok True, (s', ?c)) \<and>
      set (requests s) \<subseteq> set (requests s')" if "committed_in (requests s) name" for name s
    using that by (auto simp: while_locked_def acquire_file_lock_def on_client_def try_ask_def and_do_def give_def unlock_def
      stat_snapshot_def second_stores_def committed_in_def)
  have "committed_in (requests ?s) (ustr ''alpine'')" by (auto simp: committed_in_def demo_client_def)
  from run [OF this] obtain s1 where s1: "ensure_snapshot 1 machine second_stores (local_ops (\<lambda>_. ())) (ustr ''alpine'') (?s, ?c) =
      (Ok True, (s1, ?c))" "set (requests ?s) \<subseteq> set (requests s1)" by blast
  then have "committed_in (requests s1) (ustr ''postgres'')" by (auto simp: committed_in_def demo_client_def)
  from run [OF this] obtain s2 where s2: "ensure_snapshot 1 machine second_stores (local_ops (\<lambda>_. ())) (ustr ''postgres'') (s1, ?c) =
      (Ok True, (s2, ?c))" by blast
  have h: "healthcheck_value 1 machine second_stores (local_ops (\<lambda>_. ())) demo_state (?s, ?c) = (Ok True, (s2, ?c))"
    using s1(1) s2 by (simp add: demo_state_def demo_db_def and_do_def give_def del: ensure_snapshot.simps One_nat_def)
  have "ustr ''postgres'' \<in> set (snapshots demo_state)" by (simp add: demo_state_def demo_db_def)
  from healthcheck_value_sound [OF second_keeps h this] h show ?thesis by blast
qed

definition failing_cache :: "(unit, bytes, unit) cache_ops" where
  "failing_cache = \<lparr>read_key = (\<lambda>h c. Some (le_bytes 8 1 @ [1, 5], Some ())), write_key = (\<lambda>h c. (None, c)),
     write_all = (\<lambda>w b c. (Inl (), c)), shutdown_writer = (\<lambda>w c. (Inl (), c))\<rparr>"

definition registry :: "unit stores" where
  "registry = second_stores\<lparr>manifests := \<lambda>_. Inr ([flm_layer demo_layer], ustr ''sha256:9'', ustr ''{}''), parse_config := \<lambda>_. Some None\<rparr>"

lemma registry_answers [simp]:
  "manifests registry h = Inr ([flm_layer demo_layer], ustr ''sha256:9'', ustr ''{}'')" "parse_config registry x = Some None"
  "parse_reference registry name = Some name" "manifest_retries registry = 3" "layer_retries registry = 3"
  "manifest_json registry m = Some (ustr ''{}'')" "present registry h name \<longleftrightarrow> committed_in h name"
  using second_present [of h name] by (simp_all add: registry_def second_stores_def first_stores_def present_def)

lemma demo_pull: "\<exists>st s'. pull_image machine registry (map unat) (ustr ''alpine'') (demo_client [] [] 0) = (Ok st, s') \<and>
   (\<exists>name key json lease. CommitPulled name key json lease \<in> set (requests s'))"
proof -
  have stat: "stat_snapshot registry name s = (Ok (committed_in (requests s) name), s\<lparr>requests := requests s @ [StatSnapshot name]\<rparr>)" for name s
    by (simp add: outcome_simps)
  have "committed_in [PullManifest (ustr ''alpine''), Lock a, CreateLease l, Lock b] name \<longleftrightarrow> False" for a b l name
    by (simp add: committed_in_def)
  note fresh = this
  show ?thesis
    by (simp add: pull_image_def fetch_image_def with_lock_def acquire_file_lock_def eval_nat_numeral stat fresh demo_client_def pull_layer_def
      pull_attempt_def fetch_layer_def unlock_def new_uuid_def new_lease_def drop_lease_def register_dangling_def
      ask_def try_ask_def of_sum_def and_do_def give_def fail_def lift_outcome_def update_def Let_def del: upt_Suc)
      (simp add: committed_in_def)
qed

theorem pull_image_snapshot_witness:
  "\<exists>st s'. pull_image machine registry (map unat) (ustr ''alpine'') (demo_client [] [] 0) = (Ok st, s') \<and>
     snapshot st = stack_name machine (map unat) [ustr ''sha256:0'']"
proof -
  obtain st s' where r: "pull_image machine registry (map unat) (ustr ''alpine'') (demo_client [] [] 0) = (Ok st, s')"
    using demo_pull by blast
  have "keeps_snapshots machine registry"
    using second_keeps by (simp add: keeps_snapshots_def second_present)
  from pull_image_snapshot [OF this r] have "snapshot st = stack_name machine (map unat) [ustr ''sha256:0'']"
    by (auto simp: demo_layer_def)
  with r show ?thesis by blast
qed

theorem layers_committed_under_lock_witness:
  "\<exists>r s' name before after. pull_image machine registry (map unat) (ustr ''alpine'') (demo_client [] [] 0) = (r, s') \<and>
     under_lock machine registry [] name before after"
proof -
  obtain st s' name key json lease where r: "pull_image machine registry (map unat) (ustr ''alpine'') (demo_client [] [] 0) = (Ok st, s')"
    and c: "CommitPulled name key json lease \<in> set (requests s')" using demo_pull by blast
  from c obtain before after where "requests s' = requests (demo_client [] [] 0) @ before @ CommitPulled name key json lease # after"
    by (auto simp: demo_client_def dest: split_list)
  from layers_committed_under_lock [OF r this] r show ?thesis by (auto simp: demo_client_def)
qed

section \<open>Shutting down\<close>

text \<open>
  Two threads, and a client that cannot mount: one runs a command and is aborted while it waits for its network, the other one
  exports a path, which fails.
\<close>

definition unmounted :: "(unit, unit, bytes) services" where
  "unmounted = (demo_services 0)\<lparr>networks := \<lambda>_. Inr (Topology (demo_ns ''/a'') []), mounted := \<lambda>_. Inl ()\<rparr>"

definition plain_start :: "nat \<Rightarrow> client_state" where
  "plain_start n = \<lparr>requests = [], dangling = [], free_networks = Map.empty, uuids_drawn = n\<rparr>"

lemma unmounted_answers [simp]:
  "acks unmounted h = Inr ()" "mounted unmounted h = Inl ()" "uuid_of unmounted k = [117, 48 + k]"
  "networks unmounted h = Inr (Topology (demo_ns ''/a'') [])"
  by (simp_all add: unmounted_def)

lemma plain_topology: "container_topology command plain_state =
   Topology \<lparr>state = Container plain_state, hostname = None, cmd = Some command\<rparr> []"
  by (simp add: container_topology_def plain_state_def with_children_def sort_children_def)

lemma demo_unmounted: "\<exists>r s. exec unmounted plain_state command (plain_start 0) = (r, s) \<and>
   requests s = [CreateLease [117, 48], CreateNetwork (Topology () []), PrepareSnapshot [117, 49] (ustr ''alpine'') [117, 48]] \<and>
   dangling s = [(0, DanglingLease [117, 48]), (2, DanglingNetwork (Topology (demo_ns ''/a'') []))]"
  unfolding exec_def exec_internal_def Let_def plain_topology
  by (simp add: run_defs plain_start_def) (simp add: plain_state_def)

theorem nothing_left_behind_witness:
  "\<exists>s s' c. client_run unmounted registry failing_cache (map unat) s {1} \<and> client_run unmounted registry failing_cache (map unat) s' {} \<and>
     dangling c = dangling s @ dangling s' \<and>
     {DeleteLease [117, 48], DeleteLease [117, 54]} \<subseteq> set (requests (snd (shutdown unmounted c)))"
proof -
  let ?K = "failing_cache :: (unit, bytes, unit) cache_ops"
  obtain r e where e: "exec unmounted plain_state [] (plain_start 0) = (r, e)"
    "requests e = [CreateLease [117, 48], CreateNetwork (Topology () []), PrepareSnapshot [117, 49] (ustr ''alpine'') [117, 48]]"
    "dangling e = [(0, DanglingLease [117, 48]), (2, DanglingNetwork (Topology (demo_ns ''/a'') []))]"
    using demo_unmounted by blast
  let ?h = "[CreateLease [117, 48], CreateNetwork (Topology () [])]"
  let ?ds = "[(0 :: nat, DanglingLease [117, 48])]"
  let ?s = "(plain_start 0)\<lparr>requests := ?h @ map Unlock [], dangling := ?ds\<rparr>"
  let ?s' = "snd (export_path unmounted demo_state [] (plain_start 5))"
  let ?c = "(plain_start 0)\<lparr>dangling := dangling ?s @ dangling ?s'\<rparr>"
  have start: "client_run unmounted registry ?K (map unat) (plain_start n) {}" for n by (rule run_new) (simp_all add: plain_start_def)
  have op: "client_operation unmounted registry ?K (map unat) (plain_start 0) e"
    using run_exec [of unmounted registry ?K "map unat" "plain_start 0" plain_state "[]"] e(1) by simp
  have "aborted_at (plain_start 0) e ?h ?ds" by (simp add: aborted_at_def e(2,3) plain_start_def)
  from run_abort [OF start op this, of "[]"] have one: "client_run unmounted registry ?K (map unat) ?s {1}"
    by (simp add: plain_start_def)
  have two: "client_run unmounted registry ?K (map unat) ?s' {}"
    by (rule run_operation [OF start run_path])
  have lease: "dangling ?s' = [(0, DanglingLease [117, 54])]"
      "(0, 0, DanglingLease [117, 54]) \<in> set (acquired unmounted [] (requests ?s'))"
    by (simp_all add: run_defs export_path_def plain_start_def)
  have own: "(0, 0, DanglingLease [117, 48]) \<in> set (acquired unmounted [] (requests ?s))" by simp
  have list: "snd ` set (dangling ?c) = (\<Union>(S, L, K, s, lost) \<in> {(unmounted, registry, ?K, ?s, {1}), (unmounted, registry, ?K, ?s', {})}. snd ` set (dangling s))"
    by (simp add: image_Un Un_commute)
  have all: "\<forall>(S, L, K, s, lost) \<in> {(unmounted, registry, ?K, ?s, {1}), (unmounted, registry, ?K, ?s', {})}. client_run S L K (map unat) s lost"
    using one two by simp
  obtain released where r: "requests (snd (shutdown unmounted ?c)) = requests ?c @ released"
    "\<forall>(S, L, K, s, lost) \<in> {(unmounted, registry, ?K, ?s, {1}), (unmounted, registry, ?K, ?s', {})}. \<forall>(i, late, d) \<in> set (acquired S [] (requests s)).
       release_request d \<in> set released \<or> (\<exists>n. d = DanglingNetwork n) \<and> i \<in> lost"
    using nothing_left_behind [where ?S0.0 = unmounted, OF all list surjective_pairing] by (elim conjE exE) (rule that)
  have "\<forall>(i, late, d) \<in> set (acquired unmounted [] (requests ?s)). release_request d \<in> set released \<or> (\<exists>n. d = DanglingNetwork n) \<and> i \<in> {1}"
    "\<forall>(i, late, d) \<in> set (acquired unmounted [] (requests ?s')). release_request d \<in> set released \<or> (\<exists>n. d = DanglingNetwork n) \<and> i \<in> {}"
    using r(2) by simp_all
  then have "release_request (DanglingLease [117, 48]) \<in> set released" "release_request (DanglingLease [117, 54]) \<in> set released"
    using own lease(2) by blast+
  then have "{DeleteLease [117, 48], DeleteLease [117, 54]} \<subseteq> set (requests (snd (shutdown unmounted ?c)))" unfolding r(1) by simp
  moreover have "dangling ?c = dangling ?s @ dangling ?s'" by simp
  ultimately show ?thesis using one two by blast
qed

end
