(* ===== verification/Sidecar_Layers.thy ===== *)
theory Sidecar_Layers
  imports Containerd
begin

text \<open>
  \<^verbatim>\<open>sidecar/src/main.rs\<close>: the export of an overlayfs layer as an OCI layer, and the mounts. A directory is a tree
  whose nodes carry what a tar entry keeps of them (metadata and contents, the type \<open>'m\<close>) and what \<open>xattr::get\<close>
  answers for each attribute. The tar stream is the list of its entries; compression is left out, and of the input
  and output errors only those of \<open>xattr::get\<close> occur.
\<close>

section \<open>Upper directories\<close>

type_synonym file_path = "ustr list"

datatype upper_kind = RegularNode | DirectoryNode | CharNode nat nat | OtherNode

datatype ('e, 'm) upper =
  Upper (node_kind: upper_kind) (inode: 'm) (xattr: "ustr \<Rightarrow> 'e + bytes option") (below: "(ustr \<times> ('e, 'm) upper) list")

text \<open>\<open>WalkDir\<close>: a directory comes before what is in it.\<close>

fun walk :: "file_path \<Rightarrow> (ustr \<times> ('e, 'm) upper) list \<Rightarrow> (file_path \<times> ('e, 'm) upper) list" where
  "walk p [] = []"
| "walk p ((name, Upper k m x cs) # es) =
     (p @ [name], Upper k m x cs) # (if k = DirectoryNode then walk (p @ [name]) cs else []) @ walk p es"

fun result_of :: "'e + 'a \<Rightarrow> ('e, 'a) outcome" where
  "result_of (Inl e) = Err e"
| "result_of (Inr x) = Ok x"

definition is_whiteout :: "('e, 'm) upper \<Rightarrow> ('e, bool) outcome" where
  "is_whiteout u = (case node_kind u of
       CharNode major minor \<Rightarrow> Ok (minor = 0 \<and> major = 0)
     | RegularNode \<Rightarrow>
         and_then (result_of (xattr u (ustr ''trusted.overlay.whiteout''))) (\<lambda>trusted.
         and_then (result_of (xattr u (ustr ''user.overlay.whiteout''))) (\<lambda>usr.
         Ok (trusted \<noteq> None \<or> usr \<noteq> None)))
     | _ \<Rightarrow> Ok False)"

definition yes :: bytes where
  "yes = [121]"

definition is_opaque :: "('e, 'm) upper \<Rightarrow> ('e, bool) outcome" where
  "is_opaque u =
     (if node_kind u = DirectoryNode then
        and_then (result_of (xattr u (ustr ''trusted.overlay.opaque''))) (\<lambda>trusted.
        and_then (result_of (xattr u (ustr ''user.overlay.opaque''))) (\<lambda>usr.
        Ok (trusted = Some yes \<or> usr = Some yes)))
      else Ok False)"

section \<open>Export\<close>

text \<open>An empty entry with a fresh header, or the entry of a file.\<close>

datatype 'm tar_entry =
    EmptyEntry file_path
  | FileEntry file_path upper_kind 'm

definition wh :: ustr where
  "wh = ustr ''.wh.''"

definition opq :: ustr where
  "opq = ustr ''.wh..wh..opq''"

definition whiteout_path :: "file_path \<Rightarrow> file_path" where
  "whiteout_path p = butlast p @ [wh @ last p]"

definition append_walked :: "file_path \<Rightarrow> ('e, 'm) upper \<Rightarrow> ('e, 'm tar_entry list) outcome" where
  "append_walked relative_path u =
     and_then (is_whiteout u) (\<lambda>whiteout.
     if whiteout then Ok (if relative_path = [] then [] else [EmptyEntry (whiteout_path relative_path)])
     else and_then (is_opaque u) (\<lambda>opaque.
       Ok (if opaque then [EmptyEntry (relative_path @ [opq])] else [FileEntry relative_path (node_kind u) (inode u)])))"

text \<open>The entries that were appended before the walk ended.\<close>

fun append_entries :: "(file_path \<times> ('e, 'm) upper) list \<Rightarrow> 'm tar_entry list \<times> ('e, unit) outcome" where
  "append_entries [] = ([], Ok ())"
| "append_entries ((p, u) # es) = (case append_walked p u of
       Ok ts \<Rightarrow> (let (rest, r) = append_entries es in (ts @ rest, r))
     | Err e \<Rightarrow> ([], Err e) | Panic \<Rightarrow> ([], Panic) | NoFuel \<Rightarrow> ([], NoFuel))"

definition append_upperdir :: "(ustr \<times> ('e, 'm) upper) list \<Rightarrow> 'm tar_entry list \<times> ('e, unit) outcome" where
  "append_upperdir es = append_entries (walk [] es)"

section \<open>What a layer means\<close>

text \<open>A file system, by paths. The root is not an entry.\<close>

type_synonym 'm files = "file_path \<Rightarrow> (upper_kind \<times> 'm) option"

fun upper_at :: "(ustr \<times> ('e, 'm) upper) list \<Rightarrow> file_path \<Rightarrow> ('e, 'm) upper option" where
  "upper_at es [] = None"
| "upper_at es [n] = map_of es n"
| "upper_at es (n # p) = (case map_of es n of
       Some u \<Rightarrow> if node_kind u = DirectoryNode then upper_at (below u) p else None | None \<Rightarrow> None)"

definition strict_prefixes :: "file_path \<Rightarrow> file_path list" where
  "strict_prefixes p = map (\<lambda>n. take n p) [1..<length p]"

text \<open>
  The documentation of overlayfs: an entry of the upper directory is seen instead of a lower one. A whiteout, which is a
  character device 0/0 or an empty file with the attribute for it, hides a lower entry and is not seen itself. What is below a whiteout, an
  opaque directory or anything that is not a directory is hidden, too. The attributes are \<open>trusted.overlay\<close> ones, or \<open>user.overlay\<close> ones
  on a mount with the option \<open>userxattr\<close>; \<open>blank\<close> tells the files without contents.
\<close>

definition overlay_attribute :: "bool \<Rightarrow> ustr \<Rightarrow> ('e, 'm) upper \<Rightarrow> bytes option" where
  "overlay_attribute userxattr name u =
     (case xattr u ((if userxattr then ustr ''user.overlay.'' else ustr ''trusted.overlay.'') @ name) of Inr v \<Rightarrow> v | Inl e \<Rightarrow> None)"

definition overlay_whiteout :: "bool \<Rightarrow> ('m \<Rightarrow> bool) \<Rightarrow> ('e, 'm) upper \<Rightarrow> bool" where
  "overlay_whiteout userxattr blank u \<longleftrightarrow> node_kind u = CharNode 0 0 \<or>
     node_kind u = RegularNode \<and> blank (inode u) \<and> overlay_attribute userxattr (ustr ''whiteout'') u \<noteq> None"

definition overlay_opaque :: "bool \<Rightarrow> ('e, 'm) upper \<Rightarrow> bool" where
  "overlay_opaque userxattr u \<longleftrightarrow> node_kind u = DirectoryNode \<and> overlay_attribute userxattr (ustr ''opaque'') u = Some [121]"

definition overlay_hides :: "bool \<Rightarrow> ('m \<Rightarrow> bool) \<Rightarrow> ('e, 'm) upper \<Rightarrow> bool" where
  "overlay_hides userxattr blank u \<longleftrightarrow> overlay_whiteout userxattr blank u \<or> overlay_opaque userxattr u \<or> node_kind u \<noteq> DirectoryNode"

definition overlay_merge :: "bool \<Rightarrow> ('m \<Rightarrow> bool) \<Rightarrow> (ustr \<times> ('e, 'm) upper) list \<Rightarrow> 'm files \<Rightarrow> 'm files" where
  "overlay_merge userxattr blank es lower p = (case upper_at es p of
       Some u \<Rightarrow> if overlay_whiteout userxattr blank u then None else Some (node_kind u, inode u)
     | None \<Rightarrow> if list_ex (\<lambda>q. case upper_at es q of Some u \<Rightarrow> overlay_hides userxattr blank u | None \<Rightarrow> False) (strict_prefixes p)
         then None else lower p)"

text \<open>
  The attributes of a directory are the mount's own: a file with a whiteout attribute of either kind is a whiteout of the
  mount, and a directory that is marked opaque in either way is so to the mount. Overlayfs sets no others; a program can set
  \<open>user.overlay\<close> attributes on a mount that does not use them.
\<close>

definition own_marks :: "bool \<Rightarrow> ('m \<Rightarrow> bool) \<Rightarrow> ('e, 'm) upper \<Rightarrow> bool" where
  "own_marks userxattr blank u \<longleftrightarrow>
     (node_kind u = RegularNode \<longrightarrow> overlay_attribute False (ustr ''whiteout'') u \<noteq> None \<or> overlay_attribute True (ustr ''whiteout'') u \<noteq> None \<longrightarrow>
        overlay_whiteout userxattr blank u) \<and>
     (node_kind u = DirectoryNode \<longrightarrow> overlay_attribute False (ustr ''opaque'') u = Some [121] \<or> overlay_attribute True (ustr ''opaque'') u = Some [121] \<longrightarrow>
        overlay_opaque userxattr u)"

text \<open>What the entries of the layer hide, by the checks of the exporter.\<close>

definition hides :: "('e, 'm) upper \<Rightarrow> bool" where
  "hides u \<longleftrightarrow> is_whiteout u = Ok True \<or> is_opaque u = Ok True \<or> node_kind u \<noteq> DirectoryNode"

text \<open>
  The specification of OCI layers: an entry replaces what is there. A whiteout removes the path it names with what is
  below, an opaque whiteout all that is below its directory, as far as it comes from lower layers; and so does an entry
  that is not a directory.
\<close>

fun entry_in :: "'m tar_entry list \<Rightarrow> file_path \<Rightarrow> (upper_kind \<times> 'm) option" where
  "entry_in [] p = None"
| "entry_in (FileEntry q k m # ts) p = (if q = p then Some (k, m) else entry_in ts p)"
| "entry_in (EmptyEntry q # ts) p = entry_in ts p"

definition removes :: "'m tar_entry list \<Rightarrow> file_path \<Rightarrow> bool" where
  "removes ts p \<longleftrightarrow> EmptyEntry (butlast p @ [ustr ''.wh.'' @ last p]) \<in> set ts"

definition clears :: "'m tar_entry list \<Rightarrow> file_path \<Rightarrow> bool" where
  "clears ts p \<longleftrightarrow> removes ts p \<or> EmptyEntry (p @ [ustr ''.wh..wh..opq'']) \<in> set ts \<or>
     (case entry_in ts p of Some (k, m) \<Rightarrow> k \<noteq> DirectoryNode | None \<Rightarrow> False)"

definition apply_layer :: "'m tar_entry list \<Rightarrow> 'm files \<Rightarrow> 'm files" where
  "apply_layer ts lower p = (case entry_in ts p of
       Some node \<Rightarrow> Some node
     | None \<Rightarrow> if removes ts p \<or> list_ex (clears ts) (strict_prefixes p) then None else lower p)"

section \<open>The walk\<close>

text \<open>Trees that can be exported: the names in a directory are distinct, none looks like a whiteout.\<close>

definition plain_name :: "ustr \<Rightarrow> bool" where
  "plain_name n \<longleftrightarrow> n \<noteq> [] \<and> take 4 n \<noteq> ustr ''.wh.''"

fun plain_tree :: "('e, 'm) upper \<Rightarrow> bool" where
  "plain_tree (Upper k m x cs) \<longleftrightarrow> distinct (map fst cs) \<and> (\<forall>(n, u) \<in> set cs. plain_name n \<and> plain_tree u)"

definition plain_dir :: "(ustr \<times> ('e, 'm) upper) list \<Rightarrow> bool" where
  "plain_dir es \<longleftrightarrow> distinct (map fst es) \<and> (\<forall>(n, u) \<in> set es. plain_name n \<and> plain_tree u)"

lemma plain_dir_below:
  assumes "plain_dir es" "(n, u) \<in> set es"
  shows "plain_dir (below u)" "plain_name n"
proof -
  have "plain_name n \<and> plain_tree u" using assms by (auto simp: plain_dir_def)
  then show "plain_dir (below u)" "plain_name n" by (cases u, simp add: plain_dir_def)+
qed

lemma upper_at_Cons:
  "upper_at es (n # p) = (case map_of es n of Some u \<Rightarrow> if p = [] then Some u
     else if node_kind u = DirectoryNode then upper_at (below u) p else None | None \<Rightarrow> None)"
  by (cases p) (auto split: option.split)

lemma upper_at_none [simp]: "upper_at [] p = None"
  by (cases p) (simp_all add: upper_at_Cons)

lemma upper_at_new: "n \<notin> fst ` set es \<Longrightarrow> upper_at es (n # p) = None"
  by (simp add: upper_at_Cons map_of_eq_None_iff [THEN iffD2])

lemma walk_iff:
  "plain_dir es \<Longrightarrow> (q, u) \<in> set (walk p es) \<longleftrightarrow> (\<exists>r. q = p @ r \<and> upper_at es r = Some u)"
proof (induction p es arbitrary: q rule: walk.induct)
  case (2 p name k m x cs es)
  let ?u = "Upper k m x cs"
  have es: "plain_dir es" and new: "name \<notin> fst ` set es" using "2.prems" by (auto simp: plain_dir_def)
  have cs: "plain_dir cs" using plain_dir_below(1) [OF "2.prems", of name ?u] by simp
  have split: "(\<exists>r. q = p @ r \<and> upper_at ((name, ?u) # es) r = Some u) \<longleftrightarrow>
      (\<exists>r. q = p @ name # r \<and> upper_at ((name, ?u) # es) (name # r) = Some u) \<or> (\<exists>r. q = p @ r \<and> upper_at es r = Some u)"
    (is "?all \<longleftrightarrow> ?here \<or> ?there")
  proof
    assume ?all
    then obtain r where r: "q = p @ r" "upper_at ((name, ?u) # es) r = Some u" by blast
    then obtain n r' where n: "r = n # r'" by (cases r) auto
    show "?here \<or> ?there"
    proof (cases "n = name")
      case False
      then have "upper_at es r = Some u" using r(2) n by (simp add: upper_at_Cons)
      with r(1) show ?thesis by blast
    qed (use r n in blast)
  next
    assume "?here \<or> ?there"
    then show ?all
    proof
      assume ?there
      then obtain r where r: "q = p @ r" "upper_at es r = Some u" by blast
      then obtain n r' where n: "r = n # r'" by (cases r) auto
      then have "n \<noteq> name" using r(2) upper_at_new [OF new] by auto
      then have "upper_at ((name, ?u) # es) r = Some u" using r(2) n by (simp add: upper_at_Cons)
      with r(1) show ?all by blast
    qed blast
  qed
  have at: "upper_at ((name, ?u) # es) (name # r) = (if r = [] then Some ?u else if k = DirectoryNode then upper_at cs r else None)" for r
    by (simp add: upper_at_Cons)
  have sub: "(q, u) \<in> set (if k = DirectoryNode then walk (p @ [name]) cs else []) \<longleftrightarrow>
      k = DirectoryNode \<and> (\<exists>r. q = p @ name # r \<and> upper_at cs r = Some u)"
    using "2.IH"(1) [OF _ cs, of q] by (cases "k = DirectoryNode") simp_all
  have "(q, u) = (p @ [name], ?u) \<or> (q, u) \<in> set (if k = DirectoryNode then walk (p @ [name]) cs else []) \<longleftrightarrow>
      (\<exists>r. q = p @ name # r \<and> upper_at ((name, ?u) # es) (name # r) = Some u)" (is "?l \<longleftrightarrow> ?r")
  proof
    assume ?l
    then show ?r unfolding sub at by (elim disjE conjE exE) (auto intro!: exI)
  next
    assume ?r
    then obtain r where r: "q = p @ name # r" "(if r = [] then Some ?u else if k = DirectoryNode then upper_at cs r else None) = Some u"
      unfolding at by blast
    show ?l unfolding sub using r by (cases "r = []"; cases "k = DirectoryNode") simp_all
  qed
  moreover have "(q, u) \<in> set (walk p ((name, ?u) # es)) \<longleftrightarrow> ((q, u) = (p @ [name], ?u) \<or>
      (q, u) \<in> set (if k = DirectoryNode then walk (p @ [name]) cs else [])) \<or> (q, u) \<in> set (walk p es)"
    by simp
  ultimately show ?case using "2.IH"(2) [OF es, of q] split by blast
qed simp

lemma upper_at_plain: "plain_dir es \<Longrightarrow> upper_at es p = Some u \<Longrightarrow> p \<noteq> [] \<and> list_all plain_name p"
proof (induction p arbitrary: es)
  case (Cons n p)
  from Cons.prems(2) obtain v where v: "map_of es n = Some v" "p \<noteq> [] \<longrightarrow> upper_at (below v) p = Some u"
    by (auto simp: upper_at_Cons split: option.split_asm if_split_asm)
  then have "(n, v) \<in> set es" by (simp add: map_of_SomeD)
  with Cons v(2) plain_dir_below [OF Cons.prems(1)] show ?case by (cases "p = []") auto
qed simp

section \<open>What is exported\<close>

lemma removes_marker: "removes ts p \<longleftrightarrow> EmptyEntry (whiteout_path p) \<in> set ts"
  by (simp add: removes_def whiteout_path_def wh_def)

lemma clears_marker: "clears ts p \<longleftrightarrow> removes ts p \<or> EmptyEntry (p @ [opq]) \<in> set ts \<or>
    (case entry_in ts p of Some (k, m) \<Rightarrow> k \<noteq> DirectoryNode | None \<Rightarrow> False)"
  by (simp add: clears_def opq_def)

lemma append_walkedE:
  assumes "append_walked p u = Ok ts" "p \<noteq> []"
  obtains (whiteout) "is_whiteout u = Ok True" "ts = [EmptyEntry (whiteout_path p)]"
  | (opaque) "is_whiteout u = Ok False" "is_opaque u = Ok True" "ts = [EmptyEntry (p @ [opq])]"
  | (seen) "is_whiteout u = Ok False" "is_opaque u = Ok False" "ts = [FileEntry p (node_kind u) (inode u)]"
  using assms by (auto simp: append_walked_def outcome_simps split: if_split_asm)

lemma append_entries_Ok:
  "append_entries es = (ts, Ok ()) \<Longrightarrow> (\<forall>(p, u) \<in> set es. \<exists>as. append_walked p u = Ok as) \<and>
     (\<forall>a. a \<in> set ts \<longleftrightarrow> (\<exists>p u as. (p, u) \<in> set es \<and> append_walked p u = Ok as \<and> a \<in> set as))"
proof (induction es arbitrary: ts)
  case (Cons e es)
  obtain p u where e: "e = (p, u)" by fastforce
  with Cons.prems obtain as rest where as: "append_walked p u = Ok as" "append_entries es = (rest, Ok ())" "ts = as @ rest"
    by (auto split: outcome.split_asm prod.split_asm)
  with Cons.IH [OF as(2)] e show ?case by auto
qed simp

definition exports :: "(ustr \<times> ('e, 'm) upper) list \<Rightarrow> 'm tar_entry list \<Rightarrow> bool" where
  "exports es ts \<longleftrightarrow> plain_dir es \<and> append_upperdir es = (ts, Ok ())"

lemma at_entry: "exports es ts \<Longrightarrow> upper_at es p = Some u \<Longrightarrow> \<exists>as. append_walked p u = Ok as \<and> set as \<subseteq> set ts"
  using append_entries_Ok [of "walk [] es" ts] walk_iff [of es p u "[]"]
  by (fastforce simp: exports_def append_upperdir_def)

lemma entry_at: "exports es ts \<Longrightarrow> a \<in> set ts \<Longrightarrow> \<exists>p u as. upper_at es p = Some u \<and> append_walked p u = Ok as \<and> a \<in> set as"
  using append_entries_Ok [of "walk [] es" ts] walk_iff [of es _ _ "[]"]
  by (fastforce simp: exports_def append_upperdir_def)

lemma plain_at: "exports es ts \<Longrightarrow> upper_at es p = Some u \<Longrightarrow> p \<noteq> [] \<and> list_all plain_name p"
  by (auto simp: exports_def dest: upper_at_plain)

lemma opq_not_plain: "opq = wh @ n \<Longrightarrow> \<not> plain_name n"
  by (auto simp: opq_def wh_def plain_name_def ustr_def)

lemma whiteout_path_inj: "p \<noteq> [] \<Longrightarrow> q \<noteq> [] \<Longrightarrow> whiteout_path p = whiteout_path q \<Longrightarrow> p = q"
  by (cases p rule: rev_cases; cases q rule: rev_cases) (simp_all add: whiteout_path_def)

lemma whiteout_not_opq: "list_all plain_name p \<Longrightarrow> p \<noteq> [] \<Longrightarrow> whiteout_path p \<noteq> q @ [opq]"
  using opq_not_plain by (cases p rule: rev_cases) (auto simp: whiteout_path_def)

text \<open>The entries of a path, by what the upper directory has there.\<close>

lemma removes_iff:
  assumes x: "exports es ts" and p: "p \<noteq> []" "list_all plain_name p"
  shows "removes ts p \<longleftrightarrow> (\<exists>u. upper_at es p = Some u \<and> is_whiteout u = Ok True)"
proof
  assume "removes ts p"
  then obtain q u as where q: "upper_at es q = Some u" "append_walked q u = Ok as" "EmptyEntry (whiteout_path p) \<in> set as"
    using entry_at [OF x, of "EmptyEntry (whiteout_path p)"] unfolding removes_marker by blast
  have pl: "q \<noteq> []" using plain_at [OF x q(1)] by simp
  from q(2) pl q(3) show "\<exists>u. upper_at es p = Some u \<and> is_whiteout u = Ok True"
    by (cases rule: append_walkedE) (use q(1) whiteout_path_inj [OF p(1) pl] whiteout_not_opq [OF p(2,1)] in auto)
next
  assume "\<exists>u. upper_at es p = Some u \<and> is_whiteout u = Ok True"
  then obtain u where u: "upper_at es p = Some u" "is_whiteout u = Ok True" by blast
  with at_entry [OF x u(1)] p(1) show "removes ts p" by (auto simp: removes_marker append_walked_def)
qed

lemma opaque_iff:
  assumes x: "exports es ts"
  shows "EmptyEntry (p @ [opq]) \<in> set ts \<longleftrightarrow> (\<exists>u. upper_at es p = Some u \<and> is_whiteout u = Ok False \<and> is_opaque u = Ok True)"
proof
  assume "EmptyEntry (p @ [opq]) \<in> set ts"
  then obtain q u as where q: "upper_at es q = Some u" "append_walked q u = Ok as" "EmptyEntry (p @ [opq]) \<in> set as"
    using entry_at [OF x] by blast
  have pl: "q \<noteq> []" "list_all plain_name q" using plain_at [OF x q(1)] by simp_all
  from q(2) pl(1) q(3) show "\<exists>u. upper_at es p = Some u \<and> is_whiteout u = Ok False \<and> is_opaque u = Ok True"
    by (cases rule: append_walkedE) (use q(1) whiteout_not_opq [OF pl(2,1), of p] in auto)
next
  assume "\<exists>u. upper_at es p = Some u \<and> is_whiteout u = Ok False \<and> is_opaque u = Ok True"
  then obtain u where u: "upper_at es p = Some u" "is_whiteout u = Ok False" "is_opaque u = Ok True" by blast
  with at_entry [OF x u(1)] show "EmptyEntry (p @ [opq]) \<in> set ts" by (auto simp: append_walked_def)
qed

lemma entry_in_mem: "entry_in ts p = Some (k, m) \<Longrightarrow> FileEntry p k m \<in> set ts"
  by (induction ts p rule: entry_in.induct) (auto split: if_split_asm)

lemma mem_entry_in: "FileEntry p k m \<in> set ts \<Longrightarrow> entry_in ts p \<noteq> None"
  by (induction ts p rule: entry_in.induct) auto

lemma entry_in_iff:
  assumes x: "exports es ts"
  shows "entry_in ts p = (case upper_at es p of
    Some u \<Rightarrow> if is_whiteout u = Ok False \<and> is_opaque u = Ok False then Some (node_kind u, inode u) else None | None \<Rightarrow> None)"
proof -
  have there: "FileEntry p k m \<in> set ts \<longleftrightarrow> (\<exists>u. upper_at es p = Some u \<and> is_whiteout u = Ok False \<and> is_opaque u = Ok False \<and>
      k = node_kind u \<and> m = inode u)" (is "_ \<longleftrightarrow> ?seen") for k m
  proof
    assume "FileEntry p k m \<in> set ts"
    then obtain q u as where q: "upper_at es q = Some u" "append_walked q u = Ok as" "FileEntry p k m \<in> set as"
      using entry_at [OF x] by blast
    have pl: "q \<noteq> []" using plain_at [OF x q(1)] by simp
    from q(2) pl q(3) show ?seen by (cases rule: append_walkedE) (use q(1) in auto)
  next
    assume ?seen
    then obtain u where u: "upper_at es p = Some u" "is_whiteout u = Ok False" "is_opaque u = Ok False" "k = node_kind u" "m = inode u"
      by blast
    with at_entry [OF x u(1)] show "FileEntry p k m \<in> set ts" by (auto simp: append_walked_def)
  qed
  show ?thesis
  proof (cases "entry_in ts p")
    case None
    then show ?thesis using there mem_entry_in [of p _ _ ts] by (auto split: option.split)
  next
    case (Some node)
    then show ?thesis using there entry_in_mem [of ts p "fst node" "snd node"] by (cases node) auto
  qed
qed

lemma clears_iff:
  assumes x: "exports es ts" and p: "p \<noteq> []" "list_all plain_name p"
  shows "clears ts p \<longleftrightarrow> (case upper_at es p of Some u \<Rightarrow> hides u | None \<Rightarrow> False)"
proof (cases "upper_at es p")
  case None
  then show ?thesis by (simp add: clears_marker removes_iff [OF x p] opaque_iff [OF x] entry_in_iff [OF x])
next
  case (Some u)
  obtain as where "append_walked p u = Ok as" using at_entry [OF x Some] by blast
  from this p(1) show ?thesis
    by (cases rule: append_walkedE)
      (auto simp: clears_marker removes_iff [OF x p] opaque_iff [OF x] entry_in_iff [OF x] hides_def Some)
qed

lemma strict_prefixes_plain: "list_all plain_name p \<Longrightarrow> q \<in> set (strict_prefixes p) \<Longrightarrow> q \<noteq> [] \<and> list_all plain_name q"
  by (auto simp: strict_prefixes_def list_all_iff dest: in_set_takeD)

lemma cleared_iff:
  assumes "exports es ts" "list_all plain_name p"
  shows "list_ex (clears ts) (strict_prefixes p) \<longleftrightarrow>
    list_ex (\<lambda>q. case upper_at es q of Some u \<Rightarrow> hides u | None \<Rightarrow> False) (strict_prefixes p)"
  using strict_prefixes_plain [OF assms(2)] clears_iff [OF assms(1)] by (auto simp: list_ex_iff)

text \<open>The checks of the exporter are those of overlayfs, where they succeed and the attributes are the mount's own.\<close>

lemma result_of_Ok: "result_of v = Ok x \<longleftrightarrow> v = Inr x"
  by (cases v) simp_all

lemma ustr_append: "ustr (a @ b) = ustr a @ ustr b"
  by (simp add: ustr_def)

lemma overlay_attributes:
  "overlay_attribute False name u = (case xattr u (ustr ''trusted.overlay.'' @ name) of Inr v \<Rightarrow> v | Inl e \<Rightarrow> None)"
  "overlay_attribute True name u = (case xattr u (ustr ''user.overlay.'' @ name) of Inr v \<Rightarrow> v | Inl e \<Rightarrow> None)"
  by (simp_all add: overlay_attribute_def)

lemma checks_are_overlay:
  assumes "append_walked p u = Ok as" "p \<noteq> []" "own_marks userxattr blank u"
  shows "is_whiteout u = Ok True \<longleftrightarrow> overlay_whiteout userxattr blank u"
    and "is_whiteout u = Ok False \<Longrightarrow> is_opaque u = Ok True \<longleftrightarrow> overlay_opaque userxattr u"
proof -
  obtain b where b: "is_whiteout u = Ok b" using assms(1,2) by (cases rule: append_walkedE) auto
  have plain_file: "b \<longleftrightarrow> overlay_attribute False (ustr ''whiteout'') u \<noteq> None \<or> overlay_attribute True (ustr ''whiteout'') u \<noteq> None"
    if "node_kind u = RegularNode"
    using b that by (auto simp: is_whiteout_def outcome_simps result_of_Ok overlay_attributes simp flip: ustr_append)
  show w: "is_whiteout u = Ok True \<longleftrightarrow> overlay_whiteout userxattr blank u"
  proof (cases "node_kind u")
    case RegularNode
    with plain_file assms(3) b show ?thesis by (cases userxattr) (auto simp: own_marks_def overlay_whiteout_def)
  qed (use b in \<open>auto simp: is_whiteout_def overlay_whiteout_def\<close>)
  show "is_opaque u = Ok True \<longleftrightarrow> overlay_opaque userxattr u" if no: "is_whiteout u = Ok False"
  proof (cases "node_kind u = DirectoryNode")
    case True
    obtain c where c: "is_opaque u = Ok c" using assms(1,2) no by (cases rule: append_walkedE) auto
    then have "c \<longleftrightarrow> overlay_attribute False (ustr ''opaque'') u = Some [121] \<or> overlay_attribute True (ustr ''opaque'') u = Some [121]"
      using True by (auto simp: is_opaque_def outcome_simps result_of_Ok overlay_attributes yes_def simp flip: ustr_append)
    with c True assms(3) show ?thesis by (cases userxattr) (auto simp: own_marks_def overlay_opaque_def)
  qed (simp add: is_opaque_def overlay_opaque_def)
qed

lemma marks_at:
  assumes "exports es ts" "list_all (\<lambda>(q, u). own_marks userxattr blank u) (walk [] es)" "upper_at es q = Some u"
  shows "is_whiteout u = Ok True \<longleftrightarrow> overlay_whiteout userxattr blank u" "hides u \<longleftrightarrow> overlay_hides userxattr blank u"
proof -
  have "(q, u) \<in> set (walk [] es)" using walk_iff [of es q u "[]"] assms(1,3) by (simp add: exports_def)
  then have own: "own_marks userxattr blank u" using assms(2) by (auto simp: list_all_iff)
  obtain as where as: "append_walked q u = Ok as" "q \<noteq> []"
    using at_entry [OF assms(1,3)] plain_at [OF assms(1,3)] by blast
  note same = checks_are_overlay [OF as own]
  show w: "is_whiteout u = Ok True \<longleftrightarrow> overlay_whiteout userxattr blank u" by (rule same(1))
  obtain b where "is_whiteout u = Ok b" using as by (cases rule: append_walkedE) auto
  with same show "hides u \<longleftrightarrow> overlay_hides userxattr blank u" by (cases b) (auto simp: hides_def overlay_hides_def)
qed

section \<open>Properties\<close>

text \<open>
  C16: an exported layer means what the directory did. Applied to the same lower file system, the OCI layer gives every
  path what overlayfs shows there, whiteouts, opaque directories and files in the place of directories included, on mounts with
  attributes of either kind. The exception are opaque directories themselves, names that look like whiteouts, and directories with attributes
  that are not the mount's own.
\<close>

theorem export_merges:
  assumes "append_upperdir es = (ts, Ok ())" "plain_dir es" "p \<noteq> []" "list_all plain_name p"
    and marks: "list_all (\<lambda>(q, u). own_marks userxattr blank u) (walk [] es)"
    and "\<forall>u. upper_at es p = Some u \<longrightarrow> is_opaque u \<noteq> Ok True"
  shows "apply_layer ts lower p = overlay_merge userxattr blank es lower p"
proof -
  have x: "exports es ts" using assms(1,2) by (simp add: exports_def)
  show ?thesis
  proof (cases "upper_at es p")
    case None
    have "(\<lambda>q. case upper_at es q of Some u \<Rightarrow> hides u | None \<Rightarrow> False) =
        (\<lambda>q. case upper_at es q of Some u \<Rightarrow> overlay_hides userxattr blank u | None \<Rightarrow> False)"
      using marks_at(2) [OF x marks] by (auto split: option.split)
    with None show ?thesis
      using removes_iff [OF x assms(3,4)] cleared_iff [OF x assms(4)]
      by (simp add: apply_layer_def overlay_merge_def entry_in_iff [OF x])
  next
    case (Some u)
    obtain as where "append_walked p u = Ok as" using at_entry [OF x Some] by blast
    from this assms(3) show ?thesis
      by (cases rule: append_walkedE)
        (use Some assms(6) marks_at(1) [OF x marks Some] in
          \<open>auto simp: apply_layer_def overlay_merge_def entry_in_iff [OF x] removes_iff [OF x assms(3,4)]\<close>)
  qed
qed

text \<open>
  C26: an opaque directory is exported only by its marker. Its own entry, its owner and mode, is lost: where it replaces
  something, that is what is left, and where it is new, as every directory is that overlayfs marks when it is made,
  the layer says nothing of it.
\<close>

theorem opaque_entry_lost:
  assumes "append_upperdir es = (ts, Ok ())" "plain_dir es" "list_all plain_name p"
    and "upper_at es p = Some u" "is_opaque u = Ok True" "list_all (\<lambda>q. upper_at es q = None \<or> \<not> hides (the (upper_at es q))) (strict_prefixes p)"
  shows "apply_layer ts lower p = lower p \<and> overlay_merge userxattr blank es lower p = Some (DirectoryNode, inode u)"
proof -
  have x: "exports es ts" using assms(1,2) by (simp add: exports_def)
  have p: "p \<noteq> []" using plain_at [OF x assms(4)] by simp
  have dir: "node_kind u = DirectoryNode" using assms(5) by (simp add: is_opaque_def split: if_split_asm)
  then have whole: "is_whiteout u = Ok False" by (simp add: is_whiteout_def)
  have "\<not> list_ex (clears ts) (strict_prefixes p)"
    using assms(6) unfolding cleared_iff [OF x assms(3)] by (auto simp: list_ex_iff list_all_iff split: option.split)
  then show ?thesis
    using assms(4,5) whole dir removes_iff [OF x p assms(3)]
    by (simp add: apply_layer_def overlay_merge_def overlay_whiteout_def entry_in_iff [OF x])
qed

end
