(* ===== verification/Sidecar_Requests.thy ===== *)
theory Sidecar_Requests
  imports Sidecar_Layers
begin

text \<open>
  The protocol between serpentine and the sidecar: \<^verbatim>\<open>serpentine_internal/src/sidecar.rs\<close>, the client
  \<^verbatim>\<open>engine/sidecar_client.rs\<close> and the requests of \<^verbatim>\<open>sidecar/src/main.rs\<close>. A connection is the bytes that were sent
  and not read yet, and the bytes sent back. The codecs, the kernel, containerd and the pipes are parameters; the
  retries of the client, which start over, are left out. What is below a list of mounts is a map from paths.
\<close>

section \<open>Requests\<close>

datatype sidecar_request =
    Proxy
  | CreateFifo
  | CreateNetwork "unit topology"
  | DeleteNetwork "namespace topology"
  | ExportFiles "mount list" ustr
  | ImportFiles "mount list" ustr
  | ExportLayer mount

definition MAGIC_NUMBER :: bytes where
  "MAGIC_NUMBER = map word_of_nat (ustr ''danger noodle'')"

section \<open>Mounts\<close>

datatype mount_flag = MS_RDONLY | MS_BIND | MS_REC | MS_NOSUID | MS_NODEV | MS_NOEXEC | MS_REMOUNT | MS_PRIVATE | MS_SHARED | MS_SLAVE

definition option_flags :: "(ustr \<times> mount_flag list) list" where
  "option_flags = [(ustr ''ro'', [MS_RDONLY]), (ustr ''rw'', []), (ustr ''bind'', [MS_BIND]), (ustr ''rbind'', [MS_BIND, MS_REC]),
     (ustr ''nosuid'', [MS_NOSUID]), (ustr ''nodev'', [MS_NODEV]), (ustr ''noexec'', [MS_NOEXEC]), (ustr ''remount'', [MS_REMOUNT]),
     (ustr ''private'', [MS_PRIVATE]), (ustr ''rprivate'', [MS_PRIVATE, MS_REC]), (ustr ''shared'', [MS_SHARED]),
     (ustr ''rshared'', [MS_SHARED, MS_REC]), (ustr ''slave'', [MS_SLAVE]), (ustr ''rslave'', [MS_SLAVE, MS_REC])]"

fun parse_options :: "mount_flag set \<Rightarrow> ustr list \<Rightarrow> ustr list \<Rightarrow> mount_flag set \<times> ustr" where
  "parse_options flags data [] = (flags, join_with [44] data)"
| "parse_options flags data (opt # opts) = (case map_of option_flags opt of
       Some fs \<Rightarrow> parse_options (flags \<union> set fs) data opts
     | None \<Rightarrow> parse_options flags (data @ [opt]) opts)"

definition parse_containerd_mount_options :: "ustr list \<Rightarrow> mount_flag set \<times> ustr" where
  "parse_containerd_mount_options = parse_options {} []"

record mount_call =
  call_source :: ustr
  call_target :: ustr
  call_fstype :: "ustr option"
  call_flags :: "mount_flag set"
  call_data :: ustr

datatype 'e sidecar_error =
    WireError io_error
  | BadMagic bytes
  | SystemError 'e
  | NetworkError network_error
  | LowerdirNotFound
  | UnknownMountType ustr

definition strip_prefix :: "ustr \<Rightarrow> ustr \<Rightarrow> ustr option" where
  "strip_prefix s p = (if take (length s) p = s then Some (drop (length s) p) else None)"

fun top_layer :: "ustr list \<Rightarrow> ustr option" where
  "top_layer [] = None"
| "top_layer (opt # opts) = (case strip_prefix (ustr ''lowerdir='') opt of
       Some path \<Rightarrow> Some (case Containers.split_once 58 path of Some (first, others) \<Rightarrow> first | None \<Rightarrow> path)
     | None \<Rightarrow> top_layer opts)"

definition extract_overlayfs_upperdir :: "mount \<Rightarrow> ('e sidecar_error, ustr) outcome" where
  "extract_overlayfs_upperdir m =
     (if mount_type m = ustr ''bind'' then Ok (mount_source m)
      else if mount_type m = ustr ''overlay'' then ok_or (top_layer (mount_options m)) LowerdirNotFound
      else Err (UnknownMountType (mount_type m)))"

section \<open>The sidecar\<close>

record ('e, 'm) sidecar_env =
  decode_request :: "bytes \<Rightarrow> sidecar_request option"
  encode_network :: "namespace topology \<Rightarrow> bytes option"
  encode_text :: "ustr \<Rightarrow> bytes option"
  encode_item :: "header \<Rightarrow> bytes option"
  decode_item :: "bytes \<Rightarrow> header option"
  item_join :: "path \<Rightarrow> bytes \<Rightarrow> path"
  system :: network_env
  join_paths :: "ustr \<Rightarrow> ustr \<Rightarrow> ustr"
  strip_root :: "ustr \<Rightarrow> ustr option"
  mount_error :: "mount_call \<Rightarrow> 'e option"
  umount_error :: "ustr \<Rightarrow> 'e option"
  metadata :: "mount list \<Rightarrow> ustr \<Rightarrow> 'e + item"
  place_of :: "ustr \<Rightarrow> path"
  error_text :: "'e \<Rightarrow> ustr"
  upper_dir :: "ustr \<Rightarrow> (ustr \<times> ('e, 'm) upper) list"
  compressed :: "'m tar_entry list \<Rightarrow> bool \<Rightarrow> bytes"
  containerd_talk :: "bytes \<Rightarrow> 'e + bytes"
  mkfifo_error :: "ustr \<Rightarrow> 'e option"
  fifo_contents :: "ustr \<Rightarrow> 'e + bytes"

record sidecar_state =
  unread :: bytes
  sent_back :: bytes
  nets :: network_state
  mounted_at :: "ustr list"
  pipes :: "ustr set"
  files_below :: "mount list \<Rightarrow> disk"

type_synonym ('e, 'a) served = "(sidecar_state, 'e sidecar_error, 'a) action"

definition receive :: "(bytes \<Rightarrow> ('a \<times> bytes) io) \<Rightarrow> ('e, 'a) served" where
  "receive f s = (case f (unread s) of
       Ok (x, rest) \<Rightarrow> (Ok x, s\<lparr>unread := rest\<rparr>)
     | Err e \<Rightarrow> (Err (WireError e), s) | Panic \<Rightarrow> (Panic, s) | NoFuel \<Rightarrow> (NoFuel, s))"

definition send :: "bytes \<Rightarrow> ('e, unit) served" where
  "send b = update (\<lambda>s. s\<lparr>sent_back := sent_back s @ b\<rparr>)"

definition send_frame :: "('a \<Rightarrow> bytes option) \<Rightarrow> 'a \<Rightarrow> ('e, unit) served" where
  "send_frame encode x = and_do (lift_outcome (map_err WireError (write_frame encode x))) send"

definition on_nets :: "'a networked \<Rightarrow> ('e, 'a) served" where
  "on_nets f s = (let (r, n) = f (nets s) in (map_err NetworkError r, s\<lparr>nets := n\<rparr>))"

definition next_uuid :: "('e, 'm) sidecar_env \<Rightarrow> ('e, ustr) served" where
  "next_uuid E = on_nets (\<lambda>n. let (u, n) = fresh_uuid (system E) n in (Ok u, n))"

definition proxy_containerd :: "('e, 'm) sidecar_env \<Rightarrow> ('e, unit) served" where
  "proxy_containerd E = and_do (inspect unread) (\<lambda>b. case containerd_talk E b of Inl e \<Rightarrow> fail (SystemError e) | Inr r \<Rightarrow> send r)"

definition setup_fifo :: "('e, 'm) sidecar_env \<Rightarrow> ('e, unit) served" where
  "setup_fifo E =
     and_do (next_uuid E) (\<lambda>u.
     let pipe = join_paths E (ustr ''/run/serpentine'') u in
     case mkfifo_error E pipe of Some e \<Rightarrow> fail (SystemError e) | None \<Rightarrow>
     and_do (update (\<lambda>s. s\<lparr>pipes := insert pipe (pipes s)\<rparr>)) (\<lambda>_.
     and_do (send_frame (encode_text E) pipe) (\<lambda>_. case fifo_contents E pipe of Inl e \<Rightarrow> fail (SystemError e) | Inr b \<Rightarrow>
     and_do (send b) (\<lambda>_.
     update (\<lambda>s. s\<lparr>pipes := pipes s - {pipe}\<rparr>)))))"

definition create_network :: "('e, 'm) sidecar_env \<Rightarrow> unit topology \<Rightarrow> ('e, unit) served" where
  "create_network E t = and_do (on_nets (realize_topology (system E) t None)) (\<lambda>n. send_frame (encode_network E) n)"

definition relative_to_root :: "('e, 'm) sidecar_env \<Rightarrow> ustr \<Rightarrow> ustr" where
  "relative_to_root E p = (case strip_root E p of Some r \<Rightarrow> r | None \<Rightarrow> p)"

definition mount_call_of :: "('e, 'm) sidecar_env \<Rightarrow> ustr \<Rightarrow> mount \<Rightarrow> mount_call" where
  "mount_call_of E folder m =
     (let (flags, data) = parse_containerd_mount_options (mount_options m)
      in \<lparr>call_source = mount_source m, call_target = join_paths E folder (relative_to_root E (mount_target m)),
          call_fstype = (if mount_type m = ustr ''bind'' then None else Some (mount_type m)), call_flags = flags, call_data = data\<rparr>)"

definition mount_containerd :: "('e, 'm) sidecar_env \<Rightarrow> ustr \<Rightarrow> mount \<Rightarrow> ('e, unit) served" where
  "mount_containerd E folder m = (case mount_error E (mount_call_of E folder m) of
       Some e \<Rightarrow> fail (SystemError e)
     | None \<Rightarrow> update (\<lambda>s. s\<lparr>mounted_at := call_target (mount_call_of E folder m) # mounted_at s\<rparr>))"

fun mount_all :: "('e, 'm) sidecar_env \<Rightarrow> ustr \<Rightarrow> mount list \<Rightarrow> ('e, unit) served" where
  "mount_all E folder [] = give ()"
| "mount_all E folder (m # ms) = and_do (mount_containerd E folder m) (\<lambda>_. mount_all E folder ms)"

text \<open>\<open>umount\<close> takes the topmost mount at the folder away; that it fails is only logged.\<close>

definition demount_on_drop :: "('e, 'm) sidecar_env \<Rightarrow> ustr \<Rightarrow> ('e, 'a) served \<Rightarrow> ('e, 'a) served" where
  "demount_on_drop E folder f s = (let (r, s) = f s in (r, case umount_error E folder of
       None \<Rightarrow> s\<lparr>mounted_at := remove1 folder (mounted_at s)\<rparr> | Some _ \<Rightarrow> s))"

definition in_mount_folder :: "('e, 'm) sidecar_env \<Rightarrow> mount list \<Rightarrow> ('e, unit) served \<Rightarrow> ('e, unit) served" where
  "in_mount_folder E mounts f =
     and_do (next_uuid E) (\<lambda>u.
     let mount_folder = join_paths E (ustr ''/run/serpentine/mounts/'') u in
     demount_on_drop E mount_folder (and_do (mount_all E mount_folder mounts) (\<lambda>_. f)))"

text \<open>What \<open>read_disk_to_filesystem_stream\<close> has written when it ends, and whether it ended well.\<close>

function sent_item :: "(header \<Rightarrow> bytes option) \<Rightarrow> (path \<Rightarrow> bool \<Rightarrow> bool) \<Rightarrow> path \<Rightarrow> item \<Rightarrow> bytes \<times> unit io"
and sent_entries :: "(header \<Rightarrow> bytes option) \<Rightarrow> (path \<Rightarrow> bool \<Rightarrow> bool) \<Rightarrow> path \<Rightarrow> (bytes \<times> item) list \<Rightarrow> bytes \<times> unit io" where
  "sent_item encode keep p (RegularFile n contents) = (case write_frame encode (FileHeader (file_name p) n) of
       Ok h \<Rightarrow> (h @ contents, Ok ()) | r \<Rightarrow> ([], and_then r (\<lambda>_. Ok ())))"
| "sent_item encode keep p (Directory es) = (case write_frame encode (FolderHeader (file_name p) (length (kept keep p es))) of
       Ok h \<Rightarrow> (let (bs, r) = sent_entries encode keep p (kept keep p es) in (h @ bs, r)) | r \<Rightarrow> ([], and_then r (\<lambda>_. Ok ())))"
| "sent_item encode keep p (Link (Some it)) = sent_item encode keep p it"
| "sent_item encode keep p (Link None) = ([], Err NotFound)"
| "sent_item encode keep p Special = ([], Ok ())"
| "sent_entries encode keep p [] = ([], Ok ())"
| "sent_entries encode keep p ((name, it) # es) = (case sent_item encode keep (p @ [name]) it of
       (b, Ok _) \<Rightarrow> (let (bs, r) = sent_entries encode keep p es in (b @ bs, r)) | r \<Rightarrow> r)"
  by pat_completeness auto
termination
  by (relation "measure (\<lambda>x. case x of Inl (_, _, _, it) \<Rightarrow> size it
      | Inr (_, _, _, es) \<Rightarrow> size_list (size_prod (\<lambda>_. 0) size) es)")
    (auto simp: kept_def le_imp_less_Suc size_list_filter)

definition export_path_files :: "('e, 'm) sidecar_env \<Rightarrow> mount list \<Rightarrow> ustr \<Rightarrow> ('e, unit) served" where
  "export_path_files E mounts p = in_mount_folder E mounts
     (case metadata E mounts (relative_to_root E p) of
        Inl e \<Rightarrow> and_do (send [1]) (\<lambda>_. send_frame (encode_text E) (error_text E e))
      | Inr it \<Rightarrow> and_do (send [0]) (\<lambda>_. let (b, r) = sent_item (encode_item E) (\<lambda>_ _. True) [] it in
          and_do (send b) (\<lambda>_. lift_outcome (map_err WireError r))))"

text \<open>What a failed import leaves is not modelled.\<close>

definition import_files :: "('e, 'm) sidecar_env \<Rightarrow> mount list \<Rightarrow> ustr \<Rightarrow> ('e, unit) served" where
  "import_files E mounts p = in_mount_folder E mounts
     (and_do (inspect (\<lambda>s. read_stream (item_join E) (decode_item E) (place_of E (relative_to_root E p)) (unread s) (files_below s mounts))) (\<lambda>r.
      and_do (lift_outcome (map_err WireError r)) (\<lambda>(rest, d).
      update (\<lambda>s. s\<lparr>unread := rest, files_below := (files_below s)(mounts := d)\<rparr>))))"

text \<open>When an entry fails, the archive is closed but the encoder is not: its last bytes may be missing.\<close>

definition export_layer :: "('e, 'm) sidecar_env \<Rightarrow> mount \<Rightarrow> ('e, unit) served" where
  "export_layer E m =
     and_do (lift_outcome (extract_overlayfs_upperdir m)) (\<lambda>dir.
     let (ts, r) = append_upperdir (upper_dir E dir) in
     and_do (send (compressed E ts (r = Ok ()))) (\<lambda>_. lift_outcome (map_err SystemError r)))"

definition serve :: "('e, 'm) sidecar_env \<Rightarrow> sidecar_request \<Rightarrow> ('e, unit) served" where
  "serve E request = (case request of
       Proxy \<Rightarrow> proxy_containerd E
     | CreateFifo \<Rightarrow> setup_fifo E
     | CreateNetwork t \<Rightarrow> create_network E t
     | DeleteNetwork t \<Rightarrow> on_nets (delete_network (system E) t)
     | ExportFiles mounts p \<Rightarrow> export_path_files E mounts p
     | ImportFiles mounts p \<Rightarrow> import_files E mounts p
     | ExportLayer m \<Rightarrow> export_layer E m)"

definition handle_connection :: "('e, 'm) sidecar_env \<Rightarrow> ('e, unit) served" where
  "handle_connection E =
     and_do (receive (read_exact (length MAGIC_NUMBER))) (\<lambda>magic.
     if magic \<noteq> MAGIC_NUMBER then fail (BadMagic magic)
     else and_do (receive (read_frame (decode_request E))) (serve E))"

section \<open>The client\<close>

record client_codec =
  encode_request :: "sidecar_request \<Rightarrow> bytes option"
  decode_network :: "bytes \<Rightarrow> namespace topology option"
  decode_text :: "bytes \<Rightarrow> ustr option"

datatype client_fault = ClientError io_error | ExportFailed ustr

definition connect :: "client_codec \<Rightarrow> sidecar_request \<Rightarrow> (client_fault, bytes) outcome" where
  "connect C request = map_err ClientError (and_then (write_frame (encode_request C) request) (\<lambda>b. Ok (MAGIC_NUMBER @ b)))"

text \<open>What comes back is a function of what was sent. A stream that is handed out is what is left to read.\<close>

definition containerd :: "client_codec \<Rightarrow> (client_fault, bytes) outcome" where
  "containerd C = connect C Proxy"

definition fifo_pipe :: "client_codec \<Rightarrow> (bytes \<Rightarrow> bytes) \<Rightarrow> (client_fault, ustr \<times> bytes) outcome" where
  "fifo_pipe C dial = and_then (connect C CreateFifo) (\<lambda>hello. map_err ClientError (read_frame (decode_text C) (dial hello)))"

definition request_network :: "client_codec \<Rightarrow> (bytes \<Rightarrow> bytes) \<Rightarrow> unit topology \<Rightarrow> (client_fault, namespace topology) outcome" where
  "request_network C dial t = and_then (connect C (CreateNetwork t)) (\<lambda>hello.
     and_then (map_err ClientError (read_frame (decode_network C) (dial hello))) (\<lambda>(network, _). Ok network))"

definition request_deletion :: "client_codec \<Rightarrow> namespace topology \<Rightarrow> (client_fault, bytes) outcome" where
  "request_deletion C n = connect C (DeleteNetwork n)"

definition request_export :: "client_codec \<Rightarrow> (bytes \<Rightarrow> bytes) \<Rightarrow> mount list \<Rightarrow> ustr \<Rightarrow> (client_fault, bytes) outcome" where
  "request_export C dial mounts p = and_then (connect C (ExportFiles mounts p)) (\<lambda>hello. case dial hello of
       [] \<Rightarrow> Err (ClientError UnexpectedEof)
     | status # rest \<Rightarrow>
         if status \<noteq> 0 then and_then (map_err ClientError (read_frame (decode_text C) rest)) (\<lambda>(message, _). Err (ExportFailed message))
         else Ok rest)"

text \<open>The bytes to send before those of the stream.\<close>

definition request_import :: "client_codec \<Rightarrow> mount list \<Rightarrow> ustr \<Rightarrow> (client_fault, bytes) outcome" where
  "request_import C mounts p = connect C (ImportFiles mounts p)"

definition request_layer :: "client_codec \<Rightarrow> (bytes \<Rightarrow> bytes) \<Rightarrow> mount \<Rightarrow> (client_fault, bytes) outcome" where
  "request_layer C dial m = and_then (connect C (ExportLayer m)) (\<lambda>hello. Ok (dial hello))"

section \<open>Lemmas\<close>

lemma sent_item_written:
  "write_item encode keep p it = Ok bs \<Longrightarrow> sent_item encode keep p it = (bs, Ok ())"
  "write_entries encode keep p es = Ok bs \<Longrightarrow> sent_entries encode keep p es = (bs, Ok ())"
  by (induction encode keep p it and encode keep p es arbitrary: bs and bs rule: write_item_write_entries.induct)
    (auto simp: outcome_simps)

lemma read_exact_prefix: "read_exact (length m) b = Ok (m, rest) \<longleftrightarrow> b = m @ rest"
  by (auto simp: outcome_simps)

lemma connected:
  assumes "codec ok (encode_request C) (decode_request E)" "ok request"
  shows "\<exists>hello. connect C request = Ok hello \<and> (\<forall>payload s. handle_connection E (s\<lparr>unread := hello @ payload\<rparr>) =
    serve E request (s\<lparr>unread := payload\<rparr>))"
proof -
  obtain b where b: "write_frame (encode_request C) request = Ok b"
      "\<And>rest. read_frame (decode_request E) (b @ rest) = Ok (request, rest)"
    using write_frame_read [OF assms] by blast
  then show ?thesis
    by (intro exI [of _ "MAGIC_NUMBER @ b"]) (simp add: connect_def handle_connection_def and_do_def receive_def)
qed

lemma mount_all_works:
  "\<forall>c. mount_error E c = None \<Longrightarrow> \<exists>ts. mount_all E folder ms s = (Ok (), s\<lparr>mounted_at := ts @ mounted_at s\<rparr>)"
proof (induction ms arbitrary: s)
  case Nil
  then show ?case by (intro exI [of _ "[]"]) (simp add: give_def)
next
  case (Cons m ms)
  obtain t where t: "mount_containerd E folder m s = (Ok (), s\<lparr>mounted_at := t # mounted_at s\<rparr>)"
    using Cons.prems by (simp add: mount_containerd_def update_def)
  obtain ts where "mount_all E folder ms (s\<lparr>mounted_at := t # mounted_at s\<rparr>) = (Ok (), s\<lparr>mounted_at := ts @ t # mounted_at s\<rparr>)"
    using Cons.IH [OF Cons.prems, of "s\<lparr>mounted_at := t # mounted_at s\<rparr>"] by auto
  with t show ?case by (intro exI [of _ "ts @ [t]"]) (simp add: and_do_def)
qed

lemma in_mount_folder_works:
  assumes "\<forall>c. mount_error E c = None"
  shows "\<exists>n ms g. in_mount_folder E mounts f s = (let (r, s') = f (s\<lparr>nets := n, mounted_at := ms\<rparr>) in
    (r, s'\<lparr>mounted_at := g (mounted_at s')\<rparr>))"
proof -
  obtain u n where u: "next_uuid E s = (Ok u, s\<lparr>nets := n\<rparr>)"
    by (simp add: next_uuid_def on_nets_def fresh_uuid_def)
  let ?folder = "join_paths E (ustr ''/run/serpentine/mounts/'') u"
  obtain ts where "mount_all E ?folder mounts (s\<lparr>nets := n\<rparr>) = (Ok (), s\<lparr>nets := n, mounted_at := ts @ mounted_at s\<rparr>)"
    using mount_all_works [OF assms, of ?folder mounts "s\<lparr>nets := n\<rparr>"] by auto
  with u show ?thesis
    by (intro exI [of _ n] exI [of _ "ts @ mounted_at s"] exI [of _ "case umount_error E ?folder of None \<Rightarrow> remove1 ?folder | Some _ \<Rightarrow> id"])
      (simp add: in_mount_folder_def and_do_def demount_on_drop_def Let_def split: option.split)
qed

section \<open>Properties\<close>

text \<open>
  C24: the sidecar serves exactly what its client asked for: the request of a connection is understood whatever is
  sent after it, and a peer that does not begin with the magic number gets nothing and changes nothing.
\<close>

theorem requests_understood:
  assumes "codec ok (encode_request C) (decode_request E)"
  shows "(ok request \<longrightarrow> (\<exists>hello. connect C request = Ok hello \<and> (\<forall>payload s. handle_connection E (s\<lparr>unread := hello @ payload\<rparr>) =
      serve E request (s\<lparr>unread := payload\<rparr>)))) \<and>
    (\<not> prefix MAGIC_NUMBER (unread s) \<longrightarrow> (\<exists>e rest. handle_connection E s = (Err e, s\<lparr>unread := rest\<rparr>)))"
proof (intro conjI impI)
  assume "ok request"
  then show "\<exists>hello. connect C request = Ok hello \<and> (\<forall>payload s. handle_connection E (s\<lparr>unread := hello @ payload\<rparr>) =
      serve E request (s\<lparr>unread := payload\<rparr>))" using connected [OF assms] by blast
next
  assume stranger: "\<not> prefix MAGIC_NUMBER (unread s)"
  show "\<exists>e rest. handle_connection E s = (Err e, s\<lparr>unread := rest\<rparr>)"
  proof (cases "length MAGIC_NUMBER \<le> length (unread s)")
    case True
    then have "take (length MAGIC_NUMBER) (unread s) \<noteq> MAGIC_NUMBER" using stranger by (metis take_is_prefix)
    then show ?thesis using True by (auto simp: handle_connection_def and_do_def receive_def read_exact_def fail_def)
  next
    case False
    then have "handle_connection E s = (Err (WireError UnexpectedEof), s\<lparr>unread := unread s\<rparr>)"
      by (simp add: handle_connection_def and_do_def receive_def read_exact_def)
    then show ?thesis by blast
  qed
qed

text \<open>
  C17: files can be copied from one container to another. What the client is given when it exports a path below some
  mounts, sent to an import at a free place below other mounts, makes exactly the entries of the exported item there,
  and changes nothing else. The hypotheses: the codecs, mounts that the kernel accepts, an item that can be exported.
\<close>

theorem files_copied:
  assumes wire: "codec ok (encode_request C) (decode_request E)" "ok (ExportFiles ms p)" "ok (ImportFiles ms' p')"
    and kernel: "\<forall>c. mount_error E c = None"
    and stream: "stream_setup (encode_item E) (decode_item E) (item_join E)"
    and item: "metadata E ms (relative_to_root E p) = Inr it" "exportable (item_join E) it"
    and free: "free_at (place_of E (relative_to_root E p')) (files_below t ms')"
  shows "\<exists>b hello t'. request_export C (\<lambda>b. sent_back (snd (handle_connection E (s\<lparr>unread := b, sent_back := []\<rparr>)))) ms p = Ok b \<and>
    request_import C ms' p' = Ok hello \<and> handle_connection E (t\<lparr>unread := hello @ b\<rparr>) = (Ok (), t') \<and>
    files_below t' = (files_below t)(ms' := overlay (place_of E (relative_to_root E p')) (item_at (\<lambda>_ _. True) [] it) (files_below t ms'))"
proof -
  let ?target = "place_of E (relative_to_root E p')"
  obtain b where b: "write_item (encode_item E) (\<lambda>_ _. True) [] it = Ok b"
    "\<And>rest k. length (b @ rest) < k \<Longrightarrow> read_item k (item_join E) (decode_item E) ?target (b @ rest) (files_below t ms') =
      Ok (rest, overlay ?target (item_at (\<lambda>_ _. True) [] it) (files_below t ms'))"
    using write_read(1) [OF stream item(2), of "[]" "\<lambda>_ _. True"] free by (auto simp: named_def place_def)
  obtain ask_it where a: "connect C (ExportFiles ms p) = Ok ask_it"
    "\<And>payload s. handle_connection E (s\<lparr>unread := ask_it @ payload\<rparr>) = serve E (ExportFiles ms p) (s\<lparr>unread := payload\<rparr>)"
    using connected [OF wire(1,2)] by blast
  obtain hello where h: "connect C (ImportFiles ms' p') = Ok hello"
    "\<And>payload s. handle_connection E (s\<lparr>unread := hello @ payload\<rparr>) = serve E (ImportFiles ms' p') (s\<lparr>unread := payload\<rparr>)"
    using connected [OF wire(1,3)] by blast
  let ?body = "case metadata E ms (relative_to_root E p) of
        Inl e \<Rightarrow> and_do (send [1]) (\<lambda>_. send_frame (encode_text E) (error_text E e))
      | Inr it \<Rightarrow> and_do (send [0]) (\<lambda>_. let (b, r) = sent_item (encode_item E) (\<lambda>_ _. True) [] it in
          and_do (send b) (\<lambda>_. lift_outcome (map_err WireError r)))"
  let ?s = "s\<lparr>unread := [], sent_back := []\<rparr>"
  have "sent_back (snd (serve E (ExportFiles ms p) ?s)) = 0 # b"
  proof -
    obtain n m g where "in_mount_folder E ms ?body ?s = (let (r, s') = ?body (?s\<lparr>nets := n, mounted_at := m\<rparr>) in
        (r, s'\<lparr>mounted_at := g (mounted_at s')\<rparr>))"
      using in_mount_folder_works [OF kernel] by blast
    then show ?thesis
      by (simp add: serve_def export_path_files_def item(1) sent_item_written(1) [OF b(1)] and_do_def send_def update_def
          lift_outcome_def Let_def)
  qed
  moreover have order: "s\<lparr>sent_back := [], unread := b\<rparr> = s\<lparr>unread := b, sent_back := []\<rparr>" for b
    by simp
  ultimately have "request_export C (\<lambda>b. sent_back (snd (handle_connection E (s\<lparr>unread := b, sent_back := []\<rparr>)))) ms p = Ok b"
    using a(1) a(2) [where payload = "[]" and s = "s\<lparr>sent_back := []\<rparr>"] order by (simp add: request_export_def)
  moreover have "\<exists>t'. serve E (ImportFiles ms' p') (t\<lparr>unread := b\<rparr>) = (Ok (), t') \<and> files_below t' =
      (files_below t)(ms' := overlay ?target (item_at (\<lambda>_ _. True) [] it) (files_below t ms'))"
  proof -
    let ?f = "and_do (inspect (\<lambda>s. read_stream (item_join E) (decode_item E) ?target (unread s) (files_below s ms'))) (\<lambda>r.
      and_do (lift_outcome (map_err WireError r)) (\<lambda>(rest, d).
      update (\<lambda>s. s\<lparr>unread := rest, files_below := (files_below s)(ms' := d)\<rparr>)))"
    obtain n m g where f: "in_mount_folder E ms' ?f (t\<lparr>unread := b\<rparr>) = (let (r, s') = ?f (t\<lparr>unread := b, nets := n, mounted_at := m\<rparr>) in
        (r, s'\<lparr>mounted_at := g (mounted_at s')\<rparr>))"
      using in_mount_folder_works [OF kernel, of ms' ?f "t\<lparr>unread := b\<rparr>"] by blast
    have "read_stream (item_join E) (decode_item E) ?target b (files_below t ms') =
        Ok ([], overlay ?target (item_at (\<lambda>_ _. True) [] it) (files_below t ms'))"
      using b(2) [of "[]" "Suc (length b)"] by (simp add: read_stream_def)
    with f show ?thesis
      by (simp add: serve_def import_files_def and_do_def inspect_def update_def lift_outcome_def)
  qed
  ultimately show ?thesis using h by (auto simp: request_import_def)
qed

text \<open>The mounts of a list that are made: those before the first one that fails.\<close>

primrec mounts_made :: "('e, 'm) sidecar_env \<Rightarrow> ustr \<Rightarrow> mount list \<Rightarrow> ustr list" where
  "mounts_made E folder [] = []"
| "mounts_made E folder (m # ms) = (if mount_error E (mount_call_of E folder m) = None
     then join_paths E folder (relative_to_root E (mount_target m)) # mounts_made E folder ms else [])"

lemma mount_all_made: "\<exists>r. mount_all E folder ms s = (r, s\<lparr>mounted_at := rev (mounts_made E folder ms) @ mounted_at s\<rparr>)"
proof (induction ms arbitrary: s)
  case (Cons m ms)
  show ?case
  proof (cases "mount_error E (mount_call_of E folder m)")
    case None
    then have "mount_containerd E folder m s =
        (Ok (), s\<lparr>mounted_at := join_paths E folder (relative_to_root E (mount_target m)) # mounted_at s\<rparr>)"
      by (simp add: mount_containerd_def update_def mount_call_of_def split: prod.split)
    with None Cons [of "s\<lparr>mounted_at := join_paths E folder (relative_to_root E (mount_target m)) # mounted_at s\<rparr>"]
    show ?thesis by (auto simp: and_do_def)
  qed (simp add: and_do_def mount_containerd_def fail_def)
qed (simp add: give_def)

lemma remove1_here: "folder \<notin> set ms \<Longrightarrow> remove1 folder (rev ts @ ms) = ms \<longleftrightarrow> ts = [] \<or> ts = [folder]"
proof (cases "folder \<in> set ts")
  case True
  assume "folder \<notin> set ms"
  with True have "remove1 folder (rev ts @ ms) = remove1 folder (rev ts) @ ms" by (simp add: remove1_append)
  then have "remove1 folder (rev ts @ ms) = ms \<longleftrightarrow> remove1 folder (rev ts) = []" by simp
  also have "\<dots> \<longleftrightarrow> rev ts = [folder]"
    using True by (cases "rev ts") (auto simp flip: set_rev [of ts])
  also have "\<dots> \<longleftrightarrow> ts = [folder]" by (metis rev_rev_ident rev_singleton_conv)
  finally show ?thesis using True by auto
qed (auto simp: remove1_append remove1_idem)

lemma mounts_left:
  assumes "\<And>s'. mounted_at (snd (f s')) = mounted_at s'"
    and "folder = join_paths E (ustr ''/run/serpentine/mounts/'') (uuid (system E) (uuids (nets s)))"
  shows "mounted_at (snd (in_mount_folder E ms f s)) = (let all = rev (mounts_made E folder ms) @ mounted_at s in
    if umount_error E folder = None then remove1 folder all else all)"
proof -
  let ?s = "s\<lparr>nets := (nets s)\<lparr>uuids := Suc (uuids (nets s))\<rparr>\<rparr>"
  have u: "next_uuid E s = (Ok (uuid (system E) (uuids (nets s))), ?s)" by (simp add: next_uuid_def on_nets_def fresh_uuid_def)
  obtain r where r: "mount_all E folder ms ?s = (r, ?s\<lparr>mounted_at := rev (mounts_made E folder ms) @ mounted_at s\<rparr>)"
    using mount_all_made [of E folder ms ?s] by auto
  have "mounted_at (snd (and_do (mount_all E folder ms) (\<lambda>_. f) ?s)) = rev (mounts_made E folder ms) @ mounted_at s"
    using assms(1) by (cases r) (simp_all add: and_do_def r)
  then show ?thesis
    by (simp add: in_mount_folder_def and_do_def [of "next_uuid E"] u demount_on_drop_def assms(2) Let_def case_prod_beta split: option.split)
qed

text \<open>
  C25: when mounts are released. Whatever becomes of an export or an import of files, no earlier mount is taken away, and the mounts
  are as they were before exactly if the request made none, or one, at its folder itself, which could be unmounted. That is
  what becomes of the one mount at the root that the snapshotter gives. Of several mounts all but one stay, and so does one that goes
  elsewhere in the folder, or whose unmounting fails, which is only logged.
\<close>

theorem mounts_released:
  assumes "folder = join_paths E (ustr ''/run/serpentine/mounts/'') (uuid (system E) (uuids (nets s)))" "folder \<notin> set (mounted_at s)"
    and "request = ExportFiles ms p \<or> request = ImportFiles ms p" "serve E request s = (r, s')"
  shows "set (mounted_at s) \<subseteq> set (mounted_at s') \<and> (mounted_at s' = mounted_at s \<longleftrightarrow>
    mounts_made E folder ms = [] \<or> mounts_made E folder ms = [folder] \<and> umount_error E folder = None)"
proof -
  have send: "mounted_at (snd (send_frame enc x s')) = mounted_at s'" for enc :: "'x \<Rightarrow> bytes option" and x s'
    by (simp add: send_frame_def and_do_def lift_outcome_def send_def update_def split: outcome.split prod.split)
  have "\<exists>f. serve E request = in_mount_folder E ms f \<and> (\<forall>s'. mounted_at (snd (f s')) = mounted_at s')"
    using assms(3)
  proof
    assume "request = ExportFiles ms p"
    then show ?thesis
      unfolding serve_def sidecar_request.case export_path_files_def
      by (intro exI conjI HOL.refl)
        (auto simp: and_do_def send send_def update_def lift_outcome_def split: sum.split outcome.split prod.split)
  next
    assume "request = ImportFiles ms p"
    then show ?thesis
      unfolding serve_def sidecar_request.case import_files_def
      by (intro exI conjI HOL.refl)
        (auto simp: and_do_def update_def lift_outcome_def inspect_def split: outcome.split prod.split)
  qed
  then obtain f where f: "serve E request = in_mount_folder E ms f" "\<And>s'. mounted_at (snd (f s')) = mounted_at s'" by blast
  let ?all = "rev (mounts_made E folder ms) @ mounted_at s"
  have s': "mounted_at s' = (if umount_error E folder = None then remove1 folder ?all else ?all)"
    using mounts_left [OF f(2) assms(1), of ms] assms(4) f(1) by (simp add: Let_def)
  have "set (mounted_at s) \<subseteq> set (remove1 folder ?all)" using assms(2) by (auto simp: remove1_append remove1_idem)
  then show ?thesis using remove1_here [OF assms(2)] s' by auto
qed

end
