(* ===== verification/Demo_Sidecar.thy ===== *)
theory Demo_Sidecar
  imports Sidecar_Requests
begin

text \<open>
  The properties of the sidecar at small inputs: a layer with a whiteout and an opaque directory, and a file that is
  copied between two containers.
\<close>

section \<open>A layer\<close>

definition no_attributes :: "ustr \<Rightarrow> unit + bytes option" where
  "no_attributes name = Inr None"

definition marked_opaque :: "ustr \<Rightarrow> unit + bytes option" where
  "marked_opaque name = Inr (if name = ustr ''trusted.overlay.opaque'' then Some yes else None)"

text \<open>\<open>a\<close> was deleted, \<open>d\<close> was made with a file \<open>f\<close> in it.\<close>

definition demo_upper :: "(ustr \<times> (unit, nat) upper) list" where
  "demo_upper = [([97], Upper (CharNode 0 0) 0 no_attributes []),
     ([100], Upper DirectoryNode 1 marked_opaque [([102], Upper RegularNode 2 no_attributes [])])]"

definition demo_lower :: "nat files" where
  "demo_lower = [[[97]] \<mapsto> (RegularNode, 7), [[98]] \<mapsto> (RegularNode, 8)]"

definition demo_entries :: "nat tar_entry list" where
  "demo_entries = [EmptyEntry [wh @ [97]], EmptyEntry [[100], opq], FileEntry [[100], [102]] RegularNode 2]"

lemma demo_append: "append_upperdir demo_upper = (demo_entries, Ok ())"
  by (simp add: append_upperdir_def demo_upper_def demo_entries_def append_walked_def is_whiteout_def is_opaque_def
      no_attributes_def marked_opaque_def whiteout_path_def)

lemma demo_plain: "plain_dir demo_upper"
  by (simp add: plain_dir_def demo_upper_def plain_name_def wh_def ustr_def)

lemma demo_marks: "list_all (\<lambda>(q, u). own_marks False (\<lambda>_. True) u) (walk [] demo_upper)"
  by (simp add: demo_upper_def own_marks_def overlay_opaque_def overlay_attribute_def no_attributes_def marked_opaque_def yes_def ustr_def)

lemmas demo_merge = overlay_whiteout_def overlay_opaque_def overlay_hides_def overlay_attribute_def yes_def overlay_merge_def demo_upper_def demo_lower_def strict_prefixes_def is_whiteout_def is_opaque_def hides_def
  no_attributes_def marked_opaque_def

theorem export_merges_witness:
  "apply_layer demo_entries demo_lower [[97]] = None \<and>
   apply_layer demo_entries demo_lower [[98]] = Some (RegularNode, 8) \<and>
   apply_layer demo_entries demo_lower [[100], [102]] = Some (RegularNode, 2)"
proof (intro conjI)
  note m = export_merges [OF demo_append demo_plain _ _ demo_marks]
  have plain: "plain_name [97]" "plain_name [98]" "plain_name [100]" "plain_name [102]"
    by (simp_all add: plain_name_def wh_def ustr_def)
  show "apply_layer demo_entries demo_lower [[97]] = None"
    by (subst m) (simp_all add: plain demo_merge)
  show "apply_layer demo_entries demo_lower [[98]] = Some (RegularNode, 8)"
    by (subst m) (simp_all add: plain demo_merge)
  show "apply_layer demo_entries demo_lower [[100], [102]] = Some (RegularNode, 2)"
    by (subst m) (simp_all add: plain demo_merge)
qed

theorem opaque_entry_lost_witness:
  "apply_layer demo_entries demo_lower [[100]] = None \<and> overlay_merge False (\<lambda>_. True) demo_upper demo_lower [[100]] = Some (DirectoryNode, 1)"
  using opaque_entry_lost [OF demo_append demo_plain, of "[[100]]" "Upper DirectoryNode 1 marked_opaque [([102], Upper RegularNode 2 no_attributes [])]" demo_lower False "\<lambda>_. True"]
  by (simp add: plain_name_def wh_def ustr_def demo_upper_def demo_lower_def is_opaque_def marked_opaque_def strict_prefixes_def)

section \<open>A copy\<close>

definition demo_network_env :: network_env where
  "demo_network_env = \<lparr>uuid = (\<lambda>n. ustr (dec n)), creatable = (\<lambda>_. True), attachable = (\<lambda>_ _. True), removable = (\<lambda>_. True),
     netns_path = (\<lambda>n. n)\<rparr>"

definition demo_codec :: client_codec where
  "demo_codec = \<lparr>encode_request = (\<lambda>r. case r of ExportFiles _ _ \<Rightarrow> Some [0] | ImportFiles _ _ \<Rightarrow> Some [1] | _ \<Rightarrow> None),
     decode_network = (\<lambda>_. None), decode_text = (\<lambda>_. None)\<rparr>"

definition demo_source :: "mount list" where
  "demo_source = [\<lparr>mount_type = ustr ''bind'', mount_source = ustr ''/a'', mount_target = [47], mount_options = []\<rparr>]"

definition demo_env :: "(unit, nat) sidecar_env" where
  "demo_env = \<lparr>
     decode_request = (\<lambda>b. if b = [0] then Some (ExportFiles demo_source [47, 120]) else Some (ImportFiles [] [47, 121])),
     encode_network = (\<lambda>_. None), encode_text = (\<lambda>_. None), encode_item = example_encode, decode_item = example_decode,
     item_join = example_join, system = demo_network_env, join_paths = (\<lambda>p q. if q = [] then p else p @ [47] @ q),
     strip_root = (\<lambda>p. case p of c # cs \<Rightarrow> if c = 47 then Some cs else None | [] \<Rightarrow> None), mount_error = (\<lambda>_. None), umount_error = (\<lambda>_. None),
     metadata = (\<lambda>ms p. if p = [120] then Inr (RegularFile 1 [7]) else Inl ()), place_of = (\<lambda>p. [map word_of_nat p]),
     error_text = (\<lambda>_. []), upper_dir = (\<lambda>_. demo_upper), compressed = (\<lambda>_ _. []), containerd_talk = (\<lambda>_. Inl ()),
     mkfifo_error = (\<lambda>_. None), fifo_contents = (\<lambda>_. Inl ())\<rparr>"

definition demo_state :: sidecar_state where
  "demo_state = \<lparr>unread = [], sent_back = [], nets = \<lparr>subnet_counter = 0, uuids = 0, existing = {}\<rparr>, mounted_at = [], pipes = {},
     files_below = (\<lambda>_. Map.empty)\<rparr>"

definition demo_requests :: "sidecar_request \<Rightarrow> bool" where
  "demo_requests r \<longleftrightarrow> r = ExportFiles demo_source [47, 120] \<or> r = ImportFiles [] [47, 121]"

lemma demo_wire: "codec demo_requests (encode_request demo_codec) (decode_request demo_env)"
  by (auto simp: codec_def demo_requests_def demo_codec_def demo_env_def)

theorem requests_understood_witness:
  "\<exists>hello. connect demo_codec (ImportFiles [] [47, 121]) = Ok hello \<and>
    handle_connection demo_env (demo_state\<lparr>unread := hello @ []\<rparr>) = serve demo_env (ImportFiles [] [47, 121]) (demo_state\<lparr>unread := []\<rparr>)"
  using requests_understood [OF demo_wire, of "ImportFiles [] [47, 121]" demo_state] unfolding demo_requests_def by blast

theorem files_copied_witness:
  "\<exists>b hello t'. request_export demo_codec
      (\<lambda>b. sent_back (snd (handle_connection demo_env (demo_state\<lparr>unread := b, sent_back := []\<rparr>)))) demo_source [47, 120] = Ok b \<and>
    request_import demo_codec [] [47, 121] = Ok hello \<and>
    handle_connection demo_env (demo_state\<lparr>unread := hello @ b\<rparr>) = (Ok (), t') \<and> files_below t' [] [[121]] = Some (DFile [7])"
proof -
  have stream: "stream_setup (encode_item demo_env) (decode_item demo_env) (item_join demo_env)"
    using example_setup by (simp add: demo_env_def)
  have rel: "relative_to_root demo_env [47, 120] = [120]" "relative_to_root demo_env [47, 121] = [121]"
    by (simp_all add: relative_to_root_def demo_env_def)
  have free: "free_at (place_of demo_env (relative_to_root demo_env [47, 121])) (files_below demo_state [])"
    unfolding rel by (auto simp: demo_env_def demo_state_def free_at_def strict_prefix_def prefix_Cons)
  have item: "metadata demo_env demo_source (relative_to_root demo_env [47, 120]) = Inr (RegularFile 1 [7])"
    unfolding rel by (simp add: demo_env_def)
  have kernel: "\<forall>c. mount_error demo_env c = None" by (simp add: demo_env_def)
  have at: "overlay (place_of demo_env (relative_to_root demo_env [47, 121])) (item_at (\<lambda>_ _. True) [] (RegularFile 1 [7]))
      (files_below demo_state []) [[121]] = Some (DFile [7])"
    unfolding rel by (simp add: demo_env_def overlay_def)
  have ok: "demo_requests (ExportFiles demo_source [47, 120])" "demo_requests (ImportFiles [] [47, 121])"
    by (simp_all add: demo_requests_def)
  have "exportable (item_join demo_env) (RegularFile 1 [7])" by simp
  from files_copied [OF demo_wire ok kernel stream item this free, of demo_state] obtain b hello t' where
    "request_export demo_codec
      (\<lambda>b. sent_back (snd (handle_connection demo_env (demo_state\<lparr>unread := b, sent_back := []\<rparr>)))) demo_source [47, 120] = Ok b"
    "request_import demo_codec [] [47, 121] = Ok hello" "handle_connection demo_env (demo_state\<lparr>unread := hello @ b\<rparr>) = (Ok (), t')"
    "files_below t' [] = overlay (place_of demo_env (relative_to_root demo_env [47, 121])) (item_at (\<lambda>_ _. True) [] (RegularFile 1 [7]))
      (files_below demo_state [])"
    by auto
  with at show ?thesis by metis
qed

text \<open>One mount is released, of two the second is left.\<close>

definition nested_source :: "mount list" where
  "nested_source = demo_source @ [\<lparr>mount_type = ustr ''bind'', mount_source = ustr ''/b'', mount_target = ustr ''/c'', mount_options = []\<rparr>]"

theorem mounts_released_witness:
  "mounted_at (snd (serve demo_env (ExportFiles demo_source [47, 120]) demo_state)) = [] \<and>
   mounted_at (snd (serve demo_env (ExportFiles nested_source [47, 120]) demo_state)) \<noteq> []"
proof -
  let ?folder = "join_paths demo_env (ustr ''/run/serpentine/mounts/'') (uuid (system demo_env) (uuids (nets demo_state)))"
  have fresh: "?folder \<notin> set (mounted_at demo_state)" by (simp add: demo_state_def)
  have made: "mounts_made demo_env ?folder demo_source = [?folder]" "length (mounts_made demo_env ?folder nested_source) = 2"
    by (simp_all add: nested_source_def demo_source_def demo_env_def relative_to_root_def)
  note released = mounts_released [OF HOL.refl fresh disjI1 [OF HOL.refl] surjective_pairing]
  have "umount_error demo_env ?folder = None" by (simp add: demo_env_def)
  then have "mounted_at (snd (serve demo_env (ExportFiles demo_source [47, 120]) demo_state)) = mounted_at demo_state"
    using released [of demo_source "[47, 120]"] made(1) by blast
  moreover have "mounted_at (snd (serve demo_env (ExportFiles nested_source [47, 120]) demo_state)) \<noteq> mounted_at demo_state"
    using released [of nested_source "[47, 120]"] made(2) by fastforce
  ultimately show ?thesis by (simp add: demo_state_def)
qed

end
