(* ===== verification/File_Providers.thy ===== *)
theory File_Providers
  imports Sidecar_Requests Cache_Backends
begin

text \<open>
  \<^verbatim>\<open>engine/filesystem.rs\<close>: the readers of files of the host. A producer writes the stream of \<^verbatim>\<open>serpentine_internal\<close>
  into a pipe while the reader is read. How far it gets at a poll is an argument of the poll. The rules of ignore files
  are the parameter \<open>build\<close>.
\<close>

section \<open>Inline readers\<close>

definition PIPE_BUFFER :: nat where
  "PIPE_BUFFER = 64 * 1024"

text \<open>A producer is what it has still to write, and how it ends then.\<close>

record inline_reader =
  ir_buffer :: bytes
  ir_producer :: "(bytes \<times> unit io) option"
  ir_error :: "io_error option"

definition inline_new :: "bytes \<times> unit io \<Rightarrow> inline_reader" where
  "inline_new p = \<lparr>ir_buffer = [], ir_producer = Some p, ir_error = None\<rparr>"

text \<open>The producer takes so many steps at most: a step writes a byte, and the last one ends it.\<close>

definition poll_producer :: "nat \<Rightarrow> inline_reader \<Rightarrow> inline_reader" where
  "poll_producer steps r = (case ir_producer r of
       None \<Rightarrow> r
     | Some (unsent, result) \<Rightarrow>
         (let n = min steps (min (length unsent) (PIPE_BUFFER - length (ir_buffer r)));
              r = r\<lparr>ir_buffer := ir_buffer r @ take n unsent\<rparr> in
          if n = length unsent \<and> n < steps
          then r\<lparr>ir_producer := None, ir_error := (case result of Err e \<Rightarrow> Some e | _ \<Rightarrow> None)\<rparr>
          else r\<lparr>ir_producer := Some (drop n unsent, result)\<rparr>))"

text \<open>Reading from the pipe, which is at its end when it is empty and the other half is gone.\<close>

definition poll_pipe :: "nat \<Rightarrow> inline_reader \<Rightarrow> bytes poll \<times> inline_reader" where
  "poll_pipe room r =
     (if ir_buffer r \<noteq> [] then (Ready (take room (ir_buffer r)), r\<lparr>ir_buffer := drop room (ir_buffer r)\<rparr>)
      else (if ir_producer r = None then Ready [] else Pending, r))"

definition poll_read :: "nat \<Rightarrow> nat \<Rightarrow> inline_reader \<Rightarrow> bytes io poll \<times> inline_reader" where
  "poll_read steps room r = (case poll_pipe room (poll_producer steps r) of
       (Pending, r) \<Rightarrow> (Pending, r)
     | (Ready b, r) \<Rightarrow>
         let reached_eof = ir_producer r = None \<and> b = [] in
         (case ir_error r of
            Some e \<Rightarrow> if reached_eof then (Ready (Err e), r\<lparr>ir_error := None\<rparr>) else (Ready (Ok b), r)
          | None \<Rightarrow> (Ready (Ok b), r)))"

text \<open>
  Reading until the end or an error, with a poll for every element of the list: what was read, and how it ended.
  \<open>None\<close>: more polls are needed.
\<close>

fun read_to_end :: "nat list \<Rightarrow> nat \<Rightarrow> bytes \<Rightarrow> inline_reader \<Rightarrow> (bytes \<times> unit io) option" where
  "read_to_end [] room acc r = None"
| "read_to_end (steps # polls) room acc r = (case poll_read steps room r of
       (Pending, r) \<Rightarrow> read_to_end polls room acc r
     | (Ready (Ok b), r) \<Rightarrow> if b = [] then Some (acc, Ok ()) else read_to_end polls room (acc @ b) r
     | (Ready v, r) \<Rightarrow> Some (acc, and_then v (\<lambda>_. Ok ())))"

definition HASH_BUFFER :: nat where
  "HASH_BUFFER = 4048"

definition hash_data :: "nat list \<Rightarrow> inline_reader \<Rightarrow> bytes io option" where
  "hash_data polls r = map_option (\<lambda>(hashed, result). and_then result (\<lambda>_. Ok hashed)) (read_to_end polls HASH_BUFFER [] r)"

section \<open>Local files\<close>

record 'g ignore_host =
  canonicalize :: "path \<Rightarrow> path option"
  exists :: "path \<Rightarrow> bool"
  home_dir :: "path option"
  build :: "path \<Rightarrow> path list \<Rightarrow> 'g option"
  is_ignored :: "'g \<Rightarrow> path \<Rightarrow> bool \<Rightarrow> bool"

definition name_of :: "string \<Rightarrow> bytes" where
  "name_of s = map word_of_nat (ustr s)"

definition ancestors :: "path \<Rightarrow> path list" where
  "ancestors p = map (\<lambda>n. take n p) (rev [0..<Suc (length p)])"

fun upto_first :: "path \<Rightarrow> path list \<Rightarrow> path list" where
  "upto_first root [] = []"
| "upto_first root (p # ps) = p # (if p = root then [] else upto_first root ps)"

definition discover_gitignore :: "'g ignore_host \<Rightarrow> path \<Rightarrow> 'g option" where
  "discover_gitignore H dir = (case canonicalize H dir of
       None \<Rightarrow> None
     | Some within_dir \<Rightarrow> (case find (\<lambda>p. exists H (p @ [name_of ''.git''])) (ancestors within_dir) of
           None \<Rightarrow> None
         | Some repo_root \<Rightarrow> build H repo_root
             ((case home_dir H of Some home \<Rightarrow> [home @ [name_of ''.config'', name_of ''git'', name_of ''ignore'']] | None \<Rightarrow> []) @
              [repo_root @ [name_of ''.git'', name_of ''info'', name_of ''exclude'']] @
              map (\<lambda>p. p @ [name_of ''.gitignore'']) (upto_first repo_root (ancestors within_dir)))))"

definition keep_unless_ignored :: "'g ignore_host \<Rightarrow> 'g option \<Rightarrow> path \<Rightarrow> bool \<Rightarrow> bool" where
  "keep_unless_ignored H ignore p is_dir = (case ignore of Some g \<Rightarrow> \<not> is_ignored H g p is_dir | None \<Rightarrow> True)"

text \<open>
  \<open>it\<close> is what is at the path. The rules are asked about the path as it was given, followed by the names below it; it is
  not made canonical as for the search of the rules.
\<close>

definition local_files_reader :: "'g ignore_host \<Rightarrow> (header \<Rightarrow> bytes option) \<Rightarrow> path \<Rightarrow> item \<Rightarrow> inline_reader" where
  "local_files_reader H encode p it =
     inline_new (sent_item encode (\<lambda>q. keep_unless_ignored H (discover_gitignore H p) (p @ q)) [] it)"

section \<open>Reading is faithful\<close>

text \<open>What a reader has still to give: bytes, and an error after them.\<close>

fun rest_of :: "inline_reader \<Rightarrow> bytes \<times> io_error option" where
  "rest_of r = (case ir_producer r of
       Some (unsent, result) \<Rightarrow> (ir_buffer r @ unsent, case result of Err e \<Rightarrow> Some e | _ \<Rightarrow> None)
     | None \<Rightarrow> (ir_buffer r, ir_error r))"

declare rest_of.simps [simp del]

lemma rest_of_producer: "rest_of (poll_producer steps r) = rest_of r"
  by (auto simp: poll_producer_def rest_of.simps Let_def split: option.split prod.split)

lemma poll_pipe_rest:
  assumes "poll_pipe room r = (p, r')" "0 < room"
  shows "case p of Pending \<Rightarrow> r' = r \<and> ir_producer r \<noteq> None
    | Ready b \<Rightarrow> rest_of r = (b @ fst (rest_of r'), snd (rest_of r')) \<and> ir_producer r' = ir_producer r \<and> ir_error r' = ir_error r \<and>
       (b = [] \<longrightarrow> ir_buffer r = [] \<and> ir_producer r = None \<and> r' = r)"
  using assms by (auto simp: poll_pipe_def rest_of.simps split: if_split_asm option.split prod.split)

lemma rest_at_end: "ir_buffer r = [] \<Longrightarrow> ir_producer r = None \<Longrightarrow> rest_of r = ([], ir_error r)"
  by (simp add: rest_of.simps)

text \<open>What a poll with room gives is next, and the end or the error is only met when all was given.\<close>

lemma poll_read_rest:
  assumes "poll_read steps room r = (p, r')" "0 < room"
  shows "case p of Pending \<Rightarrow> rest_of r' = rest_of r
    | Ready v \<Rightarrow> (case v of Ok b \<Rightarrow> rest_of r = (b @ fst (rest_of r'), snd (rest_of r')) \<and> (b = [] \<longrightarrow> rest_of r = ([], None))
       | Err e \<Rightarrow> rest_of r = ([], Some e) | _ \<Rightarrow> False)"
proof -
  let ?r = "poll_producer steps r"
  obtain q r1 where q: "poll_pipe room ?r = (q, r1)" by fastforce
  note pipe = poll_pipe_rest [OF q assms(2)]
  show ?thesis
  proof (cases q)
    case Pending
    then have "p = Pending" "r' = ?r" using assms(1) q pipe by (simp_all add: poll_read_def)
    then show ?thesis by (simp add: rest_of_producer)
  next
    case (Ready b)
    have b0: "rest_of ?r = (b @ fst (rest_of r1), snd (rest_of r1))" "ir_producer r1 = ir_producer ?r"
        "b = [] \<longrightarrow> ir_buffer ?r = [] \<and> ir_producer ?r = None \<and> r1 = ?r"
      using pipe unfolding Ready poll.case by blast+
    have b: "rest_of r = (b @ fst (rest_of r1), snd (rest_of r1))" using b0(1) by (simp only: rest_of_producer)
    have ended: "ir_producer r1 = None \<and> rest_of r = ([], ir_error r1)" if "b = []"
    proof -
      have "ir_buffer ?r = []" "ir_producer ?r = None" "r1 = ?r" using b0(3) that by blast+
      then show ?thesis using rest_at_end [of ?r] by (simp only: rest_of_producer)
    qed
    show ?thesis
    proof (cases "ir_error r1")
      case None
      then have "p = Ready (Ok b)" "r' = r1" using assms(1) q Ready by (simp_all add: poll_read_def Let_def)
      then show ?thesis using b ended None by auto
    next
      case (Some e)
      show ?thesis
      proof (cases "b = []")
        case True
        then have "p = Ready (Err e)" using assms(1) q Ready Some ended by (simp add: poll_read_def Let_def)
        then show ?thesis using ended [OF True] Some by simp
      next
        case False
        then have "p = Ready (Ok b)" "r' = r1" using assms(1) q Ready Some by (simp_all add: poll_read_def Let_def)
        then show ?thesis using b False by simp
      qed
    qed
  qed
qed

lemma read_to_end_rest:
  "0 < room \<Longrightarrow> read_to_end polls room acc r = Some v \<Longrightarrow>
    v = (acc @ fst (rest_of r), case snd (rest_of r) of Some e \<Rightarrow> Err e | None \<Rightarrow> Ok ())"
proof (induction polls room acc r rule: read_to_end.induct)
  case (2 steps polls room acc r)
  obtain p r' where p: "poll_read steps room r = (p, r')" by fastforce
  note rest = poll_read_rest [OF p "2.prems"(1)]
  show ?case
  proof (cases p)
    case Pending
    then have "read_to_end polls room acc r' = Some v" "rest_of r' = rest_of r" using "2.prems"(2) p rest by simp_all
    then show ?thesis using "2.IH"(1) [OF p [symmetric] _ "2.prems"(1)] Pending by (auto split: option.split)
  next
    case (Ready w)
    show ?thesis
    proof (cases w)
      case (Ok b)
      then have b: "rest_of r = (b @ fst (rest_of r'), snd (rest_of r'))" "b = [] \<longrightarrow> rest_of r = ([], None)"
        using rest unfolding Ready Ok poll.case outcome.case by blast+
      show ?thesis
      proof (cases "b = []")
        case True
        then show ?thesis using b(2) "2.prems"(2) p Ready Ok by simp
      next
        case False
        then have "read_to_end polls room (acc @ b) r' = Some v" using "2.prems"(2) p Ready Ok by simp
        then show ?thesis using "2.IH"(2) [OF p [symmetric] Ready Ok False "2.prems"(1)] by (simp add: b(1) split: option.split)
      qed
    qed (use rest Ready "2.prems"(2) p in simp_all)
  qed
qed simp

text \<open>A poll in which the producer gets on never waits: it gives a byte, or the end.\<close>

lemma poll_producer_gets_on:
  assumes "0 < steps"
  shows "ir_buffer (poll_producer steps r) \<noteq> [] \<or> ir_producer (poll_producer steps r) = None"
proof (cases "ir_producer r")
  case None
  then show ?thesis by (simp add: poll_producer_def)
next
  case (Some p)
  then show ?thesis using assms by (cases p) (auto simp: poll_producer_def Let_def PIPE_BUFFER_def)
qed

lemma poll_pipe_ready:
  assumes "ir_buffer r \<noteq> [] \<or> ir_producer r = None"
  shows "fst (poll_pipe room r) \<noteq> Pending"
  using assms by (simp add: poll_pipe_def)

lemma poll_read_pending:
  assumes "fst (poll_read steps room r) = Pending"
  shows "steps = 0"
proof (rule ccontr)
  assume "steps \<noteq> 0"
  then have "fst (poll_pipe room (poll_producer steps r)) \<noteq> Pending" by (intro poll_pipe_ready poll_producer_gets_on) simp
  then obtain b r' where "poll_pipe room (poll_producer steps r) = (Ready b, r')"
    by (cases "poll_pipe room (poll_producer steps r)"; cases "fst (poll_pipe room (poll_producer steps r))") auto
  then show False using assms by (simp add: poll_read_def Let_def split: option.split_asm if_split_asm)
qed

lemma read_to_end_returns:
  "0 < room \<Longrightarrow> length (fst (rest_of r)) < length (filter ((<) 0) polls) \<Longrightarrow> \<exists>v. read_to_end polls room acc r = Some v"
proof (induction polls room acc r rule: read_to_end.induct)
  case (2 steps polls room acc r)
  obtain p r' where p: "poll_read steps room r = (p, r')" by fastforce
  note rest = poll_read_rest [OF p "2.prems"(1)]
  show ?case
  proof (cases p)
    case Pending
    then have "steps = 0" "rest_of r' = rest_of r" using poll_read_pending [of steps room r] p rest by simp_all
    then show ?thesis using "2.IH"(1) [OF p [symmetric] Pending "2.prems"(1)] "2.prems"(2) p Pending by simp
  next
    case (Ready w)
    show ?thesis
    proof (cases w)
      case (Ok b)
      have b: "fst (rest_of r) = b @ fst (rest_of r')" using rest unfolding Ready Ok poll.case outcome.case by auto
      show ?thesis
      proof (cases "b = []")
        case True
        then show ?thesis using p Ready Ok by simp
      next
        case False
        then have "length (fst (rest_of r')) < length (filter ((<) 0) polls)"
          using "2.prems"(2) b by (auto split: if_split_asm simp: neq_Nil_conv)
        then show ?thesis using "2.IH"(2) [OF p [symmetric] Ready Ok False "2.prems"(1)] False p Ready Ok by simp
      qed
    qed (use rest Ready p in simp_all)
  qed
qed simp

lemma write_frame_ends: "write_frame encode x \<noteq> Panic" "write_frame encode x \<noteq> NoFuel"
  by (cases "encode x"; simp add: write_frame_def ok_or_def)+

lemma sent_item_ends:
  "returns (snd (sent_item encode keep p it))"
  "returns (snd (sent_entries encode keep p es))"
  by (induction encode keep p it and encode keep p es rule: sent_item_sent_entries.induct)
    (auto simp: write_frame_ends split: outcome.splits prod.splits)

text \<open>
  C22: Reading local files (\<open>LocalFiles.get_reader\<close>, \<open>InlineReader\<close>): however the writing into the pipe and the reading of it
  interleave, and however much a read takes, what is read until the end or an error is all that
  \<open>read_disk_to_filesystem_stream\<close> writes for the files that the ignore rules leave, and the reading ends as the writing
  does: an error is not taken for the end, nor met before the bytes written ahead of it. The same is hashed, unless there is
  an error. The reading ends: a poll for each byte, and one, in which the writing gets on are enough.
\<close>

theorem local_files_faithful:
  assumes "sent_item encode (\<lambda>q. keep_unless_ignored H (discover_gitignore H p) (p @ q)) [] it = (bs, result)"
    "0 < room" "length bs < length (filter ((<) 0) polls)"
  shows "read_to_end polls room [] (local_files_reader H encode p it) = Some (bs, result) \<and>
    hash_data polls (local_files_reader H encode p it) = Some (and_then result (\<lambda>_. Ok bs))"
proof -
  let ?r = "local_files_reader H encode p it"
  have r: "rest_of ?r = (bs, case result of Err e \<Rightarrow> Some e | _ \<Rightarrow> None)"
    by (simp add: local_files_reader_def inline_new_def rest_of.simps assms(1))
  have "returns result" using sent_item_ends(1) [of encode _ "[]" it] assms(1) by (metis snd_conv)
  then have result: "(case snd (rest_of ?r) of Some e \<Rightarrow> Err e | None \<Rightarrow> Ok ()) = result"
    by (cases result) (simp_all add: r)
  have "read_to_end polls n [] ?r = Some (bs, result)" if "0 < n" for n
    using read_to_end_returns [OF that, of ?r polls "[]"] read_to_end_rest [OF that, of polls "[]" ?r] assms(3) result
    by (auto simp: r)
  then show ?thesis using assms(2) by (simp add: hash_data_def HASH_BUFFER_def)
qed

definition demo_host :: "(path \<times> bool) list ignore_host" where
  "demo_host = \<lparr>canonicalize = (\<lambda>p. Some ([1] # p)), exists = (\<lambda>p. p = [[1], name_of ''.git'']), home_dir = None,
     build = (\<lambda>root ps. Some (map (\<lambda>p. (butlast p @ [[9]], False)) ps)), is_ignored = (\<lambda>g p d. ([1] # p, d) \<in> set g)\<rparr>"

abbreviation demo_keep :: "path \<Rightarrow> bool \<Rightarrow> bool" where
  "demo_keep \<equiv> \<lambda>q. keep_unless_ignored demo_host (discover_gitignore demo_host [[2]]) ([[2]] @ q)"

lemma demo_rules: "keep_unless_ignored demo_host (discover_gitignore demo_host [[2]]) ([2] # q) d \<longleftrightarrow> q \<noteq> [[9]] \<or> d"
proof -
  have "discover_gitignore demo_host [[2]] =
      Some (map (\<lambda>p. (p, False)) [[[1], name_of ''.git'', name_of ''info'', [9]], [[1], [2], [9]], [[1], [9]]])"
    by code_simp
  moreover have "name_of ''.git'' \<noteq> [2]" by code_simp
  ultimately show ?thesis by (auto simp: keep_unless_ignored_def demo_host_def)
qed

lemma demo_sent:
  "\<exists>bs. sent_item example_encode demo_keep [] (Directory [([9], RegularFile 1 [8]), ([3], RegularFile 1 [7]), ([4], Link None)]) =
    (bs, Err NotFound) \<and> length bs < 100 \<and> last bs = 7"
  "\<exists>bs. sent_item example_encode demo_keep [] (Directory [([9], RegularFile 1 [8]), ([3], RegularFile 1 [7])]) =
    (bs, Ok ()) \<and> length bs < 100 \<and> last bs = 7"
  by (simp_all add: kept_def demo_rules write_frame_def ok_or_def file_name_def)

text \<open>The file that the rules leave out is not read; a link to nothing ends the reading.\<close>

theorem local_files_faithful_witness:
  "(\<exists>bs. read_to_end (replicate 100 1) 7 [] (local_files_reader demo_host example_encode [[2]]
      (Directory [([9], RegularFile 1 [8]), ([3], RegularFile 1 [7]), ([4], Link None)])) = Some (bs, Err NotFound) \<and> last bs = 7) \<and>
   (\<exists>bs. hash_data (replicate 100 3) (local_files_reader demo_host example_encode [[2]]
      (Directory [([9], RegularFile 1 [8]), ([3], RegularFile 1 [7])])) = Some (Ok bs) \<and> last bs = 7)"
proof -
  obtain bs cs where bs: "sent_item example_encode demo_keep [] (Directory [([9], RegularFile 1 [8]), ([3], RegularFile 1 [7]), ([4], Link None)]) =
      (bs, Err NotFound)" "length bs < 100" "last bs = 7"
    and cs: "sent_item example_encode demo_keep [] (Directory [([9], RegularFile 1 [8]), ([3], RegularFile 1 [7])]) =
      (cs, Ok ())" "length cs < 100" "last cs = 7" using demo_sent by blast
  show ?thesis using local_files_faithful [OF bs(1), of 7 "replicate 100 1"] bs(2,3)
      local_files_faithful [OF cs(1), of 1 "replicate 100 3"] cs(2,3) by simp
qed

end
