(* ===== verification/Spec2Isabelle.thy ===== *)
theory Spec2Isabelle
  imports Tokenizer_Props Parser_Props Containers Demo_Graph Streams Users Demo_Scheduler Cache_Backends Github_Backend Demo_Layers Demo_Sidecar File_Providers
begin

text \<open>
  A verification development for Serpentine, a build system whose pipelines are written in the language
  Snek and run in containers. The program reads a file, turns it into tokens, a syntax tree, an
  intermediate representation and a graph of nodes, type checks the graph and runs it. Running a node may
  copy files, or run a command in a container with its services, through containerd and a daemon (the
  sidecar) next to it. Results are cached under hashes of what they were computed from.

  The parts and the theories that model them (paths below \<^verbatim>\<open>src/serpentine/src/\<close> unless they start with
  another crate):

  The language.

  \<^item> \<open>Base\<close>: outcomes of fallible code (\<open>Ok\<close>, \<open>Err\<close>, \<open>Panic\<close>, \<open>NoFuel\<close>), UTF-8 lengths, Rust strings as lists
    of scalar values, decimal printing. Lemmas: the monad laws and the splitting of \<open>and_then\<close>.
  \<^item> \<open>Spans\<close>: \<^verbatim>\<open>snek/span.rs\<close>, spans into the virtual file of all sources and its report of a span.
  \<^item> \<open>Errors\<close>: the \<open>CompileError\<close> of \<^verbatim>\<open>snek/mod.rs\<close>; \<open>user_error\<close> are the errors that are not internal.
  \<^item> \<open>Tokenizer\<close>, \<open>Token_Layout\<close>, \<open>Tokenizer_Props\<close>: \<^verbatim>\<open>snek/tokenizer.rs\<close>. The tokenizer always returns, its
    tokens spell the text under their spans, and printing tokens is undone by it.
  \<^item> \<open>Ast\<close>, \<open>Parser\<close>, \<open>Parser_Props\<close>: \<^verbatim>\<open>snek/ast.rs\<close> and \<^verbatim>\<open>snek/parser.rs\<close>. The parser returns statements or a
    user error, whatever the tokens.
  \<^item> \<open>Paths\<close>, \<open>Ir\<close>, \<open>Resolver\<close>, \<open>Resolver_Props\<close>: \<^verbatim>\<open>snek/ir.rs\<close> and \<^verbatim>\<open>snek/resolver.rs\<close>. Resolving terminates,
    does not fail internally, and its result is closed: each symbol is defined before its use.
  \<^item> \<open>Maps\<close>: the hash maps as a locale \<open>dictionary\<close>, interpreted on the models of the maps in use.
  \<^item> \<open>Compiler\<close>, \<open>Compiler_Props\<close>: \<^verbatim>\<open>snek/compiler.rs\<close> and \<^verbatim>\<open>compile_graph\<close> of \<^verbatim>\<open>snek/mod.rs\<close>. Functions are
    inlined into a graph that is acyclic, well typed and without duplicates; the only errors are type errors.
  \<^item> \<open>Demo\<close>, \<open>Demo_Graph\<close>: a small pipeline on which the properties of the front end are evaluated.

  The engine.

  \<^item> \<open>Topology\<close>: \<^verbatim>\<open>serpentine_internal/src/network.rs\<close>, trees that are compared by shape.
  \<^item> \<open>Containers\<close>: \<^verbatim>\<open>engine/containerd/container_config.rs\<close>, the configuration of containers and services.
  \<^item> \<open>Data_Model\<close>: \<^verbatim>\<open>engine/data_model.rs\<close>, data, types, and the push-only store with its locale.
  \<^item> \<open>Nodes\<close>: \<^verbatim>\<open>engine/nodes.rs\<close>, the typing and the execution of every prelude node.
  \<^item> \<open>Cache_Keys\<close>: \<^verbatim>\<open>engine/cache/mod.rs\<close>, the hashes of \<^verbatim>\<open>engine/filesystem.rs\<close> and \<^verbatim>\<open>engine/data_model.rs\<close>: equal
    keys mean equal contents unless the hash collides.
  \<^item> \<open>Cache_Backends\<close>: the trait \<^verbatim>\<open>CacheBackend\<close> as a locale and \<^verbatim>\<open>engine/cache/filesystem_backend.rs\<close>, whose
    users, writes in the background, renames and fellow instances interleave as the steps of \<open>local_step\<close>. A step has the events that
    a user sees; what is read is accounted for by them.
  \<^item> \<open>Scheduler\<close>, \<open>Scheduler_Props\<close>, \<open>Demo_Scheduler\<close>: \<^verbatim>\<open>engine/scheduler.rs\<close> and \<^verbatim>\<open>execute_raw\<close> of
    \<^verbatim>\<open>engine/nodes.rs\<close> as a step relation over all interleavings of the tasks. It refines the relation
    \<open>computes\<close>, its errors are those of the relation \<open>fails\<close>, it ends, and it depends on the order of the steps only as far as the world does.
  \<^item> \<open>Users\<close>: \<^verbatim>\<open>engine/userdb.rs\<close>, the user and groups of a container from its passwd and group files.
  \<^item> \<open>Streams\<close>: \<^verbatim>\<open>serpentine_internal/src/lib.rs\<close>, length-prefixed frames and the stream of files and folders.
  \<^item> \<open>Utf8\<close>: the text of bytes and back, as the standard library does it.

  Containers.

  \<^item> \<open>Effects\<close>: fallible code with state, \<open>action\<close>s put together by \<open>and_do\<close>.
  \<^item> \<open>Sidecar_Network\<close>: the networks of \<^verbatim>\<open>sidecar/src/main.rs\<close>: subnets, the realisation of a topology as
    namespaces and bridges, and its removal.
  \<^item> \<open>Containerd\<close>: \<^verbatim>\<open>engine/containerd/mod.rs\<close> and \<^verbatim>\<open>engine/containerd/files.rs\<close>. The requests sent are recorded
    in order; what containerd and the sidecar answer is a function of the requests so far. Leases and things
    left behind are state.
  \<^item> \<open>Exec\<close>, \<open>Exec_Props\<close>, \<open>Exec_Parts\<close>, \<open>Demo_Exec\<close>: \<^verbatim>\<open>engine/containerd/exec.rs\<close>: the snapshots of a command, its
    network, the start of its services from the leaves of the topology and the commit of their results. \<open>exec_stage\<close> is
    \<open>exec_internal\<close> as a state machine, which \<open>exec_internal_stages\<close> relates to it.
  \<^item> \<open>Kept\<close>: what every action of the client keeps, as locales over the requests it may send.
  \<^item> \<open>Network_Pool\<close>: commands that go through these stages at the same time, fail or are aborted, and share the pool of networks.
  \<^item> \<open>Layers\<close>, \<open>Layer_Props\<close>, \<open>Layer_Transfer\<close>, \<open>Demo_Layers\<close>: \<^verbatim>\<open>engine/containerd/layers.rs\<close> and the lock files of
    \<^verbatim>\<open>engine/mod.rs\<close>: images are pulled layer by layer, snapshots exported to the cache and imported with their
    parents. Layers are committed under their locks, an accepted value is there, and an exported snapshot can be restored
    elsewhere; errors in reading an entry are not noticed.
  \<^item> \<open>Left_Behind\<close>: what all of these operations acquire on any number of threads is noted, so that shutting the client down
    releases it, also when operations were aborted: an abort keeps what was noted before the last request that was sent. Only a network
    whose creation is that request is lost.
  \<^item> \<open>Sidecar_Layers\<close>: the export of a layer by the sidecar: its OCI entries mean what overlayfs shows, by its
    documentation, but for the entries of opaque directories themselves and for attributes that are not the mount's own.
  \<^item> \<open>Sidecar_Requests\<close>, \<open>Demo_Sidecar\<close>: the protocol of \<^verbatim>\<open>serpentine_internal/src/sidecar.rs\<close>, its client
    \<^verbatim>\<open>engine/sidecar_client.rs\<close> and the requests that \<^verbatim>\<open>sidecar/src/main.rs\<close> serves. Requests are understood, a mount at
    the root is released, and files arrive in a container as they left another.
  \<^item> \<open>Github_Backend\<close>: \<^verbatim>\<open>engine/cache/github_backend.rs\<close>, the cache of GitHub actions. Its writer is a state machine
    beside its background uploads, as the steps of \<open>blob_step\<close>; what it commits is what was written.
  \<^item> \<open>File_Providers\<close>: the readers of \<^verbatim>\<open>engine/filesystem.rs\<close>: a producer writes into a pipe while it is read, and
    local files are sent without those that ignore files exclude. What is read is what was written.

  Fuel. The parser's loops get one more step than there are tokens, its recursive calls four times that
  and a little: a token is consumed within four calls. Imports nest at most as deep as there are readable
  files, because a module in progress is not entered again; \<open>resolve\<close> takes this depth as a parameter and
  \<open>resolve_sound\<close> shows that one more than the number of files is enough. The compiler's inlining goes as deep
  as there are functions, the reader of streams as there are bytes. Except for the scheduler, whose steps need no
  bound, no property is about runs that end without fuel.

  Parameters. The classes of characters that Rust takes from Unicode (\<open>unicode\<close>), the file system and
  embedded standard library (\<open>host\<close>), the containerd client of a node (\<open>client\<close>), what containerd and the sidecar
  answer (\<open>services\<close>), network plugins, namespaces, mounts and random names of the sidecar's system, what tokio answers for a file, the hash BLAKE3, and
  the codecs postcard, bitcode, base64 and typed paths, the registry of images and the services of GitHub and Azure. How often containerd is asked before a command or healthcheck
  counts as failed is a parameter too, as are the rules of ignore files and the moments at which a future gets on.

  Simplifications. The pipe between the two halves of a reader is a bounded queue of bytes. The services of a command are started one after another where the code starts siblings
  concurrently, so an operation that is aborted waits for one request. The answers a thread of the client gets are a function of its own
  requests: those of other threads in between are part of that function. Log lines, progress events, permission bits and the limit on commands at a time are left out.
  Arenas are values: a reference into one is what it refers to. A snapshot is imported after its parent where the
  code downloads both at once; how deep parents nest is the first argument of \<open>export_snapshot\<close> and \<open>ensure_snapshot\<close>.

  Not modelled. The HTTP clients of the cache of GitHub, the Docker client that starts the sidecar, how the sidecar starts
  containerd, process start-up and the user interface: mostly calls of services, sockets and the
  operating system whose code is not in the repository.
\<close>

end
